(* ===== verification/KV_Prelude.thy ===== *)
theory KV_Prelude
  imports Main "HOL-Library.AList" "HOL-Library.Multiset" "HOL-Library.Word"
begin

text \<open>
  Shared vocabulary of the development: Python's exceptions as values of a sum type, the
  sequencing of code that may raise, loops over a list with a state, Python's dictionaries as
  association lists in insertion order, slices, and the integer helpers of
  \<^verbatim>\<open>vllm/utils/math_utils.py\<close>.
  Python's integers are \<^typ>\<open>int\<close>; addresses of objects and list positions are \<^typ>\<open>nat\<close>.
\<close>

named_theorems pool_simps \<open>equations that unfold one operation of the block pool\<close>
named_theorems frame_simps \<open>fields an operation leaves as they are\<close>

section \<open>Exceptions as values\<close>

datatype py_error =
    ValueError
  | RuntimeError
  | AssertionError
  | KeyError
  | IndexError
  | StopIteration
  | NotImplementedError
  | OverflowError
  | ZeroDivisionError
  | AttributeError
  | TypeError

type_synonym 'a res = "py_error + 'a"

text \<open>\<open>ebind m f\<close> runs \<open>m\<close> and passes its value on; an exception skips the rest.\<close>

definition ebind :: "'a res \<Rightarrow> ('a \<Rightarrow> 'b res) \<Rightarrow> 'b res" where
  "ebind m f = (case m of Inl e \<Rightarrow> Inl e | Inr x \<Rightarrow> f x)"

lemma ebind_simps [simp]:
  "ebind (Inl e) f = Inl e"
  "ebind (Inr x) f = f x"
  by (simp_all add: ebind_def)

lemma ebind_Inr_iff: "(ebind act k = Inr v) = (\<exists>u. k u = Inr v \<and> act = Inr u)"
  by (cases act) auto

lemma ebind_InrE [elim]:
  assumes "ebind m f = Inr y"
  obtains x where "m = Inr x" "f x = Inr y"
  using assms by (auto simp: ebind_Inr_iff)

text \<open>A \<open>for\<close> loop over a list that updates a state and may raise.\<close>

fun efold :: "('a \<Rightarrow> 's \<Rightarrow> 's res) \<Rightarrow> 'a list \<Rightarrow> 's \<Rightarrow> 's res" where
  "efold f [] s = Inr s"
| "efold f (x # xs) s = ebind (f x s) (efold f xs)"

lemma efold_append: "efold f (xs @ ys) s = ebind (efold f xs s) (efold f ys)"
  by (induction xs arbitrary: s) (auto simp: ebind_def split: sum.splits)

lemma efold_invariant:
  assumes "efold f xs s = Inr s'" and "P s"
    and "\<And>x s s'. x \<in> set xs \<Longrightarrow> P s \<Longrightarrow> f x s = Inr s' \<Longrightarrow> P s'"
  shows "P s'"
  using assms
proof (induction xs arbitrary: s)
  case Nil
  then show ?case by simp
next
  case (Cons x xs)
  from Cons.prems(1) obtain t where t: "f x s = Inr t" "efold f xs t = Inr s'"
    by auto
  moreover have "P t"
    using Cons.prems(2) t(1) by (auto intro: Cons.prems(3)[of x s t])
  ultimately show ?case
    by (intro Cons.IH[of t]) (auto intro: Cons.prems(3))
qed

text \<open>Raw byte strings, and addresses of heap objects (Python's object identity).\<close>

type_synonym byte = "8 word"
type_synonym bytes = "byte list"
type_synonym addr = nat

section \<open>Dictionaries in insertion order\<close>

text \<open>
  A Python \<^verbatim>\<open>dict\<close> iterates in insertion order, and storing at a present key keeps the key's
  place. \<open>AList.update\<close> and \<open>AList.delete\<close> do the same.
\<close>

type_synonym ('k, 'v) dict = "('k \<times> 'v) list"

abbreviation dget :: "('k, 'v) dict \<Rightarrow> 'k \<Rightarrow> 'v option" where
  "dget \<equiv> map_of"

abbreviation dset :: "'k \<Rightarrow> 'v \<Rightarrow> ('k, 'v) dict \<Rightarrow> ('k, 'v) dict" where
  "dset \<equiv> AList.update"

abbreviation ddel :: "'k \<Rightarrow> ('k, 'v) dict \<Rightarrow> ('k, 'v) dict" where
  "ddel \<equiv> AList.delete"

abbreviation dkeys :: "('k, 'v) dict \<Rightarrow> 'k list" where
  "dkeys m \<equiv> map fst m"

definition dict_ok :: "('k, 'v) dict \<Rightarrow> bool" where
  "dict_ok m \<longleftrightarrow> distinct (dkeys m)"

lemma dict_ok_Nil [simp]: "dict_ok []"
  by (simp add: dict_ok_def)

lemma dict_ok_dset [simp]: "dict_ok m \<Longrightarrow> dict_ok (dset k v m)"
  by (simp add: dict_ok_def distinct_update)

lemma dict_ok_ddel [simp]: "dict_ok m \<Longrightarrow> dict_ok (ddel k m)"
  by (simp add: dict_ok_def distinct_delete)

lemma dget_dset [simp]: "dget (dset k v m) k' = (if k' = k then Some v else dget m k')"
  by (simp add: update_conv')

lemma dget_ddel [simp]: "dget (ddel k m) k' = (if k' = k then None else dget m k')"
  by (simp add: delete_conv')

lemma dict_ok_Cons [simp]: "dict_ok ((k, v) # m) \<longleftrightarrow> dget m k = None \<and> dict_ok m"
  by (auto simp: dict_ok_def map_of_eq_None_iff)

text \<open>A default dictionary reads a missing key as its default value.\<close>

definition dget_or :: "'v \<Rightarrow> ('k, 'v) dict \<Rightarrow> 'k \<Rightarrow> 'v" where
  "dget_or d m k = (case dget m k of None \<Rightarrow> d | Some v \<Rightarrow> v)"

lemma dget_or_dset [simp]: "dget_or d (dset k v m) k' = (if k' = k then v else dget_or d m k')"
  by (simp add: dget_or_def)

lemma dget_or_ddel [simp]: "dget_or d (ddel k m) k' = (if k' = k then d else dget_or d m k')"
  by (simp add: dget_or_def)

text \<open>All values of a dictionary of lists, as a multiset: the references a block table holds.\<close>

definition dict_refs :: "('k, 'a list) dict \<Rightarrow> 'a multiset" where
  "dict_refs m = mset (concat (map snd m))"

lemma dict_refs_Nil [simp]: "dict_refs [] = {#}"
  by (simp add: dict_refs_def)

lemma dict_refs_Cons [simp]: "dict_refs ((k, v) # m) = mset v + dict_refs m"
  by (simp add: dict_refs_def)

lemma ddel_absent [simp]: "dget m k = None \<Longrightarrow> ddel k m = m"
  by (simp add: delete_idem map_of_eq_None_iff)

lemma dict_refs_dset:
  "dict_ok m \<Longrightarrow> dict_refs (dset k v m) + mset (dget_or [] m k) = dict_refs m + mset v"
proof (induction m)
  case Nil
  then show ?case by (simp add: dget_or_def)
next
  case (Cons a m)
  then show ?case by (cases a) (auto simp: dget_or_def)
qed

lemma dict_refs_ddel:
  "dict_ok m \<Longrightarrow> dict_refs (ddel k m) + mset (dget_or [] m k) = dict_refs m"
proof (induction m)
  case Nil
  then show ?case by (simp add: dget_or_def)
next
  case (Cons a m)
  then show ?case by (cases a) (auto simp: dget_or_def)
qed

lemma dict_refs_dget_or_le: "mset (dget_or [] m k) \<subseteq># dict_refs m"
proof (induction m)
  case Nil
  then show ?case by (simp add: dget_or_def)
next
  case (Cons a m)
  then show ?case
    by (cases a) (auto simp: dget_or_def intro: subset_mset.order_trans)
qed

section \<open>Slices and integer helpers\<close>

text \<open>\<^verbatim>\<open>xs[a:b]\<close> for non-negative bounds: out of range is silently cut off.\<close>

definition py_slice :: "'a list \<Rightarrow> nat \<Rightarrow> nat \<Rightarrow> 'a list" where
  "py_slice xs a b = take (b - a) (drop a xs)"

text \<open>\<^verbatim>\<open>xs[i]\<close> for a Python integer: negative indices count from the end, and out of range raises.\<close>

definition py_nth :: "'a list \<Rightarrow> int \<Rightarrow> 'a res" where
  "py_nth xs i =
     (if 0 \<le> i \<and> i < int (length xs) then Inr (xs ! nat i)
      else if i < 0 \<and> - int (length xs) \<le> i then Inr (xs ! nat (int (length xs) + i))
      else Inl IndexError)"

lemma py_nth_nat: "i < length xs \<Longrightarrow> py_nth xs (int i) = Inr (xs ! i)"
  by (simp add: py_nth_def Let_def)

definition cdiv :: "int \<Rightarrow> int \<Rightarrow> int" where
  "cdiv a b = - (a div - b)"

definition round_up :: "int \<Rightarrow> int \<Rightarrow> int" where
  "round_up x y = ((x + y - 1) div y) * y"

definition round_down :: "int \<Rightarrow> int \<Rightarrow> int" where
  "round_down x y = (x div y) * y"

lemma mult_le_iff_le_div: "0 < (b::int) \<Longrightarrow> n * b \<le> a \<longleftrightarrow> n \<le> a div b"
proof
  assume b: "0 < b" and "n * b \<le> a"
  then have "(n * b) div b \<le> a div b"
    by (intro zdiv_mono1) auto
  with b show "n \<le> a div b" by simp
next
  assume b: "0 < b" and "n \<le> a div b"
  then have "n * b \<le> (a div b) * b"
    by (intro mult_right_mono) auto
  also have "\<dots> \<le> a"
    using b by (metis diff_ge_0_iff_ge minus_div_mult_eq_mod pos_mod_sign)
  finally show "n * b \<le> a" .
qed

text \<open>Ceiling division is the least number of blocks that hold \<open>a\<close> tokens.\<close>

lemma cdiv_le_iff:
  assumes "0 < b"
  shows "cdiv a b \<le> n \<longleftrightarrow> a \<le> n * b"
proof -
  have "cdiv a b = - ((- a) div b)"
    by (simp add: cdiv_def div_minus_right)
  then have "cdiv a b \<le> n \<longleftrightarrow> (- n) * b \<le> - a"
    using mult_le_iff_le_div[OF assms, of "- n" "- a"] by auto
  then show ?thesis by simp
qed

lemma cdiv_mono: "0 < b \<Longrightarrow> a \<le> a' \<Longrightarrow> cdiv a b \<le> cdiv a' b"
  using cdiv_le_iff[of b a "cdiv a' b"] cdiv_le_iff[of b a' "cdiv a' b"] by simp

lemma cdiv_nonneg: "0 < b \<Longrightarrow> 0 \<le> a \<Longrightarrow> 0 \<le> cdiv a b"
  using cdiv_le_iff[of b a "-1"] by (cases "cdiv a b \<le> -1") auto

lemma cdiv_mult [simp]: "b \<noteq> 0 \<Longrightarrow> cdiv (n * b) b = n"
  using nonzero_mult_div_cancel_right[of b "- n"] by (simp add: cdiv_def div_minus_right)

lemma div_le_cdiv: "0 < b \<Longrightarrow> a div b \<le> cdiv a b"
proof -
  assume b: "0 < b"
  have "(a div b) * b \<le> a"
    using mult_le_iff_le_div[OF b, of "a div b" a] by simp
  also have "a \<le> cdiv a b * b"
    using cdiv_le_iff[OF b, of a "cdiv a b"] by simp
  finally show ?thesis
    using b by (simp add: mult_le_cancel_right)
qed

end
