(* ===== verification/Free_Queue.thy ===== *)
theory Free_Queue
  imports KV_Prelude
begin

text \<open>
  The free block queue of \<^verbatim>\<open>vllm/v1/core/kv_cache_utils.py\<close>: \<^verbatim>\<open>KVCacheBlock\<close> objects in an explicit
  store (a function from addresses), and \<^verbatim>\<open>FreeKVCacheBlockQueue\<close>, the doubly linked list threaded
  through their \<^verbatim>\<open>prev_free_block\<close> and \<^verbatim>\<open>next_free_block\<close> fields between a fake head and a fake tail.
  The lemmas show that each operation refines an operation on a plain list; the locale
  \<open>free_list\<close> states that contract and is interpreted on the operations at the end.
\<close>

section \<open>Block objects and the store\<close>

record kv_cache_block =
  block_id :: int
  ref_cnt :: int
  block_hash :: "bytes option"
  prev_free_block :: "addr option"
  next_free_block :: "addr option"
  is_null :: bool

type_synonym heap = "addr \<Rightarrow> kv_cache_block"

text \<open>The constructor call \<^verbatim>\<open>KVCacheBlock(block_id)\<close> with the dataclass's defaults.\<close>

definition new_block :: "int \<Rightarrow> kv_cache_block" where
  "new_block i = \<lparr>block_id = i, ref_cnt = 0, block_hash = None,
     prev_free_block = None, next_free_block = None, is_null = False\<rparr>"

definition set_prev :: "heap \<Rightarrow> addr \<Rightarrow> addr option \<Rightarrow> heap" where
  "set_prev h a p = h(a := (h a)\<lparr>prev_free_block := p\<rparr>)"

definition set_next :: "heap \<Rightarrow> addr \<Rightarrow> addr option \<Rightarrow> heap" where
  "set_next h a p = h(a := (h a)\<lparr>next_free_block := p\<rparr>)"

text \<open>The property setter asserts that the block has no hash yet; \<^verbatim>\<open>reset_hash\<close> drops it.\<close>

definition set_block_hash :: "heap \<Rightarrow> addr \<Rightarrow> bytes \<Rightarrow> heap res" where
  "set_block_hash h a k =
     (if block_hash (h a) \<noteq> None then Inl AssertionError
      else Inr (h(a := (h a)\<lparr>block_hash := Some k\<rparr>)))"

definition reset_hash :: "heap \<Rightarrow> addr \<Rightarrow> heap" where
  "reset_hash h a = h(a := (h a)\<lparr>block_hash := None\<rparr>)"

definition add_ref :: "heap \<Rightarrow> addr \<Rightarrow> int \<Rightarrow> heap" where
  "add_ref h a d = h(a := (h a)\<lparr>ref_cnt := ref_cnt (h a) + d\<rparr>)"

section \<open>The queue's operations\<close>

record free_block_queue =
  num_free_blocks :: int
  fake_free_list_head :: addr
  fake_free_list_tail :: addr

text \<open>
  The constructor links the given blocks in order. \<open>fh\<close> and \<open>ft\<close> are the addresses of the two
  fake blocks it creates.
\<close>

definition link_step :: "addr list \<Rightarrow> nat \<Rightarrow> heap \<Rightarrow> heap" where
  "link_step blocks i h =
     (let h1 = (if 0 < i then set_prev h (blocks ! i) (Some (blocks ! (i - 1))) else h)
      in if i < length blocks - 1 then set_next h1 (blocks ! i) (Some (blocks ! (i + 1))) else h1)"

definition free_queue_init :: "heap \<Rightarrow> addr list \<Rightarrow> addr \<Rightarrow> addr \<Rightarrow> heap \<times> free_block_queue" where
  "free_queue_init h blocks fh ft =
     (let h1 = fold (link_step blocks) [0..<length blocks] h;
          h2 = h1(fh := new_block (-1), ft := new_block (-1));
          h3 = (if blocks \<noteq> []
                then set_next
                       (set_prev
                         (set_prev (set_next h2 fh (Some (blocks ! 0))) (blocks ! 0) (Some fh))
                         ft (Some (last blocks)))
                       (last blocks) (Some ft)
                else set_prev (set_next h2 fh (Some ft)) ft (Some fh))
      in (h3, \<lparr>num_free_blocks = int (length blocks),
               fake_free_list_head = fh, fake_free_list_tail = ft\<rparr>))"

definition popleft :: "heap \<Rightarrow> free_block_queue \<Rightarrow> (addr \<times> heap \<times> free_block_queue) res" where
  "popleft h q =
     (let fh = fake_free_list_head q;
          out_of_blocks = (if num_free_blocks q \<noteq> 0 then Inl AssertionError else Inl ValueError)
      in case next_free_block (h fh) of
           None \<Rightarrow> out_of_blocks
         | Some first_block \<Rightarrow>
             if first_block = fake_free_list_tail q then out_of_blocks
             else case next_free_block (h first_block) of
               None \<Rightarrow> Inl RuntimeError
             | Some second \<Rightarrow>
                 let h1 = set_next h fh (Some second);
                     h2 = set_prev h1 second (Some fh);
                     h3 = set_next (set_prev h2 first_block None) first_block None
                 in Inr (first_block, h3, q\<lparr>num_free_blocks := num_free_blocks q - 1\<rparr>))"

text \<open>The loop of \<^verbatim>\<open>popleft_n\<close>: detach \<open>n\<close> blocks from the front, starting at \<open>curr_block\<close>.\<close>

fun popleft_loop :: "nat \<Rightarrow> heap \<Rightarrow> addr option \<Rightarrow> (addr list \<times> heap \<times> addr option) res" where
  "popleft_loop 0 h curr_block = Inr ([], h, curr_block)"
| "popleft_loop (Suc n) h None = Inl AssertionError"
| "popleft_loop (Suc n) h (Some last_block) =
     ebind (popleft_loop n (set_next (set_prev h last_block None) last_block None)
              (next_free_block (h last_block)))
       (\<lambda>(ret, h', curr_block). Inr (last_block # ret, h', curr_block))"

definition popleft_n :: "heap \<Rightarrow> free_block_queue \<Rightarrow> int \<Rightarrow> (addr list \<times> heap \<times> free_block_queue) res" where
  "popleft_n h q n =
     (if n = 0 then Inr ([], h, q)
      else if \<not> num_free_blocks q \<ge> n then Inl AssertionError
      else
        let q' = q\<lparr>num_free_blocks := num_free_blocks q - n\<rparr>; fh = fake_free_list_head q
        in ebind (popleft_loop (nat n) h (next_free_block (h fh)))
             (\<lambda>(ret, h', curr_block).
                case curr_block of
                  None \<Rightarrow> Inr (ret, h', q')
                | Some c \<Rightarrow> Inr (ret, set_prev (set_next h' fh (Some c)) c (Some fh), q')))"

definition queue_remove :: "heap \<Rightarrow> free_block_queue \<Rightarrow> addr \<Rightarrow> (heap \<times> free_block_queue) res" where
  "queue_remove h q b =
     (case (prev_free_block (h b), next_free_block (h b)) of
        (Some p, Some n) \<Rightarrow>
          let h1 = set_next h p (Some n);
              h2 = set_prev h1 n (Some p);
              h3 = set_next (set_prev h2 b None) b None
          in Inr (h3, q\<lparr>num_free_blocks := num_free_blocks q - 1\<rparr>)
      | _ \<Rightarrow> Inl RuntimeError)"

definition queue_append :: "heap \<Rightarrow> free_block_queue \<Rightarrow> addr \<Rightarrow> (heap \<times> free_block_queue) res" where
  "queue_append h q b =
     (let ft = fake_free_list_tail q
      in case prev_free_block (h ft) of
           None \<Rightarrow> Inl RuntimeError
         | Some last_block \<Rightarrow>
             let h1 = set_prev (set_next h last_block (Some b)) b (Some last_block);
                 h2 = set_prev (set_next h1 b (Some ft)) ft (Some b)
             in Inr (h2, q\<lparr>num_free_blocks := num_free_blocks q + 1\<rparr>))"

fun append_loop :: "heap \<Rightarrow> addr \<Rightarrow> addr list \<Rightarrow> heap \<times> addr" where
  "append_loop h last_block [] = (h, last_block)"
| "append_loop h last_block (b # bs) =
     append_loop (set_next (set_prev h b (Some last_block)) last_block (Some b)) b bs"

definition append_n :: "heap \<Rightarrow> free_block_queue \<Rightarrow> addr list \<Rightarrow> (heap \<times> free_block_queue) res" where
  "append_n h q bs =
     (if bs = [] then Inr (h, q)
      else
        let ft = fake_free_list_tail q
        in case prev_free_block (h ft) of
             None \<Rightarrow> Inl AssertionError
           | Some last_block \<Rightarrow>
               let (h1, l) = append_loop h last_block bs;
                   h2 = set_prev (set_next h1 l (Some ft)) ft (Some l)
               in Inr (h2, q\<lparr>num_free_blocks := num_free_blocks q + int (length bs)\<rparr>))"

text \<open>
  The walk of \<^verbatim>\<open>get_all_free_blocks\<close> follows \<^verbatim>\<open>next_free_block\<close> until it is missing; on a cyclic
  list it would not end, so the result is an option.
\<close>

partial_function (option) walk_free :: "heap \<Rightarrow> addr \<Rightarrow> addr list option" where
  "walk_free h curr_block =
     (case next_free_block (h curr_block) of
        None \<Rightarrow> Some []
      | Some n \<Rightarrow> Option.bind (walk_free h n) (\<lambda>r. Some (curr_block # r)))"

definition get_all_free_blocks :: "heap \<Rightarrow> free_block_queue \<Rightarrow> addr list option res" where
  "get_all_free_blocks h q =
     (case next_free_block (h (fake_free_list_head q)) of
        None \<Rightarrow> Inl RuntimeError
      | Some c \<Rightarrow> Inr (walk_free h c))"

section \<open>What the link fields say\<close>

lemma set_prev_sel [simp]:
  "prev_free_block (set_prev h a p b) = (if b = a then p else prev_free_block (h b))"
  "next_free_block (set_prev h a p b) = next_free_block (h b)"
  "block_id (set_prev h a p b) = block_id (h b)"
  "ref_cnt (set_prev h a p b) = ref_cnt (h b)"
  "block_hash (set_prev h a p b) = block_hash (h b)"
  "is_null (set_prev h a p b) = is_null (h b)"
  by (simp_all add: set_prev_def)

lemma set_next_sel [simp]:
  "next_free_block (set_next h a p b) = (if b = a then p else next_free_block (h b))"
  "prev_free_block (set_next h a p b) = prev_free_block (h b)"
  "block_id (set_next h a p b) = block_id (h b)"
  "ref_cnt (set_next h a p b) = ref_cnt (h b)"
  "block_hash (set_next h a p b) = block_hash (h b)"
  "is_null (set_next h a p b) = is_null (h b)"
  by (simp_all add: set_next_def)

text \<open>What the queue's operations leave alone: every field but the two links.\<close>

definition same_payload :: "heap \<Rightarrow> heap \<Rightarrow> bool" where
  "same_payload h h' \<longleftrightarrow>
     (\<forall>a. block_id (h' a) = block_id (h a) \<and> ref_cnt (h' a) = ref_cnt (h a)
        \<and> block_hash (h' a) = block_hash (h a) \<and> is_null (h' a) = is_null (h a))"

lemma same_payload_refl [simp]: "same_payload h h"
  by (simp add: same_payload_def)

lemma same_payload_trans [trans]: "same_payload h h' \<Longrightarrow> same_payload h' h'' \<Longrightarrow> same_payload h h''"
  by (simp add: same_payload_def)

lemma same_payload_set [simp]:
  "same_payload h (set_prev h' a p) = same_payload h h'"
  "same_payload h (set_next h' a p) = same_payload h h'"
  by (simp_all add: same_payload_def)

text \<open>\<open>linked h zs\<close>: neighbours in \<open>zs\<close> point at each other.\<close>

fun linked :: "heap \<Rightarrow> addr list \<Rightarrow> bool" where
  "linked h (a # b # zs) \<longleftrightarrow>
     next_free_block (h a) = Some b \<and> prev_free_block (h b) = Some a \<and> linked h (b # zs)"
| "linked h _ \<longleftrightarrow> True"

lemma linked_append:
  "linked h (xs @ a # ys) \<longleftrightarrow> linked h (xs @ [a]) \<and> linked h (a # ys)"
  by (induction h xs rule: linked.induct) auto

lemma linked_split [simp]:
  "linked h (xs @ a # b # ys) \<longleftrightarrow>
     linked h (xs @ [a]) \<and> next_free_block (h a) = Some b \<and> prev_free_block (h b) = Some a
     \<and> linked h (b # ys)"
  by (subst linked_append) simp

lemma in_set_tlD: "x \<in> set (tl xs) \<Longrightarrow> x \<in> set xs"
  by (cases xs) auto

lemma linked_set_next: "a \<notin> set (butlast zs) \<Longrightarrow> linked (set_next h a p) zs = linked h zs"
  by (induction h zs rule: linked.induct) auto

lemma linked_set_prev: "a \<notin> set (tl zs) \<Longrightarrow> linked (set_prev h a p) zs = linked h zs"
  by (induction h zs rule: linked.induct) auto

lemma linked_set_next_notin: "a \<notin> set zs \<Longrightarrow> linked (set_next h a p) zs = linked h zs"
  by (rule linked_set_next) (auto dest: in_set_butlastD)

lemma linked_set_prev_notin: "a \<notin> set zs \<Longrightarrow> linked (set_prev h a p) zs = linked h zs"
  by (rule linked_set_prev) (auto dest: in_set_tlD)

lemma linked_set_next_last:
  "a \<notin> set zs \<Longrightarrow> linked (set_next h a p) (zs @ [a]) = linked h (zs @ [a])"
  by (rule linked_set_next) simp

lemma linked_set_prev_hd:
  "a \<notin> set zs \<Longrightarrow> linked (set_prev h a p) (a # zs) = linked h (a # zs)"
  by (rule linked_set_prev) simp

lemmas linked_set [simp] =
  linked_set_next_notin linked_set_prev_notin linked_set_next_last linked_set_prev_hd

lemma linked_cong: "(\<And>a. a \<in> set zs \<Longrightarrow> h' a = h a) \<Longrightarrow> linked h' zs = linked h zs"
  by (induction h zs rule: linked.induct) auto

lemma linked_nth:
  "linked h zs \<longleftrightarrow>
     (\<forall>i. Suc i < length zs \<longrightarrow>
        next_free_block (h (zs ! i)) = Some (zs ! Suc i)
        \<and> prev_free_block (h (zs ! Suc i)) = Some (zs ! i))"
proof (induction h zs rule: linked.induct)
  case (1 h a b zs)
  have zero_suc: "All Q = (Q 0 \<and> All (\<lambda>k. Q (Suc k)))" for Q :: "nat \<Rightarrow> bool"
    by (metis nat.exhaust)
  show ?case
    unfolding linked.simps 1 by (subst (2) zero_suc) simp
qed auto

text \<open>
  A chain: linked neighbours, no address twice, and nothing after the last node. Taking a node
  out of the middle keeps a chain.
\<close>

definition chain :: "heap \<Rightarrow> addr list \<Rightarrow> bool" where
  "chain h cs \<longleftrightarrow> linked h cs \<and> distinct cs \<and> next_free_block (h (last cs)) = None"

lemma chain_unlink:
  assumes "chain h (ws @ p # b # n # zs)"
  shows "chain (set_next (set_prev (set_prev (set_next h p (Some n)) n (Some p)) b None) b None)
           (ws @ p # n # zs)"
  using assms last_in_set[of "n # zs"] by (auto simp: chain_def)

section \<open>Refinement to a list\<close>

text \<open>
  \<open>queue_rep h q xs\<close>: in the store \<open>h\<close> the queue \<open>q\<close> holds exactly the blocks \<open>xs\<close>, in order.
\<close>

definition queue_rep :: "heap \<Rightarrow> free_block_queue \<Rightarrow> addr list \<Rightarrow> bool" where
  "queue_rep h q xs \<longleftrightarrow>
     chain h (fake_free_list_head q # xs @ [fake_free_list_tail q])
     \<and> num_free_blocks q = int (length xs)"

definition same_ends :: "free_block_queue \<Rightarrow> free_block_queue \<Rightarrow> bool" where
  "same_ends q q' \<longleftrightarrow> fake_free_list_head q' = fake_free_list_head q
     \<and> fake_free_list_tail q' = fake_free_list_tail q"

lemma same_ends_simps [simp]:
  "same_ends q q"
  "same_ends q (q'\<lparr>num_free_blocks := n\<rparr>) = same_ends q q'"
  by (simp_all add: same_ends_def)

lemma queue_rep_distinct: "queue_rep h q xs \<Longrightarrow> distinct xs"
  by (auto simp: queue_rep_def chain_def)

lemma queue_rep_num: "queue_rep h q xs \<Longrightarrow> num_free_blocks q = int (length xs)"
  by (simp add: queue_rep_def)

lemma queue_rep_ends:
  "queue_rep h q xs \<Longrightarrow> fake_free_list_head q \<notin> set xs"
  "queue_rep h q xs \<Longrightarrow> fake_free_list_tail q \<notin> set xs"
  by (auto simp: queue_rep_def chain_def)

text \<open>The chain of a queue split around one of its blocks.\<close>

lemma queue_chain_split:
  obtains p n ws zs where
    "fake_free_list_head q # ys @ b # xs @ [fake_free_list_tail q] = ws @ p # b # n # zs"
    "fake_free_list_head q # ys @ xs @ [fake_free_list_tail q] = ws @ p # n # zs"
    "fake_free_list_tail q \<in> set (n # zs)"
    "p = last (fake_free_list_head q # ys)"
proof -
  let ?fh = "fake_free_list_head q" and ?ft = "fake_free_list_tail q"
  obtain n zs where nz: "xs @ [?ft] = n # zs"
    by (cases "xs @ [?ft]") auto
  obtain p ws where pw: "?fh # ys = ws @ [p]"
    by (cases "?fh # ys" rule: rev_cases) auto
  have "?ft \<in> set (xs @ [?ft])" by simp
  then have "?ft \<in> set (n # zs)" by (simp only: nz)
  moreover have "?fh # ys @ b # xs @ [?ft] = (?fh # ys) @ b # (xs @ [?ft])"
    "?fh # ys @ xs @ [?ft] = (?fh # ys) @ (xs @ [?ft])"
    by simp_all
  moreover have "p = last (?fh # ys)"
    by (simp only: pw last_snoc)
  ultimately show ?thesis
    using that[of ws p n zs] unfolding nz pw by auto
qed

lemma popleft_Nil: "queue_rep h q [] \<Longrightarrow> popleft h q = Inl ValueError"
  by (auto simp: queue_rep_def popleft_def chain_def)

lemma popleft_Cons:
  assumes "queue_rep h q (x # xs)"
  shows "\<exists>h' q'. popleft h q = Inr (x, h', q') \<and> queue_rep h' q' xs
           \<and> same_payload h h' \<and> same_ends q q'"
proof -
  let ?fh = "fake_free_list_head q" and ?ft = "fake_free_list_tail q"
  obtain n ws zs where c: "?fh # x # xs @ [?ft] = ws @ ?fh # x # n # zs"
    "?fh # xs @ [?ft] = ws @ ?fh # n # zs" "?ft \<in> set (n # zs)"
    using queue_chain_split[of q "[]" x xs] by (metis append_Nil last.simps)
  let ?h' = "set_next (set_prev (set_prev (set_next h ?fh (Some n)) n (Some ?fh)) x None) x None"
  have rep: "chain h (ws @ ?fh # x # n # zs)" "num_free_blocks q = 1 + int (length xs)"
    using assms by (simp_all add: queue_rep_def c)
  have "popleft h q = Inr (x, ?h', q\<lparr>num_free_blocks := int (length xs)\<rparr>)"
    using rep c(3) by (auto simp: popleft_def Let_def chain_def)
  moreover have "queue_rep ?h' (q\<lparr>num_free_blocks := int (length xs)\<rparr>) xs"
    using chain_unlink[OF rep(1)] by (simp add: queue_rep_def c(2))
  ultimately show ?thesis by auto
qed

lemma queue_remove_rep:
  assumes "queue_rep h q (ys @ b # xs)"
  shows "\<exists>h' q'. queue_remove h q b = Inr (h', q') \<and> queue_rep h' q' (ys @ xs)
           \<and> same_payload h h' \<and> same_ends q q'"
proof -
  let ?fh = "fake_free_list_head q" and ?ft = "fake_free_list_tail q"
  obtain p n ws zs where c: "?fh # ys @ b # xs @ [?ft] = ws @ p # b # n # zs"
    "?fh # ys @ xs @ [?ft] = ws @ p # n # zs" "?ft \<in> set (n # zs)"
    using queue_chain_split[of q ys b xs] by metis
  let ?h' = "set_next (set_prev (set_prev (set_next h p (Some n)) n (Some p)) b None) b None"
  have rep: "chain h (ws @ p # b # n # zs)" "num_free_blocks q = 1 + int (length (ys @ xs))"
    using assms by (simp_all add: queue_rep_def c)
  have "queue_remove h q b = Inr (?h', q\<lparr>num_free_blocks := int (length (ys @ xs))\<rparr>)"
    using rep by (auto simp: queue_remove_def Let_def chain_def)
  moreover have "queue_rep ?h' (q\<lparr>num_free_blocks := int (length (ys @ xs))\<rparr>) (ys @ xs)"
    using chain_unlink[OF rep(1)] by (simp add: queue_rep_def c(2))
  ultimately show ?thesis by auto
qed

text \<open>Appending: the loop that strings new blocks behind the last one.\<close>

lemma append_loop_linked:
  assumes "append_loop h l bs = (h', l')" and "linked h (zs @ [l])" and "distinct (zs @ l # bs)"
  shows "linked h' (zs @ l # bs) \<and> l' = last (l # bs) \<and> same_payload h h'
    \<and> (\<forall>a. a \<notin> set (l # bs) \<longrightarrow> h' a = h a)"
  using assms
proof (induction h l bs arbitrary: zs rule: append_loop.induct)
  case (1 h l)
  then show ?case by simp
next
  case (2 h l b bs)
  let ?h1 = "set_next (set_prev h b (Some l)) l (Some b)"
  have "linked ?h1 ((zs @ [l]) @ [b])"
    using "2.prems"(2,3) by auto
  then have "linked h' ((zs @ [l]) @ b # bs) \<and> l' = last (b # bs) \<and> same_payload ?h1 h'
      \<and> (\<forall>a. a \<notin> set (b # bs) \<longrightarrow> h' a = ?h1 a)"
    by (intro "2.IH") (use "2.prems" in simp_all)
  then show ?case
    by (simp add: same_payload_def set_next_def set_prev_def)
qed

lemma append_n_rep:
  assumes rep: "queue_rep h q xs" and bs: "distinct bs" "set bs \<inter> set xs = {}"
    "fake_free_list_head q \<notin> set bs" "fake_free_list_tail q \<notin> set bs"
  shows "\<exists>h' q'. append_n h q bs = Inr (h', q') \<and> queue_rep h' q' (xs @ bs)
           \<and> same_payload h h' \<and> same_ends q q'"
proof (cases "bs = []")
  case True
  with rep show ?thesis by (auto simp: append_n_def)
next
  case False
  let ?fh = "fake_free_list_head q" and ?ft = "fake_free_list_tail q"
  obtain zs l where zl: "?fh # xs = zs @ [l]"
    by (cases "?fh # xs" rule: rev_cases) auto
  then have c: "?fh # xs @ ys = zs @ l # ys" for ys
    by (metis append.assoc append_Cons append_Nil)
  have ch: "linked h (zs @ [l])" "prev_free_block (h ?ft) = Some l"
      "next_free_block (h ?ft) = None" "distinct (zs @ [l, ?ft])" "num_free_blocks q = int (length xs)"
    using rep by (auto simp: queue_rep_def chain_def c)
  have "set (zs @ [l]) = insert ?fh (set xs)"
    using zl by (metis list.simps(15))
  with bs have "set (zs @ [l]) \<inter> set bs = {}" by (simp add: Int_commute)
  with bs ch(4) have d: "distinct (zs @ l # bs @ [?ft])" by auto
  obtain h1 l' where h1: "append_loop h l bs = (h1, l')" by fastforce
  let ?h2 = "set_prev (set_next h1 l' (Some ?ft)) ?ft (Some l')"
  from append_loop_linked[OF h1 ch(1)] d
  have L: "linked h1 (zs @ l # bs)" "l' = last (l # bs)" "same_payload h h1" "h1 ?ft = h ?ft"
    by auto
  obtain ws where ws: "zs @ l # bs = ws @ [l']"
    using L(2) by (metis append_butlast_last_id append_is_Nil_conv last_appendR list.discI)
  then have c2: "zs @ l # bs @ ys = ws @ l' # ys" for ys
    by (metis append.assoc append_Cons append_Nil)
  have "chain ?h2 (ws @ [l', ?ft])"
    using L ch(3) d unfolding chain_def c2 ws by auto
  then have "queue_rep ?h2 (q\<lparr>num_free_blocks := num_free_blocks q + int (length bs)\<rparr>) (xs @ bs)"
    using ch(5) by (simp add: queue_rep_def c c2)
  moreover have "append_n h q bs =
      Inr (?h2, q\<lparr>num_free_blocks := num_free_blocks q + int (length bs)\<rparr>)"
    using False ch(2) h1 by (simp add: append_n_def Let_def)
  ultimately show ?thesis
    using L(3) by auto
qed

lemma set_prev_next_commute:
  "a \<noteq> b \<Longrightarrow> set_prev (set_next h a x) b y = set_next (set_prev h b y) a x"
  by (rule ext) (simp add: set_prev_def set_next_def)

text \<open>\<^verbatim>\<open>append\<close> of one block is \<^verbatim>\<open>append_n\<close> of a singleton, up to the error it raises.\<close>

lemma queue_append_eq_append_n:
  assumes "prev_free_block (h (fake_free_list_tail q)) = Some l" and "b \<noteq> l"
  shows "queue_append h q b = append_n h q [b]"
  using assms by (simp add: queue_append_def append_n_def Let_def set_prev_next_commute[of l b])

lemma queue_append_rep:
  assumes rep: "queue_rep h q xs" and "b \<notin> set xs"
    and "fake_free_list_head q \<noteq> b" "fake_free_list_tail q \<noteq> b"
  shows "\<exists>h' q'. queue_append h q b = Inr (h', q') \<and> queue_rep h' q' (xs @ [b])
           \<and> same_payload h h' \<and> same_ends q q'"
proof -
  let ?fh = "fake_free_list_head q" and ?ft = "fake_free_list_tail q"
  obtain zs l where zl: "?fh # xs = zs @ [l]"
    by (cases "?fh # xs" rule: rev_cases) auto
  then have c: "?fh # xs @ ys = zs @ l # ys" for ys
    by (metis append.assoc append_Cons append_Nil)
  have "prev_free_block (h ?ft) = Some l"
    using rep by (auto simp: queue_rep_def chain_def c)
  moreover have "l \<in> insert ?fh (set xs)"
    using zl by (metis in_set_conv_decomp list.simps(15))
  then have "b \<noteq> l" using assms by auto
  ultimately show ?thesis
    using append_n_rep[OF rep, of "[b]"] assms queue_append_eq_append_n by auto
qed

text \<open>Popping several blocks at once.\<close>

lemma popleft_loop_linked:
  assumes "linked h (xs @ y # ys)" and "distinct (xs @ y # ys)"
  shows "\<exists>h'. popleft_loop (length xs) h (Some (hd (xs @ [y]))) = Inr (xs, h', Some y)
           \<and> linked h' (y # ys) \<and> same_payload h h' \<and> (\<forall>a. a \<notin> set xs \<longrightarrow> h' a = h a)"
  using assms
proof (induction xs arbitrary: h)
  case Nil
  then show ?case by simp
next
  case (Cons x xs)
  let ?h1 = "set_next (set_prev h x None) x None"
  have nxt: "next_free_block (h x) = Some (hd (xs @ [y]))" and "linked h (xs @ y # ys)"
    using Cons.prems(1) by (cases xs; simp)+
  then have "linked ?h1 (xs @ y # ys)"
    using Cons.prems(2) by simp
  then obtain h' where "popleft_loop (length xs) ?h1 (Some (hd (xs @ [y]))) = Inr (xs, h', Some y)"
      "linked h' (y # ys)" "same_payload ?h1 h'" "\<forall>a. a \<notin> set xs \<longrightarrow> h' a = ?h1 a"
    using Cons.IH[of ?h1] Cons.prems(2) by auto
  then show ?case
    using nxt by (intro exI[of _ h']) (simp add: same_payload_def set_next_def set_prev_def)
qed

lemma popleft_n_rep:
  assumes rep: "queue_rep h q xs" and n: "n \<le> length xs"
  shows "\<exists>h' q'. popleft_n h q (int n) = Inr (take n xs, h', q') \<and> queue_rep h' q' (drop n xs)
           \<and> same_payload h h' \<and> same_ends q q'"
proof (cases "n = 0")
  case True
  with rep show ?thesis by (auto simp: popleft_n_def)
next
  case False
  let ?fh = "fake_free_list_head q" and ?ft = "fake_free_list_tail q"
  obtain y ys where y: "drop n xs @ [?ft] = y # ys"
    by (cases "drop n xs @ [?ft]") auto
  have split: "xs @ [?ft] = take n xs @ y # ys"
    using y by (metis append.assoc append_take_drop_id)
  have last: "last (y # ys) = ?ft"
    by (simp add: y[symmetric])
  have "chain h (?fh # take n xs @ y # ys)" and num: "num_free_blocks q = int (length xs)"
    using rep unfolding queue_rep_def split by simp_all
  then have ch: "linked h (?fh # take n xs @ y # ys)" "distinct (?fh # take n xs @ y # ys)"
      "next_free_block (h ?ft) = None" "num_free_blocks q = int (length xs)"
    using last by (simp_all add: chain_def)
  have nxt: "next_free_block (h ?fh) = Some (hd (take n xs @ [y]))" and l: "linked h (take n xs @ y # ys)"
    using ch(1) False n by (cases "take n xs"; simp)+
  obtain h' where h': "popleft_loop n h (Some (hd (take n xs @ [y]))) = Inr (take n xs, h', Some y)"
      "linked h' (y # ys)" "same_payload h h'" "\<forall>a. a \<notin> set (take n xs) \<longrightarrow> h' a = h a"
    using popleft_loop_linked[OF l] ch(2) n by auto
  let ?h2 = "set_prev (set_next h' ?fh (Some y)) y (Some ?fh)"
  have "?ft \<in> set (y # ys)" by (metis last last_in_set list.discI)
  then have "chain ?h2 (?fh # y # ys)"
    using h' ch(2,3) last by (auto simp: chain_def)
  then have "queue_rep ?h2 (q\<lparr>num_free_blocks := num_free_blocks q - int n\<rparr>) (drop n xs)"
    using n ch(4) by (simp add: queue_rep_def y)
  moreover have "popleft_n h q (int n) =
      Inr (take n xs, ?h2, q\<lparr>num_free_blocks := num_free_blocks q - int n\<rparr>)"
    using False n ch(4) nxt h'(1) by (simp add: popleft_n_def Let_def)
  ultimately show ?thesis
    using h'(3) by auto
qed

lemma popleft_n_short:
  assumes "queue_rep h q xs" and "int (length xs) < n"
  shows "popleft_n h q n = Inl AssertionError"
  using assms by (auto simp: popleft_n_def queue_rep_def)

text \<open>\<^verbatim>\<open>get_all_free_blocks\<close> ends and returns the blocks in order.\<close>

lemma walk_free_linked:
  assumes "linked h (xs @ [t])" and "next_free_block (h t) = None"
  shows "walk_free h (hd (xs @ [t])) = Some xs"
  using assms
proof (induction xs)
  case Nil
  then show ?case by (simp add: walk_free.simps)
next
  case (Cons x xs)
  have "next_free_block (h x) = Some (hd (xs @ [t]))" "linked h (xs @ [t])"
    using Cons.prems(1) by (cases xs; simp)+
  then show ?case
    using Cons by (simp add: walk_free.simps[of h x])
qed

lemma get_all_free_blocks_rep:
  assumes "queue_rep h q xs"
  shows "get_all_free_blocks h q = Inr (Some xs)"
proof -
  let ?fh = "fake_free_list_head q" and ?ft = "fake_free_list_tail q"
  have "linked h (?fh # xs @ [?ft])" "next_free_block (h ?ft) = None"
    using assms by (simp_all add: queue_rep_def chain_def)
  then have "linked h (xs @ [?ft])" "next_free_block (h ?fh) = Some (hd (xs @ [?ft]))"
    by (cases xs; simp)+
  then show ?thesis
    using assms by (simp add: get_all_free_blocks_def walk_free_linked queue_rep_def chain_def)
qed

text \<open>A queue holds one list only.\<close>

lemma queue_rep_unique: "queue_rep h q xs \<Longrightarrow> queue_rep h q ys \<Longrightarrow> xs = ys"
  using get_all_free_blocks_rep[of h q xs] get_all_free_blocks_rep[of h q ys] by simp

text \<open>The payload of a block, unlike its links, may change under the queue's feet.\<close>

lemma linked_links_cong:
  assumes "\<And>a. prev_free_block (h' a) = prev_free_block (h a)"
    and "\<And>a. next_free_block (h' a) = next_free_block (h a)"
  shows "linked h' zs = linked h zs"
  by (induction zs rule: induct_list012) (simp_all add: assms)

lemma queue_rep_links_cong:
  assumes "\<And>a. prev_free_block (h' a) = prev_free_block (h a)"
    and "\<And>a. next_free_block (h' a) = next_free_block (h a)"
  shows "queue_rep h' q xs = queue_rep h q xs"
  using assms by (simp add: queue_rep_def chain_def linked_links_cong[of h' h])

section \<open>The constructor\<close>

lemma link_step_links:
  assumes "distinct bs" and "k \<le> length bs"
  shows "let h' = fold (link_step bs) [0..<k] h
         in (\<forall>i < k. (0 < i \<longrightarrow> prev_free_block (h' (bs ! i)) = Some (bs ! (i - 1)))
                 \<and> (i < length bs - 1 \<longrightarrow> next_free_block (h' (bs ! i)) = Some (bs ! (i + 1))))
            \<and> same_payload h h'"
  using assms
proof (induction k)
  case 0
  then show ?case by simp
next
  case (Suc k)
  let ?h' = "fold (link_step bs) [0..<k] h"
  have ne: "bs ! i \<noteq> bs ! k" if "i < k" for i
    using Suc.prems that by (simp add: nth_eq_iff_index_eq)
  have "same_payload ?h' (link_step bs k ?h')"
    by (simp add: link_step_def Let_def)
  then show ?case
    using Suc ne by (auto simp: Let_def link_step_def less_Suc_eq intro: same_payload_trans)
qed

lemma linked_ends:
  assumes "bs \<noteq> []"
  shows "linked h (a # bs @ [b]) \<longleftrightarrow>
     next_free_block (h a) = Some (hd bs) \<and> prev_free_block (h (hd bs)) = Some a \<and> linked h bs
     \<and> next_free_block (h (last bs)) = Some b \<and> prev_free_block (h b) = Some (last bs)"
proof -
  have "linked h (a # bs @ [b]) \<longleftrightarrow>
      next_free_block (h a) = Some (hd bs) \<and> prev_free_block (h (hd bs)) = Some a \<and> linked h (bs @ [b])"
    using assms by (cases bs) simp_all
  moreover have "linked h (bs @ [b]) \<longleftrightarrow>
      linked h bs \<and> next_free_block (h (last bs)) = Some b \<and> prev_free_block (h b) = Some (last bs)"
    using assms by (cases bs rule: rev_cases) simp_all
  ultimately show ?thesis by blast
qed

lemma free_queue_init_rep:
  assumes "distinct bs" and "fh \<noteq> ft" and "fh \<notin> set bs" "ft \<notin> set bs"
    and init: "free_queue_init h bs fh ft = (h', q)"
  shows "queue_rep h' q bs \<and> fake_free_list_head q = fh \<and> fake_free_list_tail q = ft
    \<and> (\<forall>a. a \<noteq> fh \<longrightarrow> a \<noteq> ft \<longrightarrow>
          block_id (h' a) = block_id (h a) \<and> ref_cnt (h' a) = ref_cnt (h a)
          \<and> block_hash (h' a) = block_hash (h a) \<and> is_null (h' a) = is_null (h a))
    \<and> (\<forall>a \<in> {fh, ft}. ref_cnt (h' a) = 0 \<and> block_hash (h' a) = None)"
proof -
  let ?h1 = "fold (link_step bs) [0..<length bs] h"
  let ?h2 = "?h1(fh := new_block (-1), ft := new_block (-1))"
  have links: "\<forall>i < length bs. (0 < i \<longrightarrow> prev_free_block (?h1 (bs ! i)) = Some (bs ! (i - 1)))
        \<and> (i < length bs - 1 \<longrightarrow> next_free_block (?h1 (bs ! i)) = Some (bs ! (i + 1)))"
    and pay: "same_payload h ?h1"
    using link_step_links[OF assms(1), of "length bs" h] by (simp_all add: Let_def)
  from links have "linked ?h1 bs"
    by (auto simp: linked_nth)
  then have l2: "linked ?h2 bs"
    using assms by (subst linked_cong[of _ _ ?h1]) auto
  show ?thesis
  proof (cases "bs = []")
    case True
    then show ?thesis
      using init assms(2)
      by (auto simp: free_queue_init_def Let_def queue_rep_def chain_def new_block_def)
  next
    case False
    let ?h3 = "set_next (set_prev (set_prev (set_next ?h2 fh (Some (bs ! 0))) (bs ! 0) (Some fh))
                 ft (Some (last bs))) (last bs) (Some ft)"
    have h': "h' = ?h3" "q = \<lparr>num_free_blocks = int (length bs),
        fake_free_list_head = fh, fake_free_list_tail = ft\<rparr>"
      using init False by (auto simp: free_queue_init_def Let_def)
    have hl: "hd bs = bs ! 0" "hd bs \<in> set bs" "last bs \<in> set bs"
      using False by (auto simp: hd_conv_nth)
    have "linked ?h3 bs"
    proof -
      have "hd bs \<notin> set (tl bs)" "last bs \<notin> set (butlast bs)"
        using assms(1) False by (cases bs; simp) (use assms(1) in \<open>cases bs rule: rev_cases; simp\<close>)
      then show ?thesis
        using l2 assms(3,4) hl by (simp add: linked_set_next linked_set_prev)
    qed
    then have "linked ?h3 (fh # bs @ [ft])"
      using assms hl False by (subst linked_ends) auto
    moreover have "next_free_block (?h3 ft) = None"
      using assms hl by (auto simp: new_block_def)
    ultimately have "queue_rep ?h3 q bs"
      using assms by (simp add: queue_rep_def chain_def h'(2))
    then show ?thesis
      using pay unfolding h' by (simp add: same_payload_def new_block_def)
  qed
qed

section \<open>The contract of the free list\<close>

text \<open>
  What the block pool relies on: a queue represents a list of distinct blocks; popping takes from
  the front, freeing appends at the back, and any block can be taken out of the middle.
  \<open>may_add q b\<close> says that \<open>b\<close> is not one of the queue's own sentinels, \<open>frame\<close> that the store
  changed in the link fields only.
\<close>

fun pop_times :: "('h \<Rightarrow> 'q \<Rightarrow> ('a \<times> 'h \<times> 'q) res) \<Rightarrow> nat \<Rightarrow> 'h \<Rightarrow> 'q \<Rightarrow> ('a list \<times> 'h \<times> 'q) res" where
  "pop_times pop 0 h q = Inr ([], h, q)"
| "pop_times pop (Suc n) h q =
     ebind (pop h q) (\<lambda>(x, h1, q1).
       ebind (pop_times pop n h1 q1) (\<lambda>(xs, h2, q2). Inr (x # xs, h2, q2)))"

locale free_list =
  fixes rep :: "'h \<Rightarrow> 'q \<Rightarrow> 'a list \<Rightarrow> bool"
    and may_add :: "'q \<Rightarrow> 'a \<Rightarrow> bool"
    and frame :: "'h \<Rightarrow> 'h \<Rightarrow> bool"
    and pop :: "'h \<Rightarrow> 'q \<Rightarrow> ('a \<times> 'h \<times> 'q) res"
    and pop_n :: "'h \<Rightarrow> 'q \<Rightarrow> int \<Rightarrow> ('a list \<times> 'h \<times> 'q) res"
    and rem :: "'h \<Rightarrow> 'q \<Rightarrow> 'a \<Rightarrow> ('h \<times> 'q) res"
    and app_n :: "'h \<Rightarrow> 'q \<Rightarrow> 'a list \<Rightarrow> ('h \<times> 'q) res"
  assumes rep_distinct: "rep h q xs \<Longrightarrow> distinct xs"
    and frame_trans: "frame h h' \<Longrightarrow> frame h' h'' \<Longrightarrow> frame h h''"
    and pop_Nil: "rep h q [] \<Longrightarrow> pop h q = Inl ValueError"
    and pop_Cons: "rep h q (x # xs) \<Longrightarrow>
      \<exists>h' q'. pop h q = Inr (x, h', q') \<and> rep h' q' xs \<and> frame h h' \<and> may_add q' = may_add q"
    and pop_n_le: "rep h q xs \<Longrightarrow> n \<le> length xs \<Longrightarrow>
      \<exists>h' q'. pop_n h q (int n) = Inr (take n xs, h', q') \<and> rep h' q' (drop n xs)
        \<and> frame h h' \<and> may_add q' = may_add q"
    and pop_n_gt: "rep h q xs \<Longrightarrow> int (length xs) < k \<Longrightarrow> pop_n h q k = Inl AssertionError"
    and rem_mid: "rep h q (ys @ b # xs) \<Longrightarrow>
      \<exists>h' q'. rem h q b = Inr (h', q') \<and> rep h' q' (ys @ xs) \<and> frame h h' \<and> may_add q' = may_add q"
    and app_n_rep: "rep h q xs \<Longrightarrow> distinct bs \<Longrightarrow> set bs \<inter> set xs = {} \<Longrightarrow>
      (\<And>b. b \<in> set bs \<Longrightarrow> may_add q b) \<Longrightarrow>
      \<exists>h' q'. app_n h q bs = Inr (h', q') \<and> rep h' q' (xs @ bs) \<and> frame h h' \<and> may_add q' = may_add q"
begin

lemma pop_times_rep:
  "rep h q xs \<Longrightarrow> n \<le> length xs \<Longrightarrow>
     \<exists>h' q'. pop_times pop n h q = Inr (take n xs, h', q') \<and> rep h' q' (drop n xs)"
proof (induction n arbitrary: h q xs)
  case 0
  then show ?case by simp
next
  case (Suc n)
  then obtain x ys where xs: "xs = x # ys" by (cases xs) auto
  with Suc.prems obtain h1 q1 where "pop h q = Inr (x, h1, q1)" "rep h1 q1 ys"
    using pop_Cons by blast
  with Suc xs show ?case by fastforce
qed

lemma pop_n_as_pops:
  assumes "rep h q xs" and "n \<le> length xs"
  shows "\<exists>h1 q1 h2 q2. pop_n h q (int n) = Inr (take n xs, h1, q1)
     \<and> pop_times pop n h q = Inr (take n xs, h2, q2)
     \<and> rep h1 q1 (drop n xs) \<and> rep h2 q2 (drop n xs)"
  using pop_n_le[OF assms] pop_times_rep[OF assms] by blast

lemma rem_in:
  assumes "rep h q xs" and "b \<in> set xs"
  shows "\<exists>h' q'. rem h q b = Inr (h', q') \<and> rep h' q' (filter (\<lambda>a. a \<noteq> b) xs)
     \<and> frame h h' \<and> may_add q' = may_add q"
proof -
  obtain ys zs where xs: "xs = ys @ b # zs"
    using assms(2) by (meson split_list)
  with rep_distinct[OF assms(1)] have "filter (\<lambda>a. a \<noteq> b) xs = ys @ zs"
    by (auto intro!: arg_cong2[where f = append] filter_True)
  with rem_mid assms(1) xs show ?thesis by simp
qed

text \<open>Blocks freed later are handed out later: the eviction order is least recently freed first.\<close>

lemma reuse_order:
  assumes "rep h q xs" and "distinct bs" and "set bs \<inter> set xs = {}"
    and "\<And>b. b \<in> set bs \<Longrightarrow> may_add q b" and "n \<le> length xs + length bs"
  shows "\<exists>h1 q1 h2 q2. app_n h q bs = Inr (h1, q1)
     \<and> pop_n h1 q1 (int n) = Inr (take n xs @ take (n - length xs) bs, h2, q2)"
proof -
  obtain h1 q1 where 1: "app_n h q bs = Inr (h1, q1)" "rep h1 q1 (xs @ bs)"
    using app_n_rep[OF assms(1-4)] by blast
  with pop_n_le[OF 1(2), of n] assms(5) show ?thesis by auto
qed

end

definition queue_may_add :: "free_block_queue \<Rightarrow> addr \<Rightarrow> bool" where
  "queue_may_add q b \<longleftrightarrow> b \<noteq> fake_free_list_head q \<and> b \<noteq> fake_free_list_tail q"

lemma same_ends_may_add: "same_ends q q' \<Longrightarrow> queue_may_add q' = queue_may_add q"
  by (rule ext) (simp add: same_ends_def queue_may_add_def)

interpretation fq: free_list queue_rep queue_may_add same_payload popleft popleft_n queue_remove append_n
proof (unfold_locales, goal_cases)
  case (1 h q xs)
  then show ?case by (rule queue_rep_distinct)
next
  case (2 h h' h'')
  then show ?case by (rule same_payload_trans)
next
  case (3 h q)
  then show ?case by (rule popleft_Nil)
next
  case (4 h q x xs)
  then show ?case using popleft_Cons same_ends_may_add by blast
next
  case (5 h q xs n)
  then show ?case using popleft_n_rep same_ends_may_add by blast
next
  case (6 h q xs n)
  then show ?case by (rule popleft_n_short)
next
  case (7 h q ys b xs)
  then show ?case using queue_remove_rep same_ends_may_add by blast
next
  case (8 h q xs bs)
  then have "fake_free_list_head q \<notin> set bs" "fake_free_list_tail q \<notin> set bs"
    by (auto simp: queue_may_add_def)
  with 8 show ?case using append_n_rep same_ends_may_add by blast
qed

end
