(* ===== verification/Request.thy ===== *)
theory Request
  imports KV_Prelude "HOL-Library.List_Lexorder" "HOL-Library.Char_ord" Complex_Main
begin

text \<open>
  Requests (\<^verbatim>\<open>vllm/v1/request.py\<close>): the data a request carries, its status, the order of requests in
  the priority queue, and the methods that append output tokens. The block hasher is an argument,
  because the source stores it as a callback that takes the request itself.
\<close>

section \<open>Data\<close>

record lora_request =
  lora_name :: string
  lora_int_id :: int

record placeholder_range =
  offset :: int
  mm_length :: int
  is_embed :: "bool list option"

record mm_feature =
  mm_identifier :: string
  mm_position :: placeholder_range

record repetition_detection_params =
  max_pattern_size :: int
  min_pattern_size :: int
  min_count :: int

record sampling_params =
  sp_max_tokens :: "int option"
  min_tokens :: int
  eos_token_id :: "int option"
  stop_token_ids :: "int list"
  repetition_detection :: "repetition_detection_params option"
  sp_skip_reading_prefix_cache :: "bool option"

record pooling_params =
  pp_skip_reading_prefix_cache :: "bool option"

datatype request_status =
    WAITING
  | WAITING_FOR_STRUCTURED_OUTPUT_GRAMMAR
  | WAITING_FOR_REMOTE_KVS
  | WAITING_FOR_STREAMING_REQ
  | RUNNING
  | PREEMPTED
  | FINISHED_STOPPED
  | FINISHED_LENGTH_CAPPED
  | FINISHED_ABORTED
  | FINISHED_IGNORED
  | FINISHED_ERROR
  | FINISHED_REPETITION

datatype finish_reason = REASON_STOP | REASON_LENGTH | REASON_ABORT | REASON_ERROR | REASON_REPETITION

datatype stop_reason = StopToken int | StopString string

record request =
  request_id :: string
  priority :: int
  arrival_time :: real
  lora_request :: "lora_request option"
  sampling_params :: "sampling_params option"
  pooling_params :: "pooling_params option"
  structured_output_request :: bool
  status :: request_status
  stop_reason :: "stop_reason option"
  max_tokens :: int
  prompt_token_ids :: "int list option"
  prompt_embeds :: "bytes list option"
  prompt_embeds_per_block_hashes :: "(int \<times> int, bytes) dict"
  num_prompt_tokens :: int
  output_token_ids :: "int list"
  all_token_ids :: "int list"
  num_output_placeholders :: int
  spec_token_ids :: "int list"
  num_computed_tokens :: int
  cache_salt :: "string option"
  mm_features :: "mm_feature list"
  is_prefill_chunk :: bool
  num_preemptions :: int
  block_hashes :: "bytes list"
  skip_reading_prefix_cache :: bool
  resumable :: bool

section \<open>Status\<close>

text \<open>\<^verbatim>\<open>enum.auto()\<close> numbers the members of the \<^verbatim>\<open>IntEnum\<close> from 1 in the order they are written.\<close>

fun status_value :: "request_status \<Rightarrow> int" where
  "status_value WAITING = 1"
| "status_value WAITING_FOR_STRUCTURED_OUTPUT_GRAMMAR = 2"
| "status_value WAITING_FOR_REMOTE_KVS = 3"
| "status_value WAITING_FOR_STREAMING_REQ = 4"
| "status_value RUNNING = 5"
| "status_value PREEMPTED = 6"
| "status_value FINISHED_STOPPED = 7"
| "status_value FINISHED_LENGTH_CAPPED = 8"
| "status_value FINISHED_ABORTED = 9"
| "status_value FINISHED_IGNORED = 10"
| "status_value FINISHED_ERROR = 11"
| "status_value FINISHED_REPETITION = 12"

lemma status_value_inj: "status_value s = status_value t \<Longrightarrow> s = t"
  by (cases s; cases t) simp_all

instantiation request_status :: linorder
begin

definition less_eq_request_status :: "request_status \<Rightarrow> request_status \<Rightarrow> bool" where
  "s \<le> t \<longleftrightarrow> status_value s \<le> status_value t"

definition less_request_status :: "request_status \<Rightarrow> request_status \<Rightarrow> bool" where
  "s < t \<longleftrightarrow> status_value s < status_value t"

instance
  by standard (auto simp: less_eq_request_status_def less_request_status_def dest: status_value_inj)

end

definition is_finished :: "request_status \<Rightarrow> bool" where
  "is_finished s \<longleftrightarrow> s > PREEMPTED"

fun get_finished_reason :: "request_status \<Rightarrow> finish_reason option" where
  "get_finished_reason FINISHED_STOPPED = Some REASON_STOP"
| "get_finished_reason FINISHED_LENGTH_CAPPED = Some REASON_LENGTH"
| "get_finished_reason FINISHED_ABORTED = Some REASON_ABORT"
| "get_finished_reason FINISHED_IGNORED = Some REASON_LENGTH"
| "get_finished_reason FINISHED_ERROR = Some REASON_ERROR"
| "get_finished_reason WAITING_FOR_STREAMING_REQ = Some REASON_STOP"
| "get_finished_reason FINISHED_REPETITION = Some REASON_REPETITION"
| "get_finished_reason _ = None"

section \<open>Lengths and embeddings\<close>

definition length_from_prompt_token_ids_or_embeds :: "int list option \<Rightarrow> bytes list option \<Rightarrow> int res" where
  "length_from_prompt_token_ids_or_embeds toks embeds =
     (case toks of
        None \<Rightarrow> (case embeds of None \<Rightarrow> Inl ValueError | Some es \<Rightarrow> Inr (int (length es)))
      | Some ts \<Rightarrow>
          (case embeds of
             None \<Rightarrow> Inr (int (length ts))
           | Some es \<Rightarrow> if length es \<noteq> length ts then Inl ValueError else Inr (int (length ts))))"

definition num_tokens :: "request \<Rightarrow> int" where
  "num_tokens r = int (length (all_token_ids r))"

definition num_tokens_with_spec :: "request \<Rightarrow> int" where
  "num_tokens_with_spec r = int (length (all_token_ids r)) + int (length (spec_token_ids r))"

definition num_output_tokens :: "request \<Rightarrow> int" where
  "num_output_tokens r = int (length (output_token_ids r))"

text \<open>The running count of embedded positions, and the number of embeddings of a placeholder.\<close>

fun cumsum_from :: "int \<Rightarrow> bool list \<Rightarrow> int list" where
  "cumsum_from acc [] = []"
| "cumsum_from acc (b # bs) = (let acc' = acc + (if b then 1 else 0) in acc' # cumsum_from acc' bs)"

definition embeds_cumsum :: "placeholder_range \<Rightarrow> int list option" where
  "embeds_cumsum p = map_option (cumsum_from 0) (is_embed p)"

definition get_num_embeds :: "placeholder_range \<Rightarrow> int" where
  "get_num_embeds p =
     (case embeds_cumsum p of
        None \<Rightarrow> mm_length p
      | Some cs \<Rightarrow> if cs \<noteq> [] then last cs else 0)"

definition get_embeds_indices_in_range :: "placeholder_range \<Rightarrow> int \<Rightarrow> int \<Rightarrow> (int \<times> int) res" where
  "get_embeds_indices_in_range p start_idx end_idx =
     (case embeds_cumsum p of
        None \<Rightarrow> Inr (start_idx, end_idx)
      | Some cs \<Rightarrow>
          ebind (if start_idx > 0 then py_nth cs (start_idx - 1) else Inr 0) (\<lambda>s.
          ebind (if end_idx > 0 then py_nth cs (end_idx - 1) else Inr 0) (\<lambda>e. Inr (s, e))))"

definition get_num_encoder_embeds :: "request \<Rightarrow> int \<Rightarrow> int res" where
  "get_num_encoder_embeds r input_id =
     (if \<not> input_id < int (length (mm_features r)) then Inl AssertionError
      else ebind (py_nth (mm_features r) input_id) (\<lambda>f. Inr (get_num_embeds (mm_position f))))"

section \<open>Creating and extending a request\<close>

definition get_skip_reading_prefix_cache :: "sampling_params option \<Rightarrow> pooling_params option \<Rightarrow> bool" where
  "get_skip_reading_prefix_cache sp pp =
     (case Option.bind sp sp_skip_reading_prefix_cache of
        Some b \<Rightarrow> b
      | None \<Rightarrow>
          (case Option.bind pp pp_skip_reading_prefix_cache of Some b \<Rightarrow> b | None \<Rightarrow> False))"

text \<open>
  A hasher returns the hashes of the blocks not yet hashed and may fill the request's memo. Its
  loop may not end (for a block size of 0), so its result is an option.
\<close>

type_synonym block_hasher = "request \<Rightarrow> (bytes list \<times> request) res option"

definition update_block_hashes :: "block_hasher option \<Rightarrow> request \<Rightarrow> request res option" where
  "update_block_hashes hasher r =
     (case hasher of
        None \<Rightarrow> Some (Inr r)
      | Some f \<Rightarrow>
          map_option (\<lambda>res. ebind res (\<lambda>(hs, r'). Inr (r'\<lparr>block_hashes := block_hashes r' @ hs\<rparr>)))
            (f r))"

definition append_output_token_ids :: "block_hasher option \<Rightarrow> request \<Rightarrow> int list \<Rightarrow> request res option" where
  "append_output_token_ids hasher r token_ids =
     update_block_hashes hasher
       (r\<lparr>output_token_ids := output_token_ids r @ token_ids,
          all_token_ids := all_token_ids r @ token_ids\<rparr>)"

text \<open>
  The constructor. \<open>uses_structured_output\<close> is what \<^verbatim>\<open>StructuredOutputRequest.from_sampling_params\<close>
  decides; \<open>arrival\<close> is the given arrival time or the clock.
\<close>

definition make_request ::
  "block_hasher option \<Rightarrow> string \<Rightarrow> int list option \<Rightarrow> sampling_params option \<Rightarrow> pooling_params option \<Rightarrow>
   real \<Rightarrow> bytes list option \<Rightarrow> mm_feature list \<Rightarrow> lora_request option \<Rightarrow> string option \<Rightarrow> int \<Rightarrow>
   bool \<Rightarrow> bool \<Rightarrow> request res option" where
  "make_request hasher rid prompt sp pp arrival embeds mm lora salt prio resum uses_structured_output =
     (case ebind
             (case pp of
                Some _ \<Rightarrow> Inr (1, WAITING)
              | None \<Rightarrow>
                  (case sp of
                     None \<Rightarrow> Inl ValueError
                   | Some p \<Rightarrow>
                       (case sp_max_tokens p of
                          None \<Rightarrow> Inl AssertionError
                        | Some m \<Rightarrow>
                            Inr (m, if uses_structured_output
                                    then WAITING_FOR_STRUCTURED_OUTPUT_GRAMMAR else WAITING))))
             (\<lambda>ms. ebind (length_from_prompt_token_ids_or_embeds prompt embeds) (\<lambda>n. Inr (ms, n)))
      of
        Inl e \<Rightarrow> Some (Inl e)
      | Inr ((mt, st), npt) \<Rightarrow>
          update_block_hashes hasher
            \<lparr>request_id = rid, priority = prio, arrival_time = arrival, lora_request = lora,
             sampling_params = sp, pooling_params = pp,
             structured_output_request = uses_structured_output,
             status = st, stop_reason = None, max_tokens = mt,
             prompt_token_ids = prompt, prompt_embeds = embeds,
             prompt_embeds_per_block_hashes = [], num_prompt_tokens = npt,
             output_token_ids = [],
             all_token_ids = (case prompt of Some ts \<Rightarrow> ts | None \<Rightarrow> replicate (nat npt) 0),
             num_output_placeholders = 0, spec_token_ids = [], num_computed_tokens = 0,
             cache_salt = salt, mm_features = mm, is_prefill_chunk = False, num_preemptions = 0,
             block_hashes = [],
             skip_reading_prefix_cache = get_skip_reading_prefix_cache sp pp,
             resumable = resum\<rparr>)"

text \<open>
  \<^verbatim>\<open>__lt__\<close>: by priority, then arrival time, then request id. The last resort compares object
  identities; \<open>ida\<close> and \<open>idb\<close> are those.
\<close>

definition request_lt :: "addr \<Rightarrow> request \<Rightarrow> addr \<Rightarrow> request \<Rightarrow> bool" where
  "request_lt ida a idb b =
     (if priority a \<noteq> priority b then priority a < priority b
      else if arrival_time a \<noteq> arrival_time b then arrival_time a < arrival_time b
      else if request_id a \<noteq> request_id b then request_id a < request_id b
      else ida < idb)"

section \<open>Lemmas\<close>

lemma is_finished_iff:
  "is_finished s \<longleftrightarrow> s \<in> {FINISHED_STOPPED, FINISHED_LENGTH_CAPPED, FINISHED_ABORTED,
     FINISHED_IGNORED, FINISHED_ERROR, FINISHED_REPETITION}"
  by (cases s) (simp_all add: is_finished_def less_request_status_def)

lemma finished_has_reason: "is_finished s \<Longrightarrow> get_finished_reason s \<noteq> None"
  by (auto simp: is_finished_iff)

lemma length_cumsum_from [simp]: "length (cumsum_from acc bs) = length bs"
  by (induction bs arbitrary: acc) (simp_all add: Let_def)

lemma cumsum_from_Nil_iff [simp]: "cumsum_from acc bs = [] \<longleftrightarrow> bs = []"
  by (cases bs) (simp_all add: Let_def)

lemma cumsum_from_nth:
  "i < length bs \<Longrightarrow> cumsum_from acc bs ! i = acc + int (length (filter id (take (Suc i) bs)))"
  by (induction bs arbitrary: acc i) (auto simp: Let_def nth_Cons split: nat.splits)

text \<open>The number of embeddings is the number of embedded positions.\<close>

lemma get_num_embeds_mask:
  "is_embed p = Some bs \<Longrightarrow> get_num_embeds p = int (length (filter id bs))"
proof -
  assume p: "is_embed p = Some bs"
  show ?thesis
  proof (cases "bs = []")
    case True
    with p show ?thesis by (simp add: get_num_embeds_def embeds_cumsum_def)
  next
    case False
    then have "last (cumsum_from 0 bs) = cumsum_from 0 bs ! (length bs - 1)"
      by (metis last_conv_nth length_0_conv length_cumsum_from)
    with p False show ?thesis
      by (auto simp: get_num_embeds_def embeds_cumsum_def cumsum_from_nth)
  qed
qed

lemma get_num_embeds_nonneg: "0 \<le> mm_length p \<Longrightarrow> 0 \<le> get_num_embeds p"
  by (cases "is_embed p") (auto simp: get_num_embeds_mask, simp add: get_num_embeds_def embeds_cumsum_def)

text \<open>The order of requests is a strict linear order on distinct objects.\<close>

lemma request_lt_irrefl: "\<not> request_lt i a i a"
  by (simp add: request_lt_def)

lemma request_lt_trans: "request_lt i a j b \<Longrightarrow> request_lt j b k c \<Longrightarrow> request_lt i a k c"
  by (auto simp: request_lt_def split: if_splits)

lemma request_lt_total: "i \<noteq> j \<Longrightarrow> request_lt i a j b \<or> request_lt j b i a"
  by (auto simp: request_lt_def)

end
