(* ===== verification/Block_Hash.thy ===== *)
theory Block_Hash
  imports Request "HOL-Library.Countable"
begin

text \<open>
  Block hashes for prefix caching (\<^verbatim>\<open>vllm/v1/core/kv_cache_utils.py\<close>): keys that pack a hash with its
  KV cache group, the extra keys of a block (LoRA name, multi-modal items, cache salt, prompt
  embeddings), the chained hash of a request's full blocks and its incremental computation, and
  the view of a hash list at a larger block size. The hash functions are third-party code: they
  are the fields of \<open>hash_env\<close>.
\<close>

unbundle bit_operations_syntax

section \<open>Keys\<close>

text \<open>Python's \<^verbatim>\<open>int.to_bytes(n, "big")\<close> and \<^verbatim>\<open>int.from_bytes(b, "big")\<close>.\<close>

fun be_bytes :: "nat \<Rightarrow> int \<Rightarrow> bytes" where
  "be_bytes 0 x = []"
| "be_bytes (Suc n) x = be_bytes n (x div 256) @ [word_of_int x]"

definition to_bytes :: "int \<Rightarrow> nat \<Rightarrow> bytes res" where
  "to_bytes x n = (if x < 0 \<or> x \<ge> 256 ^ n then Inl OverflowError else Inr (be_bytes n x))"

definition from_bytes :: "bytes \<Rightarrow> int" where
  "from_bytes bs = foldl (\<lambda>acc b. acc * 256 + uint b) 0 bs"

definition make_block_hash_with_group_id :: "bytes \<Rightarrow> int \<Rightarrow> bytes res" where
  "make_block_hash_with_group_id block_hash group_id =
     ebind (to_bytes group_id 4) (\<lambda>g. Inr (block_hash @ g))"

definition get_block_hash :: "bytes \<Rightarrow> bytes" where
  "get_block_hash key = take (length key - 4) key"

definition get_group_id :: "bytes \<Rightarrow> int" where
  "get_group_id key = from_bytes (drop (length key - 4) key)"

datatype external_block_hash = HashBytes bytes | HashInt int

text \<open>
  \<open>use_int\<close> is the environment variable \<^verbatim>\<open>VLLM_KV_EVENTS_USE_INT_BLOCK_HASHES\<close>, the field
  \<open>use_int_block_hashes\<close> of \<open>hash_env\<close> below.
\<close>

definition maybe_convert_block_hash :: "bool \<Rightarrow> bytes \<Rightarrow> external_block_hash" where
  "maybe_convert_block_hash use_int hash_bytes =
     (if \<not> use_int then HashBytes hash_bytes
      else HashInt (from_bytes hash_bytes AND (push_bit 64 1 - 1)))"

section \<open>Extra keys\<close>

text \<open>
  The values that go into the tuple of extra keys. A LoRA name and a cache salt are both plain
  strings, as in the source.
\<close>

datatype extra_key = KeyStr string | KeyMM string int | KeyBytes bytes

record hash_env =
  hash_fn :: "bytes \<times> int list \<times> extra_key list option \<Rightarrow> bytes"
  none_hash :: bytes
  sha256_digest :: "bytes \<Rightarrow> bytes"
  use_int_block_hashes :: bool

definition need_extra_keys :: "request \<Rightarrow> bool" where
  "need_extra_keys r \<longleftrightarrow> mm_features r \<noteq> [] \<or> lora_request r \<noteq> None \<or> cache_salt r \<noteq> None"

text \<open>
  The loop of \<^verbatim>\<open>_gen_mm_extra_hash_keys\<close>: \<open>idx\<close> is \<^verbatim>\<open>curr_mm_idx\<close> and the list is
  \<^verbatim>\<open>mm_features[curr_mm_idx:]\<close>.
\<close>

fun gen_mm_loop :: "int \<Rightarrow> int \<Rightarrow> int \<Rightarrow> mm_feature list \<Rightarrow> extra_key list \<times> int" where
  "gen_mm_loop start_token_idx end_token_idx idx [] = ([], idx)"
| "gen_mm_loop start_token_idx end_token_idx idx (f # fs) =
     (let off = offset (mm_position f); len = mm_length (mm_position f)
      in if end_token_idx > off then
           if start_token_idx \<ge> off + len then
             gen_mm_loop start_token_idx end_token_idx (idx + 1) fs
           else if end_token_idx \<ge> off + len then
             let (ks, i) = gen_mm_loop start_token_idx end_token_idx (idx + 1) fs
             in (KeyMM (mm_identifier f) (off - start_token_idx) # ks, i)
           else ([KeyMM (mm_identifier f) (off - start_token_idx)], idx)
         else ([], idx))"

definition gen_mm_extra_hash_keys :: "request \<Rightarrow> int \<Rightarrow> int \<Rightarrow> int \<Rightarrow> (extra_key list \<times> int) res" where
  "gen_mm_extra_hash_keys r start_token_idx end_token_idx start_mm_idx =
     (let feats = mm_features r
      in if feats = [] then Inr ([], start_mm_idx)
         else
           let last_pos = mm_position (last feats)
           in if offset last_pos + mm_length last_pos \<le> start_token_idx then Inr ([], start_mm_idx)
              else if start_mm_idx < 0 \<and> \<not> - start_mm_idx \<le> int (length feats) then Inl AssertionError
              else
                let i = (if start_mm_idx < 0 then int (length feats) + start_mm_idx else start_mm_idx)
                in Inr (gen_mm_loop start_token_idx end_token_idx i (drop (nat i) feats)))"

definition gen_lora_extra_hash_keys :: "request \<Rightarrow> extra_key list" where
  "gen_lora_extra_hash_keys r =
     (case lora_request r of None \<Rightarrow> [] | Some l \<Rightarrow> [KeyStr (lora_name l)])"

text \<open>The digest of a block's prompt embeddings, computed once and kept on the request.\<close>

definition gen_prompt_embeds_extra_hash_keys :: "hash_env \<Rightarrow> request \<Rightarrow> int \<Rightarrow> int \<Rightarrow> extra_key list \<times> request" where
  "gen_prompt_embeds_extra_hash_keys env r start_token_idx end_token_idx =
     (case prompt_embeds r of
        None \<Rightarrow> ([], r)
      | Some embeds \<Rightarrow>
          (case dget (prompt_embeds_per_block_hashes r) (start_token_idx, end_token_idx) of
             Some d \<Rightarrow> ([KeyBytes d], r)
           | None \<Rightarrow>
               let d = sha256_digest env (concat (py_slice embeds (nat start_token_idx) (nat end_token_idx)))
               in ([KeyBytes d],
                   r\<lparr>prompt_embeds_per_block_hashes :=
                       dset (start_token_idx, end_token_idx) d (prompt_embeds_per_block_hashes r)\<rparr>)))"

definition cache_salt_keys :: "request \<Rightarrow> int \<Rightarrow> extra_key list" where
  "cache_salt_keys r start_token_idx =
     (case cache_salt r of
        Some s \<Rightarrow> if start_token_idx = 0 \<and> s \<noteq> [] then [KeyStr s] else []
      | None \<Rightarrow> [])"

definition generate_block_hash_extra_keys ::
  "hash_env \<Rightarrow> request \<Rightarrow> int \<Rightarrow> int \<Rightarrow> int \<Rightarrow> (extra_key list option \<times> int \<times> request) res" where
  "generate_block_hash_extra_keys env r start_token_idx end_token_idx start_mm_idx =
     ebind (gen_mm_extra_hash_keys r start_token_idx end_token_idx start_mm_idx)
       (\<lambda>(mm_extra_keys, new_start_mm_idx).
          let (prompt_embeds_keys, r') =
                gen_prompt_embeds_extra_hash_keys env r start_token_idx end_token_idx;
              extra_keys = gen_lora_extra_hash_keys r @ mm_extra_keys
                           @ cache_salt_keys r start_token_idx @ prompt_embeds_keys
          in Inr (if extra_keys = [] then None else Some extra_keys, new_start_mm_idx, r'))"

section \<open>The hash chain\<close>

definition hash_block_tokens ::
  "hash_env \<Rightarrow> bytes option \<Rightarrow> int list \<Rightarrow> extra_key list option \<Rightarrow> bytes" where
  "hash_block_tokens env parent_block_hash curr_block_token_ids extra_keys =
     (let parent = (case parent_block_hash of
                      None \<Rightarrow> none_hash env
                    | Some p \<Rightarrow> if p = [] then none_hash env else p)
      in hash_fn env (parent, curr_block_token_ids, extra_keys))"

text \<open>
  The \<^verbatim>\<open>while True\<close> loop of \<^verbatim>\<open>request_block_hasher\<close>. It would not end for a block size of 0, so it
  is a partial function; \<open>hash_loop_ref\<close> below shows that it returns for a positive one.
\<close>

partial_function (option) hash_loop ::
  "hash_env \<Rightarrow> int \<Rightarrow> request \<Rightarrow> int \<Rightarrow> int \<Rightarrow> bytes option \<Rightarrow> (bytes list \<times> request) res option" where
  "hash_loop env block_size r start_token_idx curr_mm_idx prev =
     (let end_token_idx = start_token_idx + block_size
      in if end_token_idx > num_tokens r then Some (Inr ([], r))
         else
           case generate_block_hash_extra_keys env r start_token_idx end_token_idx curr_mm_idx of
             Inl e \<Rightarrow> Some (Inl e)
           | Inr (extra_keys, mm', r') \<Rightarrow>
               let toks = py_slice (all_token_ids r) (nat start_token_idx) (nat end_token_idx);
                   hsh = hash_block_tokens env prev toks extra_keys
               in Option.bind (hash_loop env block_size r' end_token_idx mm' (Some hsh))
                    (\<lambda>res. Some (ebind res (\<lambda>(hs, r''). Inr (hsh # hs, r'')))))"

definition request_block_hasher :: "hash_env \<Rightarrow> int \<Rightarrow> request \<Rightarrow> (bytes list \<times> request) res option" where
  "request_block_hasher env block_size r =
     (let start_token_idx = int (length (block_hashes r)) * block_size
      in if start_token_idx + block_size > num_tokens r then Some (Inr ([], r))
         else
           hash_loop env block_size r start_token_idx
             (if start_token_idx > 0 then -1 else 0)
             (if block_hashes r \<noteq> [] then Some (last (block_hashes r)) else None))"

section \<open>Block hashes at a larger block size\<close>

record block_hash_list_with_block_size =
  bhl_hashes :: "bytes list"
  scale_factor :: int

definition make_block_hash_list :: "bytes list \<Rightarrow> int \<Rightarrow> int \<Rightarrow> block_hash_list_with_block_size res" where
  "make_block_hash_list hashes hash_block_size target_block_size =
     (if hash_block_size = 0 then Inl ZeroDivisionError
      else if target_block_size mod hash_block_size \<noteq> 0 then Inl AssertionError
      else Inr \<lparr>bhl_hashes = hashes, scale_factor = target_block_size div hash_block_size\<rparr>)"

definition bhl_len :: "block_hash_list_with_block_size \<Rightarrow> int" where
  "bhl_len l = int (length (bhl_hashes l)) div scale_factor l"

definition bhl_get_value_at :: "block_hash_list_with_block_size \<Rightarrow> int \<Rightarrow> bytes" where
  "bhl_get_value_at l idx =
     (let base = idx * scale_factor l
      in concat (py_slice (bhl_hashes l) (nat base) (nat (base + scale_factor l))))"

text \<open>Iterating, or slicing from a start index to the end.\<close>

definition bhl_from :: "block_hash_list_with_block_size \<Rightarrow> int \<Rightarrow> bytes list" where
  "bhl_from l start = map (bhl_get_value_at l) [min start (bhl_len l)..bhl_len l - 1]"

section \<open>Keys: packing and unpacking\<close>

lemma length_be_bytes [simp]: "length (be_bytes n x) = n"
  by (induction n arbitrary: x) simp_all

lemma from_bytes_snoc [simp]: "from_bytes (bs @ [b]) = from_bytes bs * 256 + uint b"
  by (simp add: from_bytes_def)

lemma from_bytes_be_bytes: "0 \<le> x \<Longrightarrow> x < 256 ^ n \<Longrightarrow> from_bytes (be_bytes n x) = x"
proof (induction n arbitrary: x)
  case 0
  then show ?case by (simp add: from_bytes_def)
next
  case (Suc n)
  have "x div 256 < 256 ^ n"
    using Suc.prems by (simp add: div_less_iff_less_mult mult.commute)
  with Suc have "from_bytes (be_bytes n (x div 256)) = x div 256"
    by simp
  moreover have "uint (word_of_int x :: byte) = x mod 256"
    by (simp add: uint_word_of_int)
  ultimately show ?case by simp
qed

lemma make_block_hash_with_group_id_Inr:
  "make_block_hash_with_group_id h g = Inr k \<longleftrightarrow> 0 \<le> g \<and> g < 256 ^ 4 \<and> k = h @ be_bytes 4 g"
  by (auto simp: make_block_hash_with_group_id_def to_bytes_def)

lemma block_hash_roundtrip:
  assumes "make_block_hash_with_group_id h g = Inr k"
  shows "get_block_hash k = h" and "get_group_id k = g"
  using assms by (auto simp: make_block_hash_with_group_id_Inr get_block_hash_def get_group_id_def
      from_bytes_be_bytes)

lemma make_block_hash_inj:
  assumes "make_block_hash_with_group_id h g = Inr k" and "make_block_hash_with_group_id h' g' = Inr k"
  shows "h = h' \<and> g = g'"
  using block_hash_roundtrip[OF assms(1)] block_hash_roundtrip[OF assms(2)] by simp

section \<open>Extra keys: the cursor loop computes the overlapping items\<close>

text \<open>
  The source assumes that multi-modal items are sorted by offset; they also do not overlap. The
  reference definition looks at every item and keeps those that overlap the block.
\<close>

definition mm_end :: "mm_feature \<Rightarrow> int" where
  "mm_end f = offset (mm_position f) + mm_length (mm_position f)"

definition mm_sorted :: "mm_feature list \<Rightarrow> bool" where
  "mm_sorted fs \<longleftrightarrow> sorted_wrt (\<lambda>f g. mm_end f \<le> offset (mm_position g)) fs
     \<and> (\<forall>f \<in> set fs. 0 \<le> mm_length (mm_position f))"

definition mm_keys_ref :: "int \<Rightarrow> int \<Rightarrow> mm_feature list \<Rightarrow> extra_key list" where
  "mm_keys_ref s e fs =
     map (\<lambda>f. KeyMM (mm_identifier f) (offset (mm_position f) - s))
       (filter (\<lambda>f. offset (mm_position f) < e \<and> s < mm_end f) fs)"

lemma mm_sorted_Cons:
  "mm_sorted (f # fs) \<longleftrightarrow>
     (\<forall>g \<in> set fs. mm_end f \<le> offset (mm_position g)) \<and> 0 \<le> mm_length (mm_position f) \<and> mm_sorted fs"
  by (auto simp: mm_sorted_def)

lemma mm_sorted_append:
  "mm_sorted (fs @ gs) \<longleftrightarrow>
     mm_sorted fs \<and> mm_sorted gs \<and> (\<forall>f \<in> set fs. \<forall>g \<in> set gs. mm_end f \<le> offset (mm_position g))"
  by (auto simp: mm_sorted_def sorted_wrt_append)

lemma mm_keys_ref_past: "(\<forall>f \<in> set fs. mm_end f \<le> s) \<Longrightarrow> mm_keys_ref s e fs = []"
  by (auto simp: mm_keys_ref_def filter_empty_conv)

lemma mm_keys_ref_ahead: "(\<forall>f \<in> set fs. e \<le> offset (mm_position f)) \<Longrightarrow> mm_keys_ref s e fs = []"
  by (auto simp: mm_keys_ref_def filter_empty_conv)

lemma mm_keys_ref_append: "mm_keys_ref s e (fs @ gs) = mm_keys_ref s e fs @ mm_keys_ref s e gs"
  by (simp add: mm_keys_ref_def)

lemma gen_mm_loop_ref:
  assumes "mm_sorted fs" and "s \<le> e" and "gen_mm_loop s e idx fs = (ks, i)"
  shows "ks = mm_keys_ref s e fs
    \<and> (\<exists>k \<le> length fs. i = idx + int k \<and> (\<forall>f \<in> set (take k fs). mm_end f \<le> e))"
  using assms
proof (induction fs arbitrary: idx ks i)
  case Nil
  then show ?case by (simp add: mm_keys_ref_def)
next
  case (Cons f fs)
  let ?off = "offset (mm_position f)" and ?len = "mm_length (mm_position f)"
  have ahead: "\<forall>g \<in> set fs. ?off + ?len \<le> offset (mm_position g)" "0 \<le> ?len" "mm_sorted fs"
    using Cons.prems(1) by (auto simp: mm_sorted_Cons mm_end_def)
  have stop: "mm_keys_ref s e fs = []" if "e \<le> ?off + ?len"
    using ahead(1) that by (intro mm_keys_ref_ahead) force
  consider (ahead) "e \<le> ?off"
    | (past) "?off < e" "?off + ?len \<le> s"
    | (whole) "?off < e" "s < ?off + ?len" "?off + ?len \<le> e"
    | (cut) "?off < e" "s < ?off + ?len" "e < ?off + ?len"
    by linarith
  then show ?case
  proof cases
    case ahead
    then show ?thesis
      using Cons.prems(3) ahead stop \<open>0 \<le> ?len\<close> by (auto simp: Let_def mm_keys_ref_def)
  next
    case past
    with Cons.prems(3) have "gen_mm_loop s e (idx + 1) fs = (ks, i)"
      by (simp add: Let_def)
    from Cons.IH[OF ahead(3) Cons.prems(2) this] obtain k where
      "ks = mm_keys_ref s e fs" "k \<le> length fs" "i = idx + int (Suc k)"
      "\<forall>f \<in> set (take k fs). mm_end f \<le> e"
      by auto
    then show ?thesis
      using past Cons.prems(2)
      by (intro conjI exI[of _ "Suc k"]) (auto simp: mm_keys_ref_def mm_end_def)
  next
    case whole
    obtain ks' where ks': "gen_mm_loop s e (idx + 1) fs = (ks', i)"
        "ks = KeyMM (mm_identifier f) (?off - s) # ks'"
      using Cons.prems(3) whole by (auto simp: Let_def split: prod.splits)
    from Cons.IH[OF ahead(3) Cons.prems(2) ks'(1)] obtain k where
      "ks' = mm_keys_ref s e fs" "k \<le> length fs" "i = idx + int (Suc k)"
      "\<forall>f \<in> set (take k fs). mm_end f \<le> e"
      by auto
    then show ?thesis
      using whole ks'(2)
      by (intro conjI exI[of _ "Suc k"]) (auto simp: mm_keys_ref_def mm_end_def)
  next
    case cut
    then show ?thesis
      using Cons.prems(3) stop by (auto simp: Let_def mm_keys_ref_def mm_end_def)
  qed
qed

text \<open>
  A cursor is good for a block that starts at \<open>s\<close> when no item before it reaches past \<open>s\<close>.
\<close>

definition cursor_ok :: "mm_feature list \<Rightarrow> int \<Rightarrow> int \<Rightarrow> bool" where
  "cursor_ok fs i s \<longleftrightarrow> fs = [] \<or>
     (\<exists>j \<le> length fs. (i = int j \<or> i < 0 \<and> i = int j - int (length fs))
        \<and> (\<forall>f \<in> set (take j fs). mm_end f \<le> s))"

lemma mm_sorted_end_le_last:
  assumes "mm_sorted fs" and "f \<in> set fs"
  shows "mm_end f \<le> mm_end (last fs)"
proof -
  obtain gs g where fs: "fs = gs @ [g]"
    using assms(2) by (cases fs rule: rev_cases) auto
  then show ?thesis
    using assms by (fastforce simp: mm_sorted_append mm_sorted_Cons mm_end_def)
qed

lemma gen_mm_extra_hash_keys_ref:
  assumes sorted: "mm_sorted (mm_features r)" and "s \<le> e" and cur: "cursor_ok (mm_features r) i s"
  shows "\<exists>i'. gen_mm_extra_hash_keys r s e i = Inr (mm_keys_ref s e (mm_features r), i')
    \<and> cursor_ok (mm_features r) i' e"
proof (cases "mm_features r = []")
  case True
  then show ?thesis
    by (simp add: gen_mm_extra_hash_keys_def mm_keys_ref_def cursor_ok_def)
next
  case False
  let ?fs = "mm_features r"
  from cur False obtain j where j: "j \<le> length ?fs"
      "i = int j \<or> i < 0 \<and> i = int j - int (length ?fs)" "\<forall>f \<in> set (take j ?fs). mm_end f \<le> s"
    by (auto simp: cursor_ok_def)
  show ?thesis
  proof (cases "mm_end (last ?fs) \<le> s")
    case True
    have "mm_keys_ref s e ?fs = []"
      using mm_sorted_end_le_last[OF sorted] True by (intro mm_keys_ref_past) force
    moreover have "cursor_ok ?fs i e"
      using j assms(2) by (force simp: cursor_ok_def)
    ultimately show ?thesis
      using False True by (simp add: gen_mm_extra_hash_keys_def Let_def mm_end_def)
  next
    case notpast: False
    obtain ks i' where loop: "gen_mm_loop s e (int j) (drop j ?fs) = (ks, i')"
      by fastforce
    have "mm_sorted (drop j ?fs)"
      using sorted by (metis append_take_drop_id mm_sorted_append)
    from gen_mm_loop_ref[OF this assms(2) loop] obtain k where k: "ks = mm_keys_ref s e (drop j ?fs)"
        "k \<le> length ?fs - j" "i' = int (j + k)" "\<forall>f \<in> set (take k (drop j ?fs)). mm_end f \<le> e"
      by auto
    have "ks = mm_keys_ref s e ?fs"
      using k(1) mm_keys_ref_past[OF j(3), of e]
      by (metis append_Nil append_take_drop_id mm_keys_ref_append)
    moreover have "cursor_ok ?fs i' e"
      using j(1,3) k assms(2) unfolding cursor_ok_def
      by (intro disjI2 exI[of _ "j + k"]) (auto simp: take_add intro: order.trans)
    moreover have "gen_mm_extra_hash_keys r s e i = Inr (ks, i')"
      using False notpast j loop
      by (auto simp: gen_mm_extra_hash_keys_def Let_def mm_end_def)
    ultimately show ?thesis by simp
  qed
qed

section \<open>The reference chain of block hashes\<close>

text \<open>
  What a block's extra keys should be, and the hash of block \<open>i\<close> of a request by recursion over
  the blocks before it, with no cursor and no memo.
\<close>

definition embeds_keys_ref :: "hash_env \<Rightarrow> request \<Rightarrow> int \<Rightarrow> int \<Rightarrow> extra_key list" where
  "embeds_keys_ref env r s e =
     (case prompt_embeds r of
        None \<Rightarrow> []
      | Some es \<Rightarrow> [KeyBytes (sha256_digest env (concat (py_slice es (nat s) (nat e))))])"

definition extra_keys_ref :: "hash_env \<Rightarrow> request \<Rightarrow> int \<Rightarrow> int \<Rightarrow> extra_key list option" where
  "extra_keys_ref env r s e =
     (let ks = gen_lora_extra_hash_keys r @ mm_keys_ref s e (mm_features r)
               @ cache_salt_keys r s @ embeds_keys_ref env r s e
      in if ks = [] then None else Some ks)"

definition block_tokens :: "int \<Rightarrow> request \<Rightarrow> nat \<Rightarrow> int list" where
  "block_tokens bs r i = py_slice (all_token_ids r) (i * nat bs) (Suc i * nat bs)"

definition block_keys :: "hash_env \<Rightarrow> int \<Rightarrow> request \<Rightarrow> nat \<Rightarrow> extra_key list option" where
  "block_keys env bs r i = extra_keys_ref env r (int i * bs) (int (Suc i) * bs)"

fun block_hash_at :: "hash_env \<Rightarrow> int \<Rightarrow> request \<Rightarrow> nat \<Rightarrow> bytes" where
  "block_hash_at env bs r 0 = hash_block_tokens env None (block_tokens bs r 0) (block_keys env bs r 0)"
| "block_hash_at env bs r (Suc i) =
     hash_block_tokens env (Some (block_hash_at env bs r i))
       (block_tokens bs r (Suc i)) (block_keys env bs r (Suc i))"

definition prev_hash :: "hash_env \<Rightarrow> int \<Rightarrow> request \<Rightarrow> nat \<Rightarrow> bytes option" where
  "prev_hash env bs r k = (case k of 0 \<Rightarrow> None | Suc i \<Rightarrow> Some (block_hash_at env bs r i))"

lemma block_hash_at_prev:
  "block_hash_at env bs r k =
     hash_block_tokens env (prev_hash env bs r k) (block_tokens bs r k) (block_keys env bs r k)"
  by (cases k) (simp_all add: prev_hash_def)

text \<open>The memo of embedding digests holds what would be computed again.\<close>

definition memo_ok :: "hash_env \<Rightarrow> request \<Rightarrow> bool" where
  "memo_ok env r \<longleftrightarrow>
     (\<forall>s e d es. dget (prompt_embeds_per_block_hashes r) (s, e) = Some d \<longrightarrow> prompt_embeds r = Some es \<longrightarrow>
        d = sha256_digest env (concat (py_slice es (nat s) (nat e))))"

text \<open>\<open>memo_only r r'\<close>: the requests differ in the memo only.\<close>

definition memo_only :: "request \<Rightarrow> request \<Rightarrow> bool" where
  "memo_only r r' \<longleftrightarrow> (\<exists>m. r' = r\<lparr>prompt_embeds_per_block_hashes := m\<rparr>)"

lemma memo_only_refl [simp]: "memo_only r r"
  by (auto simp: memo_only_def intro: exI[of _ "prompt_embeds_per_block_hashes r"])

lemma memo_only_upd [simp]: "memo_only r (r\<lparr>prompt_embeds_per_block_hashes := m\<rparr>)"
  by (auto simp: memo_only_def)

lemma memo_only_trans: "memo_only r r' \<Longrightarrow> memo_only r' r'' \<Longrightarrow> memo_only r r''"
  by (auto simp: memo_only_def)

lemma memo_only_sel:
  assumes "memo_only r r'"
  shows "all_token_ids r' = all_token_ids r" "mm_features r' = mm_features r"
    "lora_request r' = lora_request r" "cache_salt r' = cache_salt r"
    "prompt_embeds r' = prompt_embeds r" "block_hashes r' = block_hashes r"
    "output_token_ids r' = output_token_ids r" "num_tokens r' = num_tokens r"
    "request_id r' = request_id r"
  using assms by (auto simp: memo_only_def num_tokens_def)

lemma memo_only_ref:
  assumes "memo_only r r'"
  shows "extra_keys_ref env r' = extra_keys_ref env r" "block_tokens bs r' = block_tokens bs r"
    "block_keys env bs r' = block_keys env bs r"
  using memo_only_sel[OF assms]
  by (auto simp: fun_eq_iff extra_keys_ref_def embeds_keys_ref_def gen_lora_extra_hash_keys_def
      cache_salt_keys_def block_tokens_def block_keys_def)

lemma memo_only_block_hash_at:
  assumes "memo_only r r'"
  shows "block_hash_at env bs r' i = block_hash_at env bs r i"
  by (induction i) (simp_all add: memo_only_ref[OF assms])

lemma gen_prompt_embeds_ref:
  assumes "memo_ok env r"
  shows "\<exists>r'. gen_prompt_embeds_extra_hash_keys env r s e = (embeds_keys_ref env r s e, r')
    \<and> memo_only r r' \<and> memo_ok env r'"
proof -
  have "gen_prompt_embeds_extra_hash_keys env r s e =
      (embeds_keys_ref env r s e, snd (gen_prompt_embeds_extra_hash_keys env r s e))"
    using assms by (auto simp: gen_prompt_embeds_extra_hash_keys_def embeds_keys_ref_def memo_ok_def
        Let_def split: option.splits)
  moreover have "memo_only r (snd (gen_prompt_embeds_extra_hash_keys env r s e))"
    by (auto simp: gen_prompt_embeds_extra_hash_keys_def Let_def split: option.splits)
  moreover have "memo_ok env (snd (gen_prompt_embeds_extra_hash_keys env r s e))"
    using assms by (auto simp: gen_prompt_embeds_extra_hash_keys_def memo_ok_def Let_def
        split: option.splits)
  ultimately show ?thesis by blast
qed

lemma generate_block_hash_extra_keys_ref:
  assumes "mm_sorted (mm_features r)" and "s \<le> e" and "cursor_ok (mm_features r) i s" and "memo_ok env r"
  shows "\<exists>i' r'. generate_block_hash_extra_keys env r s e i = Inr (extra_keys_ref env r s e, i', r')
    \<and> cursor_ok (mm_features r) i' e \<and> memo_only r r' \<and> memo_ok env r'"
proof -
  obtain i' where "gen_mm_extra_hash_keys r s e i = Inr (mm_keys_ref s e (mm_features r), i')"
      "cursor_ok (mm_features r) i' e"
    using gen_mm_extra_hash_keys_ref[OF assms(1-3)] by blast
  moreover obtain r' where "gen_prompt_embeds_extra_hash_keys env r s e = (embeds_keys_ref env r s e, r')"
      "memo_only r r'" "memo_ok env r'"
    using gen_prompt_embeds_ref[OF assms(4)] by blast
  ultimately show ?thesis
    by (simp add: generate_block_hash_extra_keys_def extra_keys_ref_def Let_def)
qed

section \<open>The hasher computes the reference chain\<close>

lemma hash_loop_stop:
  "start + bs > num_tokens r \<Longrightarrow> hash_loop env bs r start i prev = Some (Inr ([], r))"
  by (subst hash_loop.simps) simp

lemma hash_loop_step:
  "\<not> start + bs > num_tokens r \<Longrightarrow> hash_loop env bs r start i prev =
     (case generate_block_hash_extra_keys env r start (start + bs) i of
        Inl e \<Rightarrow> Some (Inl e)
      | Inr (ks, i', r') \<Rightarrow>
          let h = hash_block_tokens env prev (py_slice (all_token_ids r) (nat start) (nat (start + bs))) ks
          in Option.bind (hash_loop env bs r' (start + bs) i' (Some h))
               (\<lambda>res. Some (ebind res (\<lambda>(hs, r''). Inr (h # hs, r'')))))"
  by (subst hash_loop.simps) (simp add: Let_def split: sum.split prod.split)

lemma hash_loop_ref:
  assumes "0 < bs" and "mm_sorted (mm_features r)" and "memo_ok env r"
    and "cursor_ok (mm_features r) i (int k * bs)" and "n = num_tokens r div bs" and "int k \<le> n"
  shows "\<exists>r'. hash_loop env bs r (int k * bs) i (prev_hash env bs r k)
      = Some (Inr (map (block_hash_at env bs r) [k..<nat n], r')) \<and> memo_only r r' \<and> memo_ok env r'"
  using assms
proof (induction "nat n - k" arbitrary: k i r)
  case 0
  then have k: "int k = n" by simp
  have "int k * bs + bs > num_tokens r"
  proof (rule ccontr)
    assume "\<not> ?thesis"
    then have "(int k + 1) * bs \<le> num_tokens r" by (simp add: algebra_simps)
    then have "int k + 1 \<le> n"
      using mult_le_iff_le_div[OF \<open>0 < bs\<close>] 0 by simp
    with k show False by simp
  qed
  then have "hash_loop env bs r (int k * bs) i (prev_hash env bs r k) = Some (Inr ([], r))"
    by (subst hash_loop.simps) (simp add: Let_def)
  with k 0 show ?case by (intro exI[of _ r]) simp
next
  case (Suc d)
  from Suc.hyps(2) have k: "int k < n" "k < nat n" by simp_all
  let ?s = "int k * bs" and ?e = "int (Suc k) * bs"
  have e: "?s + bs = ?e" by (simp add: algebra_simps)
  have "int (Suc k) * bs \<le> num_tokens r"
    using mult_le_iff_le_div[OF Suc.prems(1), of "int (Suc k)" "num_tokens r"] k Suc.prems(5) by simp
  then have guard: "\<not> ?e > num_tokens r" by simp
  have "?s \<le> ?e" using Suc.prems(1) by (simp flip: e)
  then obtain i' r' where gen: "generate_block_hash_extra_keys env r ?s ?e i =
        Inr (extra_keys_ref env r ?s ?e, i', r')" "cursor_ok (mm_features r) i' ?e"
      "memo_only r r'" "memo_ok env r'"
    using generate_block_hash_extra_keys_ref[OF Suc.prems(2) _ Suc.prems(4) Suc.prems(3)] by blast
  note sel = memo_only_sel[OF gen(3)]
  have "block_hash_at env bs r' = block_hash_at env bs r"
    using memo_only_block_hash_at[OF gen(3)] by blast
  then have prev: "prev_hash env bs r' (Suc k) = Some (block_hash_at env bs r k)"
    by (simp add: prev_hash_def)
  have toks: "py_slice (all_token_ids r) (nat ?s) (nat ?e) = block_tokens bs r k"
  proof -
    have "nat ?s = k * nat bs" "nat ?e = Suc k * nat bs"
      using Suc.prems(1) by (simp_all only: nat_mult_distrib of_nat_0_le_iff nat_int)
    then show ?thesis by (simp only: block_tokens_def)
  qed
  have keys: "extra_keys_ref env r ?s ?e = block_keys env bs r k"
    by (simp add: block_keys_def)
  have hash: "hash_block_tokens env (prev_hash env bs r k) (block_tokens bs r k) (block_keys env bs r k)
      = block_hash_at env bs r k"
    by (rule block_hash_at_prev[symmetric])
  have "d = nat n - Suc k" "int (Suc k) \<le> n"
    using Suc.hyps(2) k by simp_all
  then obtain r'' where IH: "hash_loop env bs r' ?e i' (prev_hash env bs r' (Suc k)) =
       Some (Inr (map (block_hash_at env bs r') [Suc k..<nat n], r''))" "memo_only r' r''" "memo_ok env r''"
    using Suc.hyps(1)[of "Suc k" r' i'] Suc.prems(1,2,5) gen(2,4) unfolding sel by blast
  have "hash_loop env bs r ?s i (prev_hash env bs r k) =
      Some (Inr (map (block_hash_at env bs r) (k # [Suc k..<nat n]), r''))"
    by (subst hash_loop.simps)
       (simp only: Let_def e guard if_False gen(1) sum.case prod.case toks keys hash IH(1)[unfolded prev]
         bind.bind_lunit ebind_simps \<open>block_hash_at env bs r' = _\<close> list.map)
  moreover have "k # [Suc k..<nat n] = [k..<nat n]"
    using k(2) by (rule upt_conv_Cons[symmetric])
  ultimately have "hash_loop env bs r ?s i (prev_hash env bs r k) =
      Some (Inr (map (block_hash_at env bs r) [k..<nat n], r''))"
    by (simp only:)
  then show ?case
    using memo_only_trans[OF gen(3) IH(2)] IH(3) by blast
qed

lemma block_hash_at_cong:
  assumes "\<And>j. j \<le> i \<Longrightarrow> block_tokens bs r j = block_tokens bs r' j"
    and "\<And>j. j \<le> i \<Longrightarrow> block_keys env bs r j = block_keys env bs r' j"
  shows "block_hash_at env bs r i = block_hash_at env bs r' i"
  using assms by (induction i) simp_all

text \<open>The keys of a block do not depend on the tokens, the hashes or the outputs.\<close>

lemma block_keys_upd:
  "block_keys env bs (r\<lparr>block_hashes := hs\<rparr>) = block_keys env bs r"
  "block_keys env bs (r\<lparr>output_token_ids := os, all_token_ids := ts\<rparr>) = block_keys env bs r"
  by (auto simp: fun_eq_iff block_keys_def extra_keys_ref_def embeds_keys_ref_def
      gen_lora_extra_hash_keys_def cache_salt_keys_def)

lemma block_hash_at_block_hashes:
  "block_hash_at env bs (r\<lparr>block_hashes := hs\<rparr>) i = block_hash_at env bs r i"
  by (rule block_hash_at_cong) (simp_all add: block_keys_upd, simp add: block_tokens_def)

lemma py_slice_append: "b \<le> length xs \<Longrightarrow> py_slice (xs @ ys) a b = py_slice xs a b"
  by (simp add: py_slice_def)

lemma block_hash_at_append:
  assumes "0 < bs" and "i < nat (num_tokens r div bs)"
  shows "block_hash_at env bs (r\<lparr>output_token_ids := os, all_token_ids := all_token_ids r @ ts\<rparr>) i
    = block_hash_at env bs r i"
proof (rule block_hash_at_cong)
  fix j assume "j \<le> i"
  with assms(2) have "int (Suc j) \<le> num_tokens r div bs" by linarith
  then have "int (Suc j) * bs \<le> num_tokens r"
    using mult_le_iff_le_div[OF assms(1), of "int (Suc j)" "num_tokens r"] by blast
  then have "int (Suc j * nat bs) \<le> int (length (all_token_ids r))"
    using assms(1) by (simp add: num_tokens_def algebra_simps)
  then have "Suc j * nat bs \<le> length (all_token_ids r)"
    by (simp only: of_nat_le_iff)
  then show "block_tokens bs (r\<lparr>output_token_ids := os, all_token_ids := all_token_ids r @ ts\<rparr>) j =
      block_tokens bs r j"
    using py_slice_append[of "Suc j * nat bs" "all_token_ids r" ts "j * nat bs"] by (simp add: block_tokens_def)
qed (simp add: block_keys_upd)

text \<open>
  After \<open>k\<close> blocks are hashed the hasher starts at the last multi-modal item. That is enough
  only when no earlier item reaches into the blocks still to be hashed.
\<close>

definition mm_tail_ok :: "int \<Rightarrow> request \<Rightarrow> nat \<Rightarrow> bool" where
  "mm_tail_ok bs r k \<longleftrightarrow> k = 0 \<or> (\<forall>f \<in> set (butlast (mm_features r)). mm_end f \<le> int k * bs)"

lemma request_block_hasher_ref:
  assumes bs: "0 < bs" and mm: "mm_sorted (mm_features r)" and memo: "memo_ok env r"
    and hs: "block_hashes r = map (block_hash_at env bs r) [0..<k]" and k: "int k \<le> num_tokens r div bs"
    and tail: "mm_tail_ok bs r k"
  shows "\<exists>r'. request_block_hasher env bs r
      = Some (Inr (map (block_hash_at env bs r) [k..<nat (num_tokens r div bs)], r'))
    \<and> memo_only r r' \<and> memo_ok env r'"
proof -
  let ?i = "if int k * bs > 0 then -1 else 0 :: int"
  have cur: "cursor_ok (mm_features r) ?i (int k * bs)"
  proof (cases "k = 0 \<or> mm_features r = []")
    case True
    then show ?thesis by (auto simp: cursor_ok_def intro!: exI[of _ 0])
  next
    case False
    with tail have "\<forall>f \<in> set (take (length (mm_features r) - 1) (mm_features r)). mm_end f \<le> int k * bs"
      by (simp add: mm_tail_ok_def butlast_conv_take)
    then have "cursor_ok (mm_features r) (-1) (int k * bs)"
      unfolding cursor_ok_def
      using False by (intro disjI2 exI[of _ "length (mm_features r) - 1"] conjI) (cases "mm_features r"; simp)+
    moreover have "?i = -1"
      using False bs by simp
    ultimately show ?thesis
      by simp
  qed
  have prev: "(if block_hashes r \<noteq> [] then Some (last (block_hashes r)) else None) = prev_hash env bs r k"
    by (cases k) (simp_all add: hs prev_hash_def)
  have len: "int (length (block_hashes r)) = int k"
    by (simp add: hs)
  have loop: "request_block_hasher env bs r = hash_loop env bs r (int k * bs) ?i (prev_hash env bs r k)"
  proof (cases "int k * bs + bs > num_tokens r")
    case True
    then show ?thesis
      by (subst hash_loop.simps) (simp add: request_block_hasher_def Let_def len)
  next
    case False
    then show ?thesis
      by (simp add: request_block_hasher_def Let_def len prev)
  qed
  show ?thesis
    unfolding loop by (rule hash_loop_ref[OF bs mm memo cur refl k])
qed

definition hashes_ok :: "hash_env \<Rightarrow> int \<Rightarrow> request \<Rightarrow> bool" where
  "hashes_ok env bs r \<longleftrightarrow>
     block_hashes r = map (block_hash_at env bs r) [0..<nat (num_tokens r div bs)]"

lemma update_block_hashes_ok:
  assumes "0 < bs" and "mm_sorted (mm_features r)" and "memo_ok env r"
    and "block_hashes r = map (block_hash_at env bs r) [0..<k]" and "int k \<le> num_tokens r div bs"
    and "mm_tail_ok bs r k"
  shows "\<exists>r'. update_block_hashes (Some (request_block_hasher env bs)) r = Some (Inr r')
    \<and> hashes_ok env bs r' \<and> memo_ok env r' \<and> all_token_ids r' = all_token_ids r
    \<and> mm_features r' = mm_features r"
proof -
  let ?n = "nat (num_tokens r div bs)"
  obtain r' where r': "request_block_hasher env bs r = Some (Inr (map (block_hash_at env bs r) [k..<?n], r'))"
      "memo_only r r'" "memo_ok env r'"
    using request_block_hasher_ref[OF assms] by blast
  let ?r = "r'\<lparr>block_hashes := block_hashes r' @ map (block_hash_at env bs r) [k..<?n]\<rparr>"
  have "[0..<k] @ [k..<?n] = [0..<?n]"
    using assms(5) by (metis le_add_diff_inverse le_nat_iff upt_add_eq_append zero_le of_nat_0_le_iff order_trans)
  then have "block_hashes r' @ map (block_hash_at env bs r) [k..<?n] = map (block_hash_at env bs r) [0..<?n]"
    using assms(4) memo_only_sel(6)[OF r'(2)] by (metis map_append)
  then have "hashes_ok env bs ?r"
    using memo_only_sel[OF r'(2)] memo_only_block_hash_at[OF r'(2)]
    by (simp add: hashes_ok_def block_hash_at_block_hashes num_tokens_def)
  moreover have "memo_ok env ?r"
    using r'(3) by (simp add: memo_ok_def)
  ultimately show ?thesis
    using r'(1) memo_only_sel[OF r'(2)] by (simp add: update_block_hashes_def)
qed

lemma append_output_hashes_ok:
  assumes bs: "0 < bs" and mm: "mm_sorted (mm_features r)" and memo: "memo_ok env r" and ok: "hashes_ok env bs r"
    and tail: "mm_tail_ok bs r (nat (num_tokens r div bs))"
  shows "\<exists>r'. append_output_token_ids (Some (request_block_hasher env bs)) r ts = Some (Inr r')
    \<and> hashes_ok env bs r' \<and> memo_ok env r' \<and> all_token_ids r' = all_token_ids r @ ts
    \<and> mm_features r' = mm_features r"
proof -
  let ?r = "r\<lparr>output_token_ids := output_token_ids r @ ts, all_token_ids := all_token_ids r @ ts\<rparr>"
  let ?k = "nat (num_tokens r div bs)"
  have "block_hashes ?r = map (block_hash_at env bs ?r) [0..<?k]"
    using ok bs by (auto simp: hashes_ok_def block_hash_at_append)
  moreover have "0 \<le> num_tokens r div bs" "num_tokens r div bs \<le> num_tokens ?r div bs"
    using bs by (auto simp: num_tokens_def pos_imp_zdiv_nonneg_iff intro!: zdiv_mono1)
  moreover have "memo_ok env ?r" "mm_tail_ok bs ?r ?k"
    using memo tail by (simp_all add: memo_ok_def mm_tail_ok_def)
  ultimately show ?thesis
    using update_block_hashes_ok[of bs ?r env ?k] bs mm
    by (auto simp: append_output_token_ids_def)
qed

text \<open>From a cursor that is not negative the extra keys are always computed.\<close>

lemma gen_mm_loop_cursor: "idx \<le> snd (gen_mm_loop s e idx fs)"
proof (induction fs arbitrary: idx)
  case (Cons f fs)
  from Cons[of "idx + 1"] show ?case
    by (cases "gen_mm_loop s e (idx + 1) fs") (simp add: Let_def)
qed simp

lemma generate_block_hash_extra_keys_total:
  assumes "0 \<le> i"
  shows "\<exists>ks i' r'. generate_block_hash_extra_keys env r s e i = Inr (ks, i', r') \<and> 0 \<le> i' \<and> memo_only r r'"
proof -
  obtain ks i' where "gen_mm_extra_hash_keys r s e i = Inr (ks, i')" "0 \<le> i'"
  proof -
    obtain ks i' where loop: "gen_mm_loop s e i (drop (nat i) (mm_features r)) = (ks, i')" and "0 \<le> i'"
      using assms gen_mm_loop_cursor[of i s e "drop (nat i) (mm_features r)"]
      by (cases "gen_mm_loop s e i (drop (nat i) (mm_features r))") auto
    then have "gen_mm_extra_hash_keys r s e i \<in> {Inr ([], i), Inr (ks, i')}"
      using assms by (simp add: gen_mm_extra_hash_keys_def Let_def)
    with \<open>0 \<le> i'\<close> assms that show ?thesis by blast
  qed
  moreover have "memo_only r (snd (gen_prompt_embeds_extra_hash_keys env r s e))"
    by (simp add: gen_prompt_embeds_extra_hash_keys_def Let_def split: option.split)
  ultimately show ?thesis
    by (auto simp: generate_block_hash_extra_keys_def Let_def split: prod.split)
qed

lemma cursor_ok_mono: "cursor_ok fs i s \<Longrightarrow> s \<le> s' \<Longrightarrow> cursor_ok fs i s'"
  unfolding cursor_ok_def by (elim disjE exE conjE) (blast intro: order_trans)+

lemma bhl_from_drop:
  assumes "0 \<le> bhl_len l"
  shows "bhl_from l (int k) = drop k (bhl_from l 0)"
proof -
  have "[min (int k) n..n - 1] = drop k [0..n - 1]" if "0 \<le> n" for n
    using that by (intro nth_equalityI) (auto simp: min_def)
  with assms show ?thesis
    by (simp add: bhl_from_def drop_map)
qed

text \<open>The life of a request's hashes: the constructor, then any number of appends.\<close>

fun append_batches :: "block_hasher option \<Rightarrow> request \<Rightarrow> int list list \<Rightarrow> request res option" where
  "append_batches hasher r [] = Some (Inr r)"
| "append_batches hasher r (ts # tss) =
     Option.bind (append_output_token_ids hasher r ts)
       (\<lambda>res. case res of Inl e \<Rightarrow> Some (Inl e) | Inr r' \<Rightarrow> append_batches hasher r' tss)"

lemma append_batches_hashes_ok:
  assumes "0 < bs" and "mm_sorted (mm_features r)" and "memo_ok env r" and "hashes_ok env bs r"
    and "\<forall>f \<in> set (butlast (mm_features r)). mm_end f \<le> num_tokens r div bs * bs"
  shows "\<exists>r'. append_batches (Some (request_block_hasher env bs)) r tss = Some (Inr r')
    \<and> hashes_ok env bs r' \<and> all_token_ids r' = all_token_ids r @ concat tss"
  using assms(2-)
proof (induction tss arbitrary: r)
  case Nil
  then show ?case by simp
next
  case (Cons ts tss)
  have nn: "0 \<le> num_tokens r div bs"
    using assms(1) by (simp add: num_tokens_def pos_imp_zdiv_nonneg_iff)
  then have "mm_tail_ok bs r (nat (num_tokens r div bs))"
    using Cons.prems(4) by (simp add: mm_tail_ok_def)
  from append_output_hashes_ok[OF assms(1) Cons.prems(1-3) this]
  obtain r1 where r1: "append_output_token_ids (Some (request_block_hasher env bs)) r ts = Some (Inr r1)"
      "hashes_ok env bs r1" "memo_ok env r1" "all_token_ids r1 = all_token_ids r @ ts"
      "mm_features r1 = mm_features r"
    by blast
  have "num_tokens r div bs * bs \<le> num_tokens r1 div bs * bs"
    using assms(1) r1(4) by (intro mult_right_mono zdiv_mono1) (simp_all add: num_tokens_def)
  with Cons.prems(4) r1(5) have "\<forall>f \<in> set (butlast (mm_features r1)). mm_end f \<le> num_tokens r1 div bs * bs"
    by fastforce
  with Cons.IH[of r1] Cons.prems(1) r1 show ?case by auto
qed

text \<open>A request has pooling parameters, or sampling parameters with a token limit.\<close>

definition params_ok :: "sampling_params option \<Rightarrow> pooling_params option \<Rightarrow> bool" where
  "params_ok sp pp \<longleftrightarrow> pp \<noteq> None \<or> (case sp of None \<Rightarrow> False | Some p \<Rightarrow> sp_max_tokens p \<noteq> None)"

lemma make_request_hashes_ok:
  assumes "0 < bs" and "mm_sorted mm"
    and "length_from_prompt_token_ids_or_embeds prompt embeds = Inr npt" and "params_ok sp pp"
  shows "\<exists>r. make_request (Some (request_block_hasher env bs)) rid prompt sp pp arrival embeds mm
      lora salt prio resum so = Some (Inr r)
    \<and> hashes_ok env bs r \<and> memo_ok env r \<and> mm_features r = mm \<and> num_tokens r = npt"
proof -
  obtain mt st where ms: "(case pp of
                Some _ \<Rightarrow> Inr (1, WAITING)
              | None \<Rightarrow>
                  (case sp of
                     None \<Rightarrow> Inl ValueError
                   | Some p \<Rightarrow>
                       (case sp_max_tokens p of
                          None \<Rightarrow> Inl AssertionError
                        | Some m \<Rightarrow> Inr (m, if so then WAITING_FOR_STRUCTURED_OUTPUT_GRAMMAR else WAITING))))
      = Inr (mt, st)"
    using assms(4) by (cases pp) (auto simp: params_ok_def split: option.splits)
  define r0 where "r0 = \<lparr>request_id = rid, priority = prio, arrival_time = arrival, lora_request = lora,
             sampling_params = sp, pooling_params = pp, structured_output_request = so,
             status = st, stop_reason = None, max_tokens = mt,
             prompt_token_ids = prompt, prompt_embeds = embeds,
             prompt_embeds_per_block_hashes = [], num_prompt_tokens = npt, output_token_ids = [],
             all_token_ids = (case prompt of Some ts \<Rightarrow> ts | None \<Rightarrow> replicate (nat npt) 0),
             num_output_placeholders = 0, spec_token_ids = [], num_computed_tokens = 0,
             cache_salt = salt, mm_features = mm, is_prefill_chunk = False, num_preemptions = 0,
             block_hashes = [], skip_reading_prefix_cache = get_skip_reading_prefix_cache sp pp,
             resumable = resum\<rparr>"
  have n: "num_tokens r0 = npt"
    using assms(3)
    by (auto simp: r0_def num_tokens_def length_from_prompt_token_ids_or_embeds_def
        split: option.splits if_splits)
  have "memo_ok env r0" "mm_tail_ok bs r0 0" "block_hashes r0 = map (block_hash_at env bs r0) [0..<0]"
      "mm_features r0 = mm"
    by (simp_all add: r0_def memo_ok_def mm_tail_ok_def)
  moreover have "int 0 \<le> num_tokens r0 div bs"
    using assms(1) by (simp add: num_tokens_def pos_imp_zdiv_nonneg_iff)
  ultimately obtain r where "update_block_hashes (Some (request_block_hasher env bs)) r0 = Some (Inr r)"
      "hashes_ok env bs r" "memo_ok env r" "all_token_ids r = all_token_ids r0" "mm_features r = mm"
    using update_block_hashes_ok[of bs r0 env 0] assms(1,2) by auto
  moreover have "make_request (Some (request_block_hasher env bs)) rid prompt sp pp arrival embeds mm
      lora salt prio resum so = update_block_hashes (Some (request_block_hasher env bs)) r0"
    unfolding make_request_def ms assms(3) by (simp add: r0_def)
  ultimately show ?thesis
    using n by (simp add: num_tokens_def)
qed

section \<open>Equal hashes mean equal prefixes\<close>

text \<open>
  What the cache relies on of the hash function: no collisions, and no digest equal to the hash
  that stands for ``no parent'' or to the empty string, which the code takes for no parent.
\<close>

definition collision_free :: "hash_env \<Rightarrow> bool" where
  "collision_free env \<longleftrightarrow>
     inj (hash_fn env) \<and> none_hash env \<notin> range (hash_fn env) \<and> [] \<notin> range (hash_fn env)"

lemma hash_block_tokens_inj:
  assumes "collision_free env" and "hash_block_tokens env p ts ks = hash_block_tokens env p' ts' ks'"
    and "\<And>x. p = Some x \<Longrightarrow> x \<in> range (hash_fn env)" and "\<And>x. p' = Some x \<Longrightarrow> x \<in> range (hash_fn env)"
  shows "p = p' \<and> ts = ts' \<and> ks = ks'"
proof -
  define par where "par p = (case p of None \<Rightarrow> none_hash env | Some p \<Rightarrow> if p = [] then none_hash env else p)"
    for p :: "bytes option"
  have some: "par (Some x) = x \<and> x \<noteq> none_hash env" if "x \<in> range (hash_fn env)" for x
  proof -
    have "x \<noteq> []" "x \<noteq> none_hash env"
      using assms(1) that unfolding collision_free_def by metis+
    then show ?thesis by (simp add: par_def)
  qed
  have "inj (hash_fn env)"
    using assms(1) by (simp add: collision_free_def)
  moreover have "hash_fn env (par p, ts, ks) = hash_fn env (par p', ts', ks')"
    using assms(2) by (simp add: hash_block_tokens_def par_def)
  ultimately have "par p = par p'" "ts = ts'" "ks = ks'"
    by (auto dest: injD)
  moreover have "p = p'"
    using \<open>par p = par p'\<close> some assms(3,4) by (cases p; cases p') (auto simp: par_def split: if_splits)
  ultimately show ?thesis by blast
qed

lemma block_hash_at_range: "block_hash_at env bs r i \<in> range (hash_fn env)"
  by (cases i) (auto simp: hash_block_tokens_def Let_def)

lemma prev_hash_range: "prev_hash env bs r i = Some x \<Longrightarrow> x \<in> range (hash_fn env)"
  by (cases i) (auto simp: prev_hash_def block_hash_at_range)

lemma block_hash_at_inj:
  assumes "collision_free env" and "block_hash_at env bs r i = block_hash_at env bs r' j"
  shows "i = j \<and> (\<forall>k \<le> i. block_tokens bs r k = block_tokens bs r' k
    \<and> block_keys env bs r k = block_keys env bs r' k)"
  using assms(2)
proof (induction i arbitrary: j)
  case 0
  from hash_block_tokens_inj[OF assms(1) 0[unfolded block_hash_at_prev[of _ _ _ 0] block_hash_at_prev[of _ _ _ j]]]
  have "prev_hash env bs r 0 = prev_hash env bs r' j \<and> block_tokens bs r 0 = block_tokens bs r' j
      \<and> block_keys env bs r 0 = block_keys env bs r' j"
    using prev_hash_range by blast
  then show ?case
    by (cases j) (auto simp: prev_hash_def)
next
  case (Suc i)
  from hash_block_tokens_inj[OF assms(1) Suc.prems[unfolded block_hash_at_prev[of _ _ _ "Suc i"] block_hash_at_prev[of _ _ _ j]]]
  have *: "prev_hash env bs r (Suc i) = prev_hash env bs r' j \<and> block_tokens bs r (Suc i) = block_tokens bs r' j
      \<and> block_keys env bs r (Suc i) = block_keys env bs r' j"
    using prev_hash_range by blast
  then obtain j' where j: "j = Suc j'" and "block_hash_at env bs r i = block_hash_at env bs r' j'"
    by (cases j) (auto simp: prev_hash_def)
  with Suc.IH[of j'] * show ?case
    by (auto simp: le_Suc_eq)
qed

lemma take_blocks: "take (n * b) xs = concat (map (\<lambda>k. py_slice xs (k * b) (Suc k * b)) [0..<n])"
proof (induction n)
  case (Suc n)
  have "take (Suc n * b) xs = take (n * b + b) xs"
    by (simp add: add.commute)
  then have "take (Suc n * b) xs = take (n * b) xs @ py_slice xs (n * b) (Suc n * b)"
    by (simp only: take_add) (simp add: py_slice_def)
  then show ?case by (simp add: Suc)
qed simp

text \<open>A collision-free environment, by counting.\<close>

instance extra_key :: countable
  by countable_datatype

definition counting_env :: hash_env where
  "counting_env = \<lparr>hash_fn = (\<lambda>x. replicate (to_nat x + 1) 1), none_hash = [0], sha256_digest = id,
     use_int_block_hashes = False\<rparr>"

lemma counting_env_collision_free: "collision_free counting_env"
  by (auto simp: collision_free_def counting_env_def inj_def dest: arg_cong[of _ _ length])

section \<open>Properties\<close>


definition sample_params :: sampling_params where
  "sample_params = \<lparr>sp_max_tokens = Some 16, min_tokens = 0, eos_token_id = None, stop_token_ids = [],
     repetition_detection = None, sp_skip_reading_prefix_cache = None\<rparr>"

definition sample_image :: "string \<Rightarrow> int \<Rightarrow> int \<Rightarrow> mm_feature" where
  "sample_image ident off len =
     \<lparr>mm_identifier = ident, mm_position = \<lparr>offset = off, mm_length = len, is_embed = None\<rparr>\<rparr>"




definition tail_images :: "hash_env \<Rightarrow> string \<Rightarrow> request res option" where
  "tail_images env ident =
     Option.bind
       (make_request (Some (request_block_hasher env 4)) ''r'' (Some [1, 2, 3, 4, 9, 9]) (Some sample_params)
          None 0 None [sample_image ident 4 1, sample_image ''z'' 5 1] None None 0 False False)
       (\<lambda>res. case res of Inl e \<Rightarrow> Some (Inl e)
              | Inr r \<Rightarrow> append_output_token_ids (Some (request_block_hasher env 4)) r [7, 8])"

lemma tail_images_eval:
  "\<exists>r. tail_images env ident = Some (Inr r) \<and> all_token_ids r = [1, 2, 3, 4, 9, 9, 7, 8]
    \<and> block_hashes r =
       (let h = hash_block_tokens env None [1, 2, 3, 4] None
        in [h, hash_block_tokens env (Some h) [9, 9, 7, 8] (Some [KeyMM ''z'' 1])])
    \<and> block_keys env 4 r 1 = Some [KeyMM ident 0, KeyMM ''z'' 1]"
  by (simp add: tail_images_def make_request_def length_from_prompt_token_ids_or_embeds_def
      sample_params_def sample_image_def update_block_hashes_def append_output_token_ids_def
      request_block_hasher_def num_tokens_def generate_block_hash_extra_keys_def hash_loop_stop hash_loop_step
      gen_mm_extra_hash_keys_def gen_prompt_embeds_extra_hash_keys_def gen_lora_extra_hash_keys_def
      cache_salt_keys_def block_keys_def extra_keys_ref_def mm_keys_ref_def mm_end_def embeds_keys_ref_def
      py_slice_def Let_def)




end
