(* ===== verification/Block_Pool.thy ===== *)
theory Block_Pool
  imports Free_Queue Block_Hash
begin

text \<open>
  The block pool (\<^verbatim>\<open>vllm/v1/core/block_pool.py\<close>): the map from block hashes to cached blocks, and the
  pool that allocates, shares, caches, frees and evicts KV cache blocks. The pool's invariant
  \<open>pool_rep\<close> ties the free queue to the reference counts and the hash map to the hashes stored in
  the blocks; every operation is shown to keep it and is given its exact effect. The optional
  metrics collector is absent (\<^verbatim>\<open>metrics_collector=None\<close>, the default).
\<close>

section \<open>The map from hashes to blocks\<close>

text \<open>
  A key maps to one block or to a dictionary of blocks by their id. \<open>ids\<close> reads the field
  \<^verbatim>\<open>block_id\<close> of a block.
\<close>

datatype kv_cache_blocks = OneBlock addr | BlockDict "(int, addr) dict"

type_synonym block_hash_map = "(bytes, kv_cache_blocks) dict"

definition get_one_block :: "block_hash_map \<Rightarrow> bytes \<Rightarrow> addr option res" where
  "get_one_block m key =
     (case dget m key of
        None \<Rightarrow> Inr None
      | Some (OneBlock a) \<Rightarrow> Inr (Some a)
      | Some (BlockDict d) \<Rightarrow> (case d of [] \<Rightarrow> Inl StopIteration | (_, a) # _ \<Rightarrow> Inr (Some a)))"

definition map_insert :: "(addr \<Rightarrow> int) \<Rightarrow> block_hash_map \<Rightarrow> bytes \<Rightarrow> addr \<Rightarrow> block_hash_map" where
  "map_insert ids m key block =
     (case dget m key of
        None \<Rightarrow> dset key (OneBlock block) m
      | Some (OneBlock a) \<Rightarrow> dset key (BlockDict (dset (ids block) block [(ids a, a)])) m
      | Some (BlockDict d) \<Rightarrow> dset key (BlockDict (dset (ids block) block d)) m)"

definition map_pop :: "(addr \<Rightarrow> int) \<Rightarrow> block_hash_map \<Rightarrow> bytes \<Rightarrow> int \<Rightarrow> addr option \<times> block_hash_map" where
  "map_pop ids m key bid =
     (let m' = ddel key m
      in case dget m key of
           None \<Rightarrow> (None, m')
         | Some (OneBlock a) \<Rightarrow> if ids a = bid then (Some a, m') else (None, dset key (OneBlock a) m')
         | Some (BlockDict d) \<Rightarrow>
             let d' = ddel bid d
             in (dget d bid, if d' \<noteq> [] then dset key (BlockDict d') m' else m'))"

section \<open>Events\<close>

record block_stored =
  bs_block_hashes :: "external_block_hash list"
  parent_block_hash :: "external_block_hash option"
  token_ids :: "int list"
  bs_block_size :: int
  lora_id :: "int option"
  bs_medium :: string
  bs_lora_name :: "string option"
  extra_keys :: "extra_key list option list option"
  bs_group_idx :: int

datatype kv_cache_event =
    BlockStored block_stored
  | BlockRemoved (removed_hashes: "external_block_hash list") (removed_medium: string) (removed_group_idx: int)
  | AllBlocksCleared

section \<open>The pool\<close>

record block_pool =
  num_gpu_blocks :: int
  enable_caching :: bool
  hash_block_size :: int
  bp_heap :: heap
  blocks :: "addr list"
  bp_queue :: free_block_queue
  cached_block_hash_to_block :: block_hash_map
  null_block :: addr
  enable_kv_cache_events :: bool
  kv_event_queue :: "kv_cache_event list"

abbreviation bp_ids :: "block_pool \<Rightarrow> addr \<Rightarrow> int" where
  "bp_ids p \<equiv> \<lambda>a. block_id (bp_heap p a)"

text \<open>
  The constructor. Block \<open>i\<close> lives at address \<open>i\<close>; the two fake blocks of the queue at the next two
  addresses.
\<close>

definition block_pool_init :: "int \<Rightarrow> bool \<Rightarrow> int \<Rightarrow> bool \<Rightarrow> block_pool res" where
  "block_pool_init n caching hbs events =
     (if \<not> n > 0 then Inl AssertionError
      else
        let bs = [0..<nat n];
            (h, q) = free_queue_init (\<lambda>a. new_block (int a)) bs (nat n) (nat n + 1)
        in ebind (popleft h q) (\<lambda>(nb, h', q').
             Inr \<lparr>num_gpu_blocks = n, enable_caching = caching, hash_block_size = hbs,
                  bp_heap = h'(nb := (h' nb)\<lparr>is_null := True\<rparr>), blocks = bs, bp_queue = q',
                  cached_block_hash_to_block = [], null_block = nb,
                  enable_kv_cache_events = events, kv_event_queue = []\<rparr>))"

fun get_cached_block :: "block_pool \<Rightarrow> bytes \<Rightarrow> int list \<Rightarrow> addr list option res" where
  "get_cached_block p bh [] = Inr (Some [])"
| "get_cached_block p bh (group_id # group_ids) =
     ebind (make_block_hash_with_group_id bh group_id) (\<lambda>key.
     ebind (get_one_block (cached_block_hash_to_block p) key) (\<lambda>blk.
       case blk of
         None \<Rightarrow> Inr None
       | Some b \<Rightarrow>
           ebind (get_cached_block p bh group_ids) (\<lambda>rest. Inr (map_option (\<lambda>bs. b # bs) rest))))"

text \<open>The request's hashes at the block size of a group: the list itself, or the scaled view.\<close>

datatype block_hash_list = PlainHashes "bytes list" | ScaledHashes block_hash_list_with_block_size

definition hashes_from :: "block_hash_list \<Rightarrow> int \<Rightarrow> bytes list" where
  "hashes_from l start =
     (case l of PlainHashes hs \<Rightarrow> drop (nat start) hs | ScaledHashes s \<Rightarrow> bhl_from s start)"

definition hashes_nth :: "block_hash_list \<Rightarrow> int \<Rightarrow> bytes res" where
  "hashes_nth l i =
     (case l of PlainHashes hs \<Rightarrow> py_nth hs i | ScaledHashes s \<Rightarrow> Inr (bhl_get_value_at s i))"

definition hashes_at_block_size :: "bytes list \<Rightarrow> int \<Rightarrow> int \<Rightarrow> block_hash_list res" where
  "hashes_at_block_size hs hbs block_size =
     (if block_size = hbs then Inr (PlainHashes hs)
      else ebind (make_block_hash_list hs hbs block_size) (\<lambda>s. Inr (ScaledHashes s)))"

text \<open>One turn of the loop of \<^verbatim>\<open>cache_full_blocks\<close> over the newly full blocks.\<close>

definition cache_block ::
  "hash_env \<Rightarrow> int \<Rightarrow> bytes list \<Rightarrow> nat \<times> addr \<Rightarrow> block_pool \<times> external_block_hash list
   \<Rightarrow> (block_pool \<times> external_block_hash list) res" where
  "cache_block env group_id new_block_hashes = (\<lambda>(i, blk) (p, new_hashes).
     if is_null (bp_heap p blk) then Inr (p, new_hashes)
     else if block_hash (bp_heap p blk) \<noteq> None then Inl AssertionError
     else
       ebind (py_nth new_block_hashes (int i)) (\<lambda>bh.
       ebind (make_block_hash_with_group_id bh group_id) (\<lambda>key.
       ebind (set_block_hash (bp_heap p) blk key) (\<lambda>h.
         Inr (p\<lparr>bp_heap := h,
                cached_block_hash_to_block :=
                  map_insert (\<lambda>a. block_id (h a)) (cached_block_hash_to_block p) key blk\<rparr>,
              if enable_kv_cache_events p
              then new_hashes @ [maybe_convert_block_hash (use_int_block_hashes env) bh]
              else new_hashes)))))"

text \<open>The extra keys reported with a \<^verbatim>\<open>BlockStored\<close> event, one per block that is not null.\<close>

definition event_extra_keys ::
  "hash_env \<Rightarrow> block_pool \<Rightarrow> addr list \<Rightarrow> int \<Rightarrow> int \<Rightarrow> request \<times> int \<times> extra_key list option list
   \<Rightarrow> (request \<times> int \<times> extra_key list option list) res" where
  "event_extra_keys env p blks block_size i = (\<lambda>(r, curr_mm_idx, extra_keys_list).
     ebind (py_nth blks i) (\<lambda>blk.
       if is_null (bp_heap p blk) then Inr (r, curr_mm_idx, extra_keys_list)
       else
         ebind (generate_block_hash_extra_keys env r (i * block_size) (i * block_size + block_size) curr_mm_idx)
           (\<lambda>(ks, mm', r'). Inr (r', mm', extra_keys_list @ [ks]))))"

definition cache_full_blocks ::
  "hash_env \<Rightarrow> block_pool \<Rightarrow> request \<Rightarrow> addr list \<Rightarrow> int \<Rightarrow> int \<Rightarrow> int \<Rightarrow> int \<Rightarrow> (block_pool \<times> request) res" where
  "cache_full_blocks env p r blks num_cached_blocks num_full_blocks block_size group_id =
     (if num_cached_blocks \<ge> num_full_blocks then Inr (p, r)
      else
        let new_full_blocks = py_slice blks (nat num_cached_blocks) (nat num_full_blocks)
        in if \<not> int (length (block_hashes r)) \<ge> num_full_blocks then Inl AssertionError
        else
          ebind (hashes_at_block_size (block_hashes r) (hash_block_size p) block_size) (\<lambda>bhs.
          ebind (efold (cache_block env group_id (hashes_from bhs num_cached_blocks))
                   (enumerate 0 new_full_blocks) (p, [])) (\<lambda>(p1, new_hashes).
            if \<not> enable_kv_cache_events p1 then Inr (p1, r)
            else
              ebind (if num_cached_blocks = 0 then Inr None
                     else ebind (hashes_nth bhs (num_cached_blocks - 1)) (\<lambda>bh.
                       Inr (Some (maybe_convert_block_hash (use_int_block_hashes env) bh)))) (\<lambda>parent.
              ebind (efold (event_extra_keys env p1 blks block_size)
                       [num_cached_blocks..num_full_blocks - 1] (r, 0, [])) (\<lambda>(r', _, keys).
                Inr (p1\<lparr>kv_event_queue := kv_event_queue p1 @
                       [BlockStored
                          \<lparr>bs_block_hashes = new_hashes, parent_block_hash = parent,
                           token_ids = py_slice (all_token_ids r') (nat (num_cached_blocks * block_size))
                             (nat (num_full_blocks * block_size)),
                           bs_block_size = block_size,
                           lora_id = map_option lora_int_id (lora_request r'),
                           bs_medium = ''GPU'',
                           bs_lora_name = map_option lora_name (lora_request r'),
                           extra_keys = (if keys = [] then None else Some keys),
                           bs_group_idx = group_id\<rparr>]\<rparr>, r'))))))"

definition maybe_evict_cached_block :: "hash_env \<Rightarrow> block_pool \<Rightarrow> addr \<Rightarrow> bool \<times> block_pool" where
  "maybe_evict_cached_block env p blk =
     (case block_hash (bp_heap p blk) of
        None \<Rightarrow> (False, p)
      | Some key \<Rightarrow>
          (case map_pop (bp_ids p) (cached_block_hash_to_block p) key (block_id (bp_heap p blk)) of
             (None, m) \<Rightarrow> (False, p\<lparr>cached_block_hash_to_block := m\<rparr>)
           | (Some _, m) \<Rightarrow>
               let p' = p\<lparr>cached_block_hash_to_block := m, bp_heap := reset_hash (bp_heap p) blk\<rparr>
               in (True,
                   if enable_kv_cache_events p'
                   then p'\<lparr>kv_event_queue := kv_event_queue p' @
                          [BlockRemoved
                             [maybe_convert_block_hash (use_int_block_hashes env) (get_block_hash key)]
                             ''GPU'' (get_group_id key)]\<rparr>
                   else p')))"

definition get_num_free_blocks :: "block_pool \<Rightarrow> int" where
  "get_num_free_blocks p = num_free_blocks (bp_queue p)"

text \<open>The body of the loops of \<^verbatim>\<open>get_new_blocks\<close>: evict when caching, then take the first reference.\<close>

definition take_block :: "hash_env \<Rightarrow> addr \<Rightarrow> block_pool \<Rightarrow> block_pool res" where
  "take_block env blk p =
     (let p1 = (if enable_caching p then snd (maybe_evict_cached_block env p blk) else p)
      in if ref_cnt (bp_heap p1 blk) \<noteq> 0 then Inl AssertionError
         else Inr (p1\<lparr>bp_heap := add_ref (bp_heap p1) blk 1\<rparr>))"

definition get_new_blocks :: "hash_env \<Rightarrow> block_pool \<Rightarrow> int \<Rightarrow> (addr list \<times> block_pool) res" where
  "get_new_blocks env p num_blocks =
     (if num_blocks > get_num_free_blocks p then Inl ValueError
      else
        ebind (popleft_n (bp_heap p) (bp_queue p) num_blocks) (\<lambda>(ret, h, q).
        ebind (efold (take_block env) ret (p\<lparr>bp_heap := h, bp_queue := q\<rparr>)) (\<lambda>p'.
          Inr (ret, p'))))"

definition touch_block :: "addr \<Rightarrow> block_pool \<Rightarrow> block_pool res" where
  "touch_block blk p =
     ebind (if ref_cnt (bp_heap p blk) = 0 \<and> \<not> is_null (bp_heap p blk)
            then queue_remove (bp_heap p) (bp_queue p) blk
            else Inr (bp_heap p, bp_queue p)) (\<lambda>(h, q).
       Inr (p\<lparr>bp_heap := add_ref h blk 1, bp_queue := q\<rparr>))"

definition touch :: "block_pool \<Rightarrow> addr list \<Rightarrow> block_pool res" where
  "touch p bs = efold touch_block bs p"

definition free_blocks :: "block_pool \<Rightarrow> addr list \<Rightarrow> block_pool res" where
  "free_blocks p ordered_blocks =
     (let h = fold (\<lambda>b h. add_ref h b (-1)) ordered_blocks (bp_heap p)
      in ebind (append_n h (bp_queue p)
                  (filter (\<lambda>b. ref_cnt (h b) = 0 \<and> \<not> is_null (h b)) ordered_blocks)) (\<lambda>(h', q').
           Inr (p\<lparr>bp_heap := h', bp_queue := q'\<rparr>)))"

text \<open>The argument is a set; the list is the order in which it is iterated.\<close>

definition evict_block_id :: "hash_env \<Rightarrow> int \<Rightarrow> block_pool \<Rightarrow> block_pool res" where
  "evict_block_id env bid p =
     (if \<not> bid < int (length (blocks p)) then Inl AssertionError
      else ebind (py_nth (blocks p) bid) (\<lambda>blk. Inr (snd (maybe_evict_cached_block env p blk))))"

definition evict_blocks :: "hash_env \<Rightarrow> block_pool \<Rightarrow> int list \<Rightarrow> block_pool res" where
  "evict_blocks env p block_ids = efold (evict_block_id env) block_ids p"

definition pool_reset_prefix_cache :: "block_pool \<Rightarrow> bool \<times> block_pool" where
  "pool_reset_prefix_cache p =
     (let num_used_blocks = num_gpu_blocks p - get_num_free_blocks p
      in if num_used_blocks \<noteq> 1 then (False, p)
         else
           let p' = p\<lparr>cached_block_hash_to_block := [],
                      bp_heap := fold (\<lambda>b h. reset_hash h b) (blocks p) (bp_heap p)\<rparr>
           in (True,
               if enable_kv_cache_events p'
               then p'\<lparr>kv_event_queue := kv_event_queue p' @ [AllBlocksCleared]\<rparr> else p'))"

definition get_usage :: "block_pool \<Rightarrow> real" where
  "get_usage p =
     (let total_gpu_blocks = num_gpu_blocks p - 1
      in if total_gpu_blocks = 0 then 0
         else 1 - of_int (get_num_free_blocks p) / of_int total_gpu_blocks)"

definition pool_take_events :: "block_pool \<Rightarrow> kv_cache_event list \<times> block_pool" where
  "pool_take_events p =
     (if \<not> enable_kv_cache_events p then ([], p)
      else (kv_event_queue p, p\<lparr>kv_event_queue := []\<rparr>))"

section \<open>The contract of the hash map\<close>

text \<open>
  What the pool relies on: under a well-formedness condition the map behaves as a function from
  keys to lists of distinct blocks; a lookup gives the first of them, an insertion adds at the end,
  a removal takes exactly one block out. \<open>ok\<close> says that a block can be told apart by its id.
  \<open>consistent m f\<close> ties the map to the hash \<open>f a\<close> recorded in each block.
\<close>

locale block_index =
  fixes wf :: "'m \<Rightarrow> bool"
    and ok :: "'a \<Rightarrow> bool"
    and look :: "'m \<Rightarrow> 'k \<Rightarrow> 'a list"
    and get_one :: "'m \<Rightarrow> 'k \<Rightarrow> 'a option res"
    and ins :: "'m \<Rightarrow> 'k \<Rightarrow> 'a \<Rightarrow> 'm"
    and del :: "'m \<Rightarrow> 'k \<Rightarrow> 'a \<Rightarrow> 'a option \<times> 'm"
  assumes get_one_look: "wf m \<Longrightarrow> get_one m k = Inr (case look m k of [] \<Rightarrow> None | a # _ \<Rightarrow> Some a)"
    and ins_wf: "wf m \<Longrightarrow> ok a \<Longrightarrow> a \<notin> set (look m k) \<Longrightarrow> wf (ins m k a)"
    and ins_look: "wf m \<Longrightarrow> ok a \<Longrightarrow> a \<notin> set (look m k) \<Longrightarrow>
      look (ins m k a) k' = (if k' = k then look m k @ [a] else look m k')"
    and del_wf: "wf m \<Longrightarrow> ok a \<Longrightarrow> wf (snd (del m k a))"
    and del_look: "wf m \<Longrightarrow> ok a \<Longrightarrow>
      look (snd (del m k a)) k' = (if k' = k then filter (\<lambda>b. b \<noteq> a) (look m k) else look m k')"
    and del_found: "wf m \<Longrightarrow> ok a \<Longrightarrow> fst (del m k a) = (if a \<in> set (look m k) then Some a else None)"
begin

definition consistent :: "'m \<Rightarrow> ('a \<Rightarrow> 'k option) \<Rightarrow> bool" where
  "consistent m f \<longleftrightarrow> wf m \<and> (\<forall>k a. a \<in> set (look m k) \<longleftrightarrow> f a = Some k)"

lemma lookup_hit:
  "consistent m f \<Longrightarrow> get_one m k = Inr (Some a) \<Longrightarrow> f a = Some k"
  unfolding consistent_def by (metis get_one_look list.set_intros(1) list.case_eq_if list.collapse
      option.inject option.simps(3) sum.inject(2))

lemma lookup_total:
  "consistent m f \<Longrightarrow> \<exists>r. get_one m k = Inr r \<and> (r = None \<longleftrightarrow> (\<forall>a. f a \<noteq> Some k))"
  unfolding consistent_def
  by (metis get_one_look list.case_eq_if list.collapse list.set_intros(1) list.set(1) empty_iff option.simps(3))

lemma consistent_ins:
  "consistent m f \<Longrightarrow> ok a \<Longrightarrow> f a = None \<Longrightarrow> consistent (ins m k a) (f(a := Some k))"
  unfolding consistent_def by (auto simp: ins_wf ins_look)

lemma consistent_del:
  "consistent m f \<Longrightarrow> ok a \<Longrightarrow> f a = Some k \<Longrightarrow>
     consistent (snd (del m k a)) (f(a := None)) \<and> fst (del m k a) = Some a"
  unfolding consistent_def by (auto simp: del_wf del_look del_found)

end

definition map_entries :: "block_hash_map \<Rightarrow> bytes \<Rightarrow> addr list" where
  "map_entries m k =
     (case dget m k of None \<Rightarrow> [] | Some (OneBlock a) \<Rightarrow> [a] | Some (BlockDict d) \<Rightarrow> map snd d)"

text \<open>Every block of an inner dictionary is stored under its own id.\<close>

definition dict_ids :: "(addr \<Rightarrow> int) \<Rightarrow> (int, addr) dict \<Rightarrow> bool" where
  "dict_ids ids d \<longleftrightarrow> dict_ok d \<and> (\<forall>(i, a) \<in> set d. i = ids a \<and> ids a = int a)"

definition map_wf :: "(addr \<Rightarrow> int) \<Rightarrow> block_hash_map \<Rightarrow> bool" where
  "map_wf ids m \<longleftrightarrow>
     (\<forall>k a. dget m k = Some (OneBlock a) \<longrightarrow> ids a = int a)
     \<and> (\<forall>k d. dget m k = Some (BlockDict d) \<longrightarrow> d \<noteq> [] \<and> dict_ids ids d)"

lemma dset_absent: "dget d k = None \<Longrightarrow> dset k v d = d @ [(k, v)]"
  by (induction d) (auto split: if_splits)

lemma dict_ids_lookup:
  "dict_ids ids d \<Longrightarrow> dget d (int b) = (if b \<in> snd ` set d then Some b else None)"
  unfolding dict_ids_def by (induction d) (auto simp: rev_image_eqI)

lemma dict_ids_dset:
  assumes "dict_ids ids d" and "b \<notin> snd ` set d" and "ids b = int b"
  shows "dict_ids ids (dset (int b) b d)" and "map snd (dset (int b) b d) = map snd d @ [b]"
proof -
  have *: "dset (int b) b d = d @ [(int b, b)]"
    using assms by (intro dset_absent) (simp add: dict_ids_lookup)
  moreover have "dict_ok (dset (int b) b d)"
    using assms(1) by (simp add: dict_ids_def)
  ultimately show "dict_ids ids (dset (int b) b d)" "map snd (dset (int b) b d) = map snd d @ [b]"
    using assms by (auto simp: dict_ids_def)
qed

lemma dict_ids_ddel: "dict_ids ids d \<Longrightarrow> dict_ids ids (ddel k d)"
  unfolding dict_ids_def by (intro conjI dict_ok_ddel) (auto simp: AList.delete_eq)

lemma dict_ids_entries:
  "dict_ids ids d \<Longrightarrow> map snd (ddel (int b) d) = filter (\<lambda>a. a \<noteq> b) (map snd d)"
  unfolding dict_ids_def by (induction d) auto

lemma dict_ids_pair [simp]:
  "ids a = int a \<Longrightarrow> ids b = int b \<Longrightarrow> a \<noteq> b \<Longrightarrow> dict_ids ids [(int a, a), (int b, b)]"
  by (simp add: dict_ids_def)

interpretation bm: block_index "map_wf ids" "\<lambda>a. ids a = int a" map_entries get_one_block
    "map_insert ids" "\<lambda>m k a. map_pop ids m k (ids a)" for ids
proof (unfold_locales, goal_cases)
  case (1 m k)
  then show ?case
    by (auto simp: get_one_block_def map_entries_def map_wf_def
        split: option.splits kv_cache_blocks.splits list.splits)
next
  case (2 m a k)
  then show ?case
    by (auto simp: map_wf_def map_entries_def map_insert_def dict_ids_dset[of ids]
        split: option.splits kv_cache_blocks.splits if_splits)
next
  case (3 m a k k')
  then show ?case
    by (auto simp: map_wf_def map_entries_def map_insert_def dict_ids_dset[of ids]
        split: option.splits kv_cache_blocks.splits if_splits)
next
  case (4 m a k)
  then show ?case
    by (auto simp: map_wf_def map_pop_def Let_def dict_ids_ddel
        split: option.splits kv_cache_blocks.splits if_splits)
next
  case (5 m a k k')
  then have "dget m k = Some (BlockDict d) \<Longrightarrow> ddel (int a) d = [] \<longleftrightarrow> filter (\<lambda>b. b \<noteq> a) (map snd d) = []" for d
    by (metis dict_ids_entries map_is_Nil_conv map_wf_def)
  with 5 show ?case
    by (auto simp: map_wf_def map_entries_def map_pop_def Let_def dict_ids_entries[of ids]
        split: option.splits kv_cache_blocks.splits if_splits)
next
  case (6 m a k)
  then show ?case
    by (auto simp: map_wf_def map_entries_def map_pop_def Let_def dict_ids_lookup[of ids]
        split: option.splits kv_cache_blocks.splits if_splits)
qed

section \<open>The invariant of the pool\<close>

abbreviation rc :: "block_pool \<Rightarrow> addr \<Rightarrow> int" where
  "rc p a \<equiv> ref_cnt (bp_heap p a)"

abbreviation bh :: "block_pool \<Rightarrow> addr \<Rightarrow> bytes option" where
  "bh p a \<equiv> block_hash (bp_heap p a)"

text \<open>
  \<open>pool_blocks p\<close>: the pool's blocks are its addresses in order, the null block is the first, and
  ids and null marks are where the constructor put them.
\<close>

definition pool_blocks :: "block_pool \<Rightarrow> bool" where
  "pool_blocks p \<longleftrightarrow>
     0 < length (blocks p) \<and> (\<forall>i < length (blocks p). blocks p ! i = i)
     \<and> num_gpu_blocks p = int (length (blocks p)) \<and> null_block p = 0
     \<and> (\<forall>a \<in> set (blocks p). bp_ids p a = int a \<and> (is_null (bp_heap p a) \<longleftrightarrow> a = 0)
          \<and> queue_may_add (bp_queue p) a)"

text \<open>
  \<open>pool_free p fs\<close>: the queue holds exactly the blocks \<open>fs\<close>, and these are the blocks other than the
  null block that no one references. \<open>pool_cache p\<close>: a block is in the map under a key exactly when it
  carries that key; the null block carries none, and without caching no block does.
\<close>

definition pool_free :: "block_pool \<Rightarrow> addr list \<Rightarrow> bool" where
  "pool_free p fs \<longleftrightarrow>
     queue_rep (bp_heap p) (bp_queue p) fs
     \<and> (\<forall>a. a \<in> set fs \<longleftrightarrow> a \<in> set (blocks p) \<and> a \<noteq> 0 \<and> rc p a = 0)
     \<and> (\<forall>a \<in> set (blocks p). a \<noteq> 0 \<longrightarrow> 0 \<le> rc p a)"

definition pool_cache :: "block_pool \<Rightarrow> bool" where
  "pool_cache p \<longleftrightarrow>
     bm.consistent (bp_ids p) (cached_block_hash_to_block p) (bh p)
     \<and> (\<forall>a k. bh p a = Some k \<longrightarrow> a \<in> set (blocks p) \<and> a \<noteq> 0 \<and> enable_caching p)"

definition pool_rep :: "block_pool \<Rightarrow> addr list \<Rightarrow> bool" where
  "pool_rep p fs \<longleftrightarrow> pool_blocks p \<and> pool_free p fs \<and> pool_cache p"

text \<open>The executable reading of the free list, and the invariant without it.\<close>

definition free_list_of :: "block_pool \<Rightarrow> addr list" where
  "free_list_of p =
     (case get_all_free_blocks (bp_heap p) (bp_queue p) of Inr (Some fs) \<Rightarrow> fs | _ \<Rightarrow> [])"

definition pool_ok :: "block_pool \<Rightarrow> bool" where
  "pool_ok p \<longleftrightarrow> pool_rep p (free_list_of p)"

lemma pool_rep_free_list: "pool_rep p fs \<Longrightarrow> free_list_of p = fs"
  using get_all_free_blocks_rep[of "bp_heap p" "bp_queue p" fs]
  by (simp add: pool_rep_def pool_free_def free_list_of_def)

lemma pool_ok_iff: "pool_ok p \<longleftrightarrow> (\<exists>fs. pool_rep p fs)"
  using pool_rep_free_list by (auto simp: pool_ok_def)

text \<open>What no operation changes.\<close>

definition same_config :: "block_pool \<Rightarrow> block_pool \<Rightarrow> bool" where
  "same_config p p' \<longleftrightarrow>
     num_gpu_blocks p' = num_gpu_blocks p \<and> enable_caching p' = enable_caching p
     \<and> hash_block_size p' = hash_block_size p \<and> blocks p' = blocks p \<and> null_block p' = null_block p
     \<and> enable_kv_cache_events p' = enable_kv_cache_events p
     \<and> (\<forall>a. is_null (bp_heap p' a) = is_null (bp_heap p a))"

lemma same_config_refl [simp]: "same_config p p"
  by (simp add: same_config_def)

lemma same_config_trans: "same_config p p' \<Longrightarrow> same_config p' p'' \<Longrightarrow> same_config p p''"
  by (simp add: same_config_def)

lemma same_config_sel:
  "same_config p p' \<Longrightarrow> num_gpu_blocks p' = num_gpu_blocks p"
  "same_config p p' \<Longrightarrow> enable_caching p' = enable_caching p"
  "same_config p p' \<Longrightarrow> hash_block_size p' = hash_block_size p"
  "same_config p p' \<Longrightarrow> blocks p' = blocks p"
  "same_config p p' \<Longrightarrow> null_block p' = null_block p"
  "same_config p p' \<Longrightarrow> is_null (bp_heap p' a) = is_null (bp_heap p a)"
  by (simp_all add: same_config_def)

lemma add_ref_sel [simp]:
  "ref_cnt (add_ref h a d b) = (if b = a then ref_cnt (h a) + d else ref_cnt (h b))"
  "block_id (add_ref h a d b) = block_id (h b)"
  "block_hash (add_ref h a d b) = block_hash (h b)"
  "is_null (add_ref h a d b) = is_null (h b)"
  "prev_free_block (add_ref h a d b) = prev_free_block (h b)"
  "next_free_block (add_ref h a d b) = next_free_block (h b)"
  by (simp_all add: add_ref_def)

lemma reset_hash_sel [simp]:
  "block_hash (reset_hash h a b) = (if b = a then None else block_hash (h b))"
  "block_id (reset_hash h a b) = block_id (h b)"
  "ref_cnt (reset_hash h a b) = ref_cnt (h b)"
  "is_null (reset_hash h a b) = is_null (h b)"
  "prev_free_block (reset_hash h a b) = prev_free_block (h b)"
  "next_free_block (reset_hash h a b) = next_free_block (h b)"
  by (simp_all add: reset_hash_def)

lemma same_payload_sel:
  assumes "same_payload h h'"
  shows "block_id (h' a) = block_id (h a)" "ref_cnt (h' a) = ref_cnt (h a)"
    "block_hash (h' a) = block_hash (h a)" "is_null (h' a) = is_null (h a)"
  using assms by (simp_all add: same_payload_def)

lemma pool_rep_facts:
  assumes "pool_rep p fs"
  shows "set (blocks p) = {0..<length (blocks p)}" "null_block p = 0" "0 \<in> set (blocks p)"
    "a \<in> set (blocks p) \<Longrightarrow> bp_ids p a = int a"
    "a \<in> set (blocks p) \<Longrightarrow> is_null (bp_heap p a) \<longleftrightarrow> a = 0"
    "get_num_free_blocks p = int (length fs)" "distinct fs"
    "a \<in> set fs \<longleftrightarrow> a \<in> set (blocks p) \<and> a \<noteq> 0 \<and> rc p a = 0"
    "a \<in> set (blocks p) \<Longrightarrow> a \<noteq> 0 \<Longrightarrow> 0 \<le> rc p a"
    "bh p a = Some k \<Longrightarrow> a \<in> set (blocks p) \<and> a \<noteq> 0 \<and> enable_caching p"
proof -
  have "\<forall>i < length (blocks p). blocks p ! i = i" "0 < length (blocks p)"
    using assms by (simp_all add: pool_rep_def pool_blocks_def)
  then show *: "set (blocks p) = {0..<length (blocks p)}" by (force simp: set_conv_nth)
  then show "0 \<in> set (blocks p)"
    using \<open>0 < length (blocks p)\<close> by simp
qed (use assms in \<open>auto simp: pool_rep_def pool_blocks_def pool_free_def pool_cache_def
      get_num_free_blocks_def queue_rep_num queue_rep_distinct\<close>)

text \<open>A change of the queue and of the reference counts that leaves ids, marks and hashes alone.\<close>

lemma pool_rep_requeue:
  assumes "pool_rep p fs" and "queue_rep h q fs'" and "queue_may_add q = queue_may_add (bp_queue p)"
    and "\<And>a. block_id (h a) = bp_ids p a" and "\<And>a. is_null (h a) = is_null (bp_heap p a)"
    and "\<And>a. block_hash (h a) = bh p a"
    and "\<And>a. a \<in> set fs' \<longleftrightarrow> a \<in> set (blocks p) \<and> a \<noteq> 0 \<and> ref_cnt (h a) = 0"
    and "\<And>a. a \<in> set (blocks p) \<Longrightarrow> a \<noteq> 0 \<Longrightarrow> 0 \<le> ref_cnt (h a)"
  shows "pool_rep (p\<lparr>bp_heap := h, bp_queue := q\<rparr>) fs'"
  using assms by (simp add: pool_rep_def pool_blocks_def pool_free_def pool_cache_def)

section \<open>Eviction\<close>

lemma reset_hash_id: "block_hash (h a) = None \<Longrightarrow> reset_hash h a = h"
  by (auto simp: reset_hash_def)

lemma maybe_evict_spec:
  assumes "pool_blocks p" and "pool_cache p" and "a \<in> set (blocks p)"
  shows "\<exists>p'. maybe_evict_cached_block env p a = (bh p a \<noteq> None, p') \<and> pool_blocks p' \<and> pool_cache p'
    \<and> same_config p p' \<and> bp_heap p' = reset_hash (bp_heap p) a \<and> bp_queue p' = bp_queue p"
proof (cases "bh p a")
  case None
  with assms show ?thesis by (simp add: maybe_evict_cached_block_def reset_hash_id)
next
  case (Some key)
  let ?m = "cached_block_hash_to_block p"
  have cons: "bm.consistent (bp_ids p) ?m (bh p)" and id: "bp_ids p a = int a"
    using assms by (auto simp: pool_cache_def pool_blocks_def)
  from bm.consistent_del[of "bp_ids p", OF cons id Some] id
  obtain m where m: "map_pop (bp_ids p) ?m key (int a) = (Some a, m)"
      "bm.consistent (bp_ids p) m ((bh p)(a := None))"
    by (cases "map_pop (bp_ids p) ?m key (int a)") auto
  have "(\<lambda>b. block_hash (reset_hash (bp_heap p) a b)) = (bh p)(a := None)"
    by auto
  with m assms Some id show ?thesis
    by (auto simp: maybe_evict_cached_block_def Let_def pool_cache_def pool_blocks_def same_config_def)
qed

text \<open>\<open>taken S p p'\<close>: the blocks of \<open>S\<close> got their first reference and lost their hash, nothing else changed.\<close>

definition taken :: "addr set \<Rightarrow> block_pool \<Rightarrow> block_pool \<Rightarrow> bool" where
  "taken S p p' \<longleftrightarrow> same_config p p' \<and> bp_queue p' = bp_queue p
     \<and> (\<forall>a. rc p' a = (if a \<in> S then 1 else rc p a)) \<and> (\<forall>a. bh p' a = (if a \<in> S then None else bh p a))
     \<and> (\<forall>a. prev_free_block (bp_heap p' a) = prev_free_block (bp_heap p a))
     \<and> (\<forall>a. next_free_block (bp_heap p' a) = next_free_block (bp_heap p a))"

lemma taken_trans: "taken S p p' \<Longrightarrow> taken T p' p'' \<Longrightarrow> taken (S \<union> T) p p''"
  unfolding taken_def by (auto intro: same_config_trans)

lemma take_blocks_spec:
  assumes "pool_blocks p" and "pool_cache p" and "distinct bs" and "set bs \<subseteq> set (blocks p)"
    and "\<And>a. a \<in> set bs \<Longrightarrow> rc p a = 0"
  shows "\<exists>p'. efold (take_block env) bs p = Inr p' \<and> pool_blocks p' \<and> pool_cache p' \<and> taken (set bs) p p'"
  using assms
proof (induction bs arbitrary: p)
  case Nil
  then show ?case by (simp add: taken_def)
next
  case (Cons b bs)
  have b: "b \<in> set (blocks p)" and rb: "rc p b = 0"
    using Cons.prems(4,5) by auto
  define p1 where "p1 = (if enable_caching p then snd (maybe_evict_cached_block env p b) else p)"
  have p1: "pool_blocks p1" "pool_cache p1" "same_config p p1" "bp_queue p1 = bp_queue p"
      "bp_heap p1 = reset_hash (bp_heap p) b"
    using maybe_evict_spec[OF Cons.prems(1,2) b, of env] Cons.prems(1,2)
    by (auto simp: p1_def pool_cache_def intro!: reset_hash_id[symmetric]) (metis option.exhaust)
  define p2 where "p2 = p1\<lparr>bp_heap := add_ref (bp_heap p1) b 1\<rparr>"
  have p2: "pool_blocks p2" "pool_cache p2" "same_config p p2" "bp_queue p2 = bp_queue p"
      "bp_heap p2 = add_ref (reset_hash (bp_heap p) b) b 1"
  proof -
    have "same_config p1 p2"
      by (simp add: p2_def same_config_def)
    then show "same_config p p2"
      using p1(3) same_config_trans by blast
  qed (use p1 in \<open>simp_all add: p2_def pool_blocks_def pool_cache_def\<close>)
  have "take_block env b p = Inr p2"
    using rb p1(5) unfolding p1_def p2_def by (simp add: take_block_def Let_def)
  moreover have "\<exists>p'. efold (take_block env) bs p2 = Inr p' \<and> pool_blocks p' \<and> pool_cache p' \<and> taken (set bs) p2 p'"
    using Cons.prems p2 by (intro Cons.IH) (auto simp: same_config_sel)
  moreover have "taken {b} p p2"
    using p2(3,4,5) rb by (simp add: taken_def)
  ultimately show ?case
    using taken_trans[of "{b}" p p2 "set bs"] by auto
qed

section \<open>Allocation\<close>

lemma get_new_blocks_spec:
  assumes rep: "pool_rep p fs" and n: "n \<le> length fs"
  shows "\<exists>p'. get_new_blocks env p (int n) = Inr (take n fs, p') \<and> pool_rep p' (drop n fs) \<and> same_config p p'
    \<and> (\<forall>a. rc p' a = (if a \<in> set (take n fs) then 1 else rc p a)
         \<and> bh p' a = (if a \<in> set (take n fs) then None else bh p a))"
proof -
  note facts = pool_rep_facts[OF rep]
  have q: "queue_rep (bp_heap p) (bp_queue p) fs"
    using rep by (simp add: pool_rep_def pool_free_def)
  obtain h q where pop: "popleft_n (bp_heap p) (bp_queue p) (int n) = Inr (take n fs, h, q)"
      and h: "queue_rep h q (drop n fs)" "same_payload (bp_heap p) h" "queue_may_add q = queue_may_add (bp_queue p)"
    using fq.pop_n_le[OF q n] by blast
  let ?p1 = "p\<lparr>bp_heap := h, bp_queue := q\<rparr>"
  have 1: "pool_blocks ?p1" "pool_cache ?p1" "same_config p ?p1"
    using rep h by (simp_all add: pool_rep_def pool_blocks_def pool_cache_def same_config_def same_payload_sel)
  have "set (take n fs) \<subseteq> set (blocks ?p1)" "distinct (take n fs)"
      "\<And>a. a \<in> set (take n fs) \<Longrightarrow> rc ?p1 a = 0"
    using facts(7,8) same_payload_sel(2)[OF h(2)] by (auto dest: in_set_takeD)
  from take_blocks_spec[OF 1(1,2) this(2,1,3), of env] obtain p' where
      p': "efold (take_block env) (take n fs) ?p1 = Inr p'" "pool_blocks p'" "pool_cache p'"
      and taken: "taken (set (take n fs)) ?p1 p'"
    by blast
  have conf: "same_config p p'" and q': "bp_queue p' = q"
    using taken same_config_trans[OF 1(3)] by (simp_all add: taken_def)
  have fields: "\<And>a. rc p' a = (if a \<in> set (take n fs) then 1 else rc p a)"
      "\<And>a. bh p' a = (if a \<in> set (take n fs) then None else bh p a)"
      "\<And>a. prev_free_block (bp_heap p' a) = prev_free_block (h a)"
      "\<And>a. next_free_block (bp_heap p' a) = next_free_block (h a)"
    using taken same_payload_sel[OF h(2)] by (simp_all add: taken_def)
  have "set (take n fs) \<union> set (drop n fs) = set fs" "set (take n fs) \<inter> set (drop n fs) = {}"
    using facts(7) by (metis append_take_drop_id set_append) (simp add: facts(7) set_take_disj_set_drop_if_distinct)
  then have "a \<in> set (drop n fs) \<longleftrightarrow> a \<in> set (blocks p') \<and> a \<noteq> 0 \<and> rc p' a = 0" for a
    using facts(8)[of a] same_config_sel(4)[OF conf] by (auto simp: fields(1))
  then have "pool_free p' (drop n fs)"
    using h(1) facts(9) same_config_sel(4)[OF conf] queue_rep_links_cong[OF fields(3,4)]
    by (auto simp: pool_free_def q' fields(1))
  with p' have "pool_rep p' (drop n fs)"
    by (simp add: pool_rep_def)
  moreover have "\<not> int n > get_num_free_blocks p"
    using n facts(6) by simp
  ultimately show ?thesis
    using pop p'(1) conf by (simp add: get_new_blocks_def fields(1,2))
qed

lemma get_new_blocks_short:
  "pool_rep p fs \<Longrightarrow> int (length fs) < n \<Longrightarrow> get_new_blocks env p n = Inl ValueError"
  by (simp add: get_new_blocks_def pool_rep_facts(6))

section \<open>Sharing and freeing\<close>

lemma touch_block_spec:
  assumes rep: "pool_rep p fs" and a: "a \<in> set (blocks p)"
  shows "\<exists>p'. touch_block a p = Inr p' \<and> pool_rep p' (filter (\<lambda>b. b \<noteq> a) fs) \<and> same_config p p'
    \<and> (\<forall>x. rc p' x = rc p x + (if x = a then 1 else 0)) \<and> (\<forall>x. bh p' x = bh p x)"
proof -
  note facts = pool_rep_facts[OF rep]
  have q: "queue_rep (bp_heap p) (bp_queue p) fs"
    using rep by (simp add: pool_rep_def pool_free_def)
  obtain h q where hq: "(if rc p a = 0 \<and> \<not> is_null (bp_heap p a)
            then queue_remove (bp_heap p) (bp_queue p) a else Inr (bp_heap p, bp_queue p)) = Inr (h, q)"
      "queue_rep h q (filter (\<lambda>b. b \<noteq> a) fs)" "same_payload (bp_heap p) h"
      "queue_may_add q = queue_may_add (bp_queue p)"
  proof (cases "a \<in> set fs")
    case True
    with fq.rem_in[OF q True] facts(5,8) that show ?thesis by auto
  next
    case False
    then have "filter (\<lambda>b. b \<noteq> a) fs = fs"
      by (auto intro: filter_True)
    with False facts(5)[OF a] facts(8)[of a] a q that show ?thesis by auto
  qed
  have "pool_rep (p\<lparr>bp_heap := add_ref h a 1, bp_queue := q\<rparr>) (filter (\<lambda>b. b \<noteq> a) fs)"
  proof (rule pool_rep_requeue[OF rep _ hq(4)])
    show "queue_rep (add_ref h a 1) q (filter (\<lambda>b. b \<noteq> a) fs)"
      using hq(2) queue_rep_links_cong[of "add_ref h a 1" h] by simp
    show "x \<in> set (filter (\<lambda>b. b \<noteq> a) fs) \<longleftrightarrow> x \<in> set (blocks p) \<and> x \<noteq> 0 \<and> ref_cnt (add_ref h a 1 x) = 0" for x
      using facts(8)[of x] facts(9)[of x] by (auto simp: same_payload_sel[OF hq(3)])
    show "0 \<le> ref_cnt (add_ref h a 1 x)" if "x \<in> set (blocks p)" "x \<noteq> 0" for x
      using facts(9)[OF that] facts(9)[of a] a that by (auto simp: same_payload_sel[OF hq(3)])
  qed (simp_all add: same_payload_sel[OF hq(3)])
  with hq(1) show ?thesis
    by (simp add: touch_block_def same_payload_sel[OF hq(3)] same_config_def)
qed

lemma touch_spec:
  assumes "pool_rep p fs" and "set bs \<subseteq> set (blocks p)"
  shows "\<exists>p'. touch p bs = Inr p' \<and> pool_rep p' (filter (\<lambda>b. b \<notin> set bs) fs) \<and> same_config p p'
    \<and> (\<forall>x. rc p' x = rc p x + int (count_list bs x)) \<and> (\<forall>x. bh p' x = bh p x)"
  using assms
proof (induction bs arbitrary: p fs)
  case Nil
  then show ?case by (simp add: touch_def)
next
  case (Cons b bs)
  obtain p1 where p1: "touch_block b p = Inr p1" "pool_rep p1 (filter (\<lambda>x. x \<noteq> b) fs)" "same_config p p1"
      "\<And>x. rc p1 x = rc p x + (if x = b then 1 else 0)" "\<And>x. bh p1 x = bh p x"
    using touch_block_spec[OF Cons.prems(1), of b] Cons.prems(2) by auto
  have "set bs \<subseteq> set (blocks p1)"
    using Cons.prems(2) same_config_sel(4)[OF p1(3)] by simp
  from Cons.IH[OF p1(2) this] obtain p' where
      p': "touch p1 bs = Inr p'" "pool_rep p' (filter (\<lambda>x. x \<notin> set bs) (filter (\<lambda>x. x \<noteq> b) fs))"
      "same_config p1 p'" "\<And>x. rc p' x = rc p1 x + int (count_list bs x)" "\<And>x. bh p' x = bh p1 x"
    by blast
  have "filter (\<lambda>x. x \<notin> set bs) (filter (\<lambda>x. x \<noteq> b) fs) = filter (\<lambda>x. x \<notin> set (b # bs)) fs"
    by (auto intro: filter_cong)
  with p' p1 same_config_trans[OF p1(3) p'(3)] show ?case
    by (simp add: touch_def)
qed

lemma fold_unref_sel [simp]:
  "ref_cnt (fold (\<lambda>b h. add_ref h b (-1)) bs h x) = ref_cnt (h x) - int (count_list bs x)"
  "block_id (fold (\<lambda>b h. add_ref h b (-1)) bs h x) = block_id (h x)"
  "block_hash (fold (\<lambda>b h. add_ref h b (-1)) bs h x) = block_hash (h x)"
  "is_null (fold (\<lambda>b h. add_ref h b (-1)) bs h x) = is_null (h x)"
  "prev_free_block (fold (\<lambda>b h. add_ref h b (-1)) bs h x) = prev_free_block (h x)"
  "next_free_block (fold (\<lambda>b h. add_ref h b (-1)) bs h x) = next_free_block (h x)"
  by (induction bs arbitrary: h) auto

text \<open>A block table names a block other than the null block at most once.\<close>

definition table_distinct :: "addr list \<Rightarrow> bool" where
  "table_distinct bs \<longleftrightarrow> distinct (filter (\<lambda>a. a \<noteq> 0) bs)"

lemma table_distinct_simps [simp]:
  "table_distinct []"
  "table_distinct (a # bs) \<longleftrightarrow> (a = 0 \<or> a \<notin> set bs) \<and> table_distinct bs"
  "table_distinct (rev bs) = table_distinct bs"
  by (auto simp: table_distinct_def rev_filter[symmetric])

lemma table_distinct_append:
  "table_distinct (xs @ ys) \<longleftrightarrow> table_distinct xs \<and> table_distinct ys \<and> set xs \<inter> set ys \<subseteq> {0}"
  by (auto simp: table_distinct_def)

lemma table_distinct_count:
  "table_distinct bs \<Longrightarrow> x \<noteq> 0 \<Longrightarrow> count_list bs x = (if x \<in> set bs then 1 else 0)"
  by (induction bs) auto

lemma free_blocks_spec:
  assumes rep: "pool_rep p fs" and bs: "set bs \<subseteq> set (blocks p)" and dist: "table_distinct bs"
    and ref: "\<And>a. a \<in> set bs \<Longrightarrow> a \<noteq> 0 \<Longrightarrow> 1 \<le> rc p a"
  shows "\<exists>p'. free_blocks p bs = Inr p'
    \<and> pool_rep p' (fs @ filter (\<lambda>a. a \<noteq> 0 \<and> rc p a = 1) bs) \<and> same_config p p'
    \<and> (\<forall>x. rc p' x = rc p x - int (count_list bs x)) \<and> (\<forall>x. bh p' x = bh p x)"
proof -
  note facts = pool_rep_facts[OF rep]
  let ?h = "fold (\<lambda>b h. add_ref h b (-1)) bs (bp_heap p)"
  let ?new = "filter (\<lambda>a. a \<noteq> 0 \<and> rc p a = 1) bs"
  have new: "filter (\<lambda>b. ref_cnt (?h b) = 0 \<and> \<not> is_null (?h b)) bs = ?new"
    using bs facts(5) table_distinct_count[OF dist] by (intro filter_cong) auto
  have q: "queue_rep ?h (bp_queue p) fs"
    using rep queue_rep_links_cong[of ?h "bp_heap p"] by (simp add: pool_rep_def pool_free_def)
  have "distinct ?new"
    using dist by (metis table_distinct_def distinct_filter filter_filter)
  moreover have "x \<notin> set fs" if "x \<in> set ?new" for x
    using that facts(8)[of x] by simp
  then have "set ?new \<inter> set fs = {}"
    by blast
  moreover have "queue_may_add (bp_queue p) b" if "b \<in> set ?new" for b
    using rep bs that by (auto simp: pool_rep_def pool_blocks_def)
  ultimately obtain h q where hq: "append_n ?h (bp_queue p) ?new = Inr (h, q)" "queue_rep h q (fs @ ?new)"
      "same_payload ?h h" "queue_may_add q = queue_may_add (bp_queue p)"
    using fq.app_n_rep[OF q] by blast
  note sel = same_payload_sel[OF hq(3)]
  have "pool_rep (p\<lparr>bp_heap := h, bp_queue := q\<rparr>) (fs @ ?new)"
  proof (rule pool_rep_requeue[OF rep hq(2,4)])
    fix x
    show "x \<in> set (fs @ ?new) \<longleftrightarrow> x \<in> set (blocks p) \<and> x \<noteq> 0 \<and> ref_cnt (h x) = 0"
      using facts(8)[of x] ref[of x] bs table_distinct_count[OF dist, of x]
      by (cases "x \<in> set bs"; cases "x = 0") (auto simp: sel)
    show "0 \<le> ref_cnt (h x)" if "x \<in> set (blocks p)" "x \<noteq> 0"
      using facts(9)[OF that] ref[of x] that table_distinct_count[OF dist, of x] by (auto simp: sel)
  qed (simp_all add: sel)
  moreover have "free_blocks p bs = Inr (p\<lparr>bp_heap := h, bp_queue := q\<rparr>)"
    unfolding free_blocks_def Let_def new hq(1) by simp
  ultimately show ?thesis
    by (simp add: sel same_config_def)
qed

section \<open>Caching full blocks\<close>

definition group_ok :: "int \<Rightarrow> bool" where
  "group_ok g \<longleftrightarrow> 0 \<le> g \<and> g < 256 ^ 4"

text \<open>The key of a block: its hash followed by the group id in four bytes.\<close>

definition block_key :: "int \<Rightarrow> bytes \<Rightarrow> bytes" where
  "block_key g hash = hash @ be_bytes 4 g"

lemma make_block_hash_block_key: "group_ok g \<Longrightarrow> make_block_hash_with_group_id hash g = Inr (block_key g hash)"
  by (simp add: group_ok_def block_key_def make_block_hash_with_group_id_def to_bytes_def)

lemma block_key_inj: "group_ok g \<Longrightarrow> group_ok g' \<Longrightarrow> block_key g hash = block_key g' hash' \<Longrightarrow> g = g' \<and> hash = hash'"
  using make_block_hash_inj[of hash g "block_key g hash" hash' g'] make_block_hash_block_key by metis

text \<open>\<open>cached f g bs hs\<close>: the hashes \<open>f\<close> of the blocks after the blocks \<open>bs\<close> got the keys for \<open>hs\<close>.\<close>

definition cached :: "(addr \<Rightarrow> bytes option) \<Rightarrow> int \<Rightarrow> addr list \<Rightarrow> bytes list \<Rightarrow> addr \<Rightarrow> bytes option" where
  "cached f g bs hs a =
     (if a = 0 then f a
      else case map_of (zip bs hs) a of None \<Rightarrow> f a | Some hash \<Rightarrow> Some (block_key g hash))"

lemma map_of_zip_table:
  "table_distinct bs \<Longrightarrow> i < length bs \<Longrightarrow> i < length hs \<Longrightarrow> bs ! i \<noteq> 0 \<Longrightarrow>
     map_of (zip bs hs) (bs ! i) = Some (hs ! i)"
proof (induction bs hs arbitrary: i rule: list_induct2')
  case (4 b bs h hs)
  then show ?case by (cases i) (auto simp: in_set_conv_nth)
qed auto

lemma cached_nth:
  "table_distinct bs \<Longrightarrow> i < length bs \<Longrightarrow> i < length hs \<Longrightarrow> bs ! i \<noteq> 0 \<Longrightarrow>
     cached f g bs hs (bs ! i) = Some (block_key g (hs ! i))"
  by (simp add: cached_def map_of_zip_table)

lemma cached_notin: "a \<notin> set bs \<Longrightarrow> cached f g bs hs a = f a"
  by (auto simp: cached_def split: option.split dest!: map_of_SomeD set_zip_leftD)

lemma cached_null [simp]: "cached f g bs hs 0 = f 0"
  by (simp add: cached_def)

lemma cache_block_null:
  "is_null (bp_heap p b) \<Longrightarrow> cache_block env g hs (i, b) (p, nh) = Inr (p, nh)"
  by (simp add: cache_block_def)

lemma cache_block_spec:
  assumes "pool_blocks p" and "pool_cache p" and "enable_caching p" and "b \<in> set (blocks p)" and "b \<noteq> 0"
    and "bh p b = None" and "i < length hs" and "group_ok g"
  shows "\<exists>p'. cache_block env g hs (i, b) (p, nh) =
      Inr (p', nh @ (if enable_kv_cache_events p
                     then [maybe_convert_block_hash (use_int_block_hashes env) (hs ! i)] else []))
    \<and> pool_blocks p' \<and> pool_cache p' \<and> same_config p p' \<and> bp_queue p' = bp_queue p
    \<and> kv_event_queue p' = kv_event_queue p
    \<and> bp_heap p' = (bp_heap p)(b := (bp_heap p b)\<lparr>block_hash := Some (block_key g (hs ! i))\<rparr>)"
proof -
  let ?h = "(bp_heap p)(b := (bp_heap p b)\<lparr>block_hash := Some (block_key g (hs ! i))\<rparr>)"
  let ?p = "p\<lparr>bp_heap := ?h, cached_block_hash_to_block :=
      map_insert (bp_ids p) (cached_block_hash_to_block p) (block_key g (hs ! i)) b\<rparr>"
  have ids: "(\<lambda>a. block_id (?h a)) = bp_ids p" and hash: "(\<lambda>a. block_hash (?h a)) = (bh p)(b := Some (block_key g (hs ! i)))"
    by auto
  have "bp_ids p b = int b" and nn: "\<not> is_null (bp_heap p b)"
    using assms(1,4,5) by (auto simp: pool_blocks_def)
  then have "bm.consistent (bp_ids p) (map_insert (bp_ids p) (cached_block_hash_to_block p) (block_key g (hs ! i)) b)
      ((bh p)(b := Some (block_key g (hs ! i))))"
    using assms(2,6) bm.consistent_ins[of "bp_ids p"] by (simp add: pool_cache_def)
  then have "bm.consistent (bp_ids ?p) (cached_block_hash_to_block ?p) (bh ?p)"
    by (simp add: hash ids del: fun_upd_apply)
  then have "pool_cache ?p"
    using assms(2-5) unfolding pool_cache_def by (simp split: if_split)
  moreover have "pool_blocks ?p" "same_config p ?p"
    using assms(1) by (auto simp: pool_blocks_def same_config_def)
  moreover have "cache_block env g hs (i, b) (p, nh) =
      Inr (?p, nh @ (if enable_kv_cache_events p
                     then [maybe_convert_block_hash (use_int_block_hashes env) (hs ! i)] else []))"
    using nn assms(6,7) make_block_hash_block_key[OF assms(8), of "hs ! i"]
    by (simp add: cache_block_def py_nth_nat set_block_hash_def ids del: fun_upd_apply)
  ultimately show ?thesis
    by (intro exI[of _ ?p]) simp
qed

text \<open>\<open>hashed bs g hs p p'\<close>: the blocks \<open>bs\<close> got the keys for \<open>hs\<close>, nothing else changed.\<close>

definition hashed :: "addr list \<Rightarrow> int \<Rightarrow> bytes list \<Rightarrow> block_pool \<Rightarrow> block_pool \<Rightarrow> bool" where
  "hashed bs g hs p p' \<longleftrightarrow> same_config p p' \<and> bp_queue p' = bp_queue p \<and> kv_event_queue p' = kv_event_queue p
     \<and> (\<forall>a. rc p' a = rc p a) \<and> (\<forall>a. bh p' a = cached (bh p) g bs hs a)
     \<and> (\<forall>a. prev_free_block (bp_heap p' a) = prev_free_block (bp_heap p a))
     \<and> (\<forall>a. next_free_block (bp_heap p' a) = next_free_block (bp_heap p a))"

lemma hashed_Cons_null: "hashed bs g (tl hs) p p' \<Longrightarrow> hashed (0 # bs) g hs p p'"
  by (cases hs) (auto simp: hashed_def cached_def)

lemma hashed_Cons:
  assumes "hashed bs g hs p1 p'" and "same_config p p1" and "bp_queue p1 = bp_queue p"
    and "kv_event_queue p1 = kv_event_queue p"
    and "bp_heap p1 = (bp_heap p)(b := (bp_heap p b)\<lparr>block_hash := Some (block_key g x)\<rparr>)"
    and "b \<noteq> 0" and "b \<notin> set bs"
  shows "hashed (b # bs) g (x # hs) p p'"
proof -
  have "cached (bh p1) g bs hs a = cached (bh p) g (b # bs) (x # hs) a" for a
  proof (cases "a = b")
    case True
    then have "cached (bh p1) g bs hs a = bh p1 b"
      using assms(7) by (simp add: cached_notin)
    with True assms(5,6) show ?thesis by (simp add: cached_def)
  next
    case False
    with assms(5) show ?thesis by (simp add: cached_def)
  qed
  then show ?thesis
    using assms same_config_trans by (auto simp: hashed_def)
qed

lemma cache_loop_spec:
  assumes "pool_blocks p" and "pool_cache p" and "enable_caching p" and "set bs \<subseteq> set (blocks p)"
    and "table_distinct bs" and "\<And>a. a \<in> set bs \<Longrightarrow> bh p a = None"
    and "i + length bs \<le> length hs" and "group_ok g"
  shows "\<exists>p'. efold (cache_block env g hs) (enumerate i bs) (p, nh) =
      Inr (p', nh @ (if enable_kv_cache_events p
                     then map (\<lambda>(b, x). maybe_convert_block_hash (use_int_block_hashes env) x)
                            (filter (\<lambda>(b, x). b \<noteq> 0) (zip bs (drop i hs))) else []))
    \<and> pool_blocks p' \<and> pool_cache p' \<and> hashed bs g (drop i hs) p p'"
  using assms
proof (induction bs arbitrary: i p nh)
  case Nil
  then show ?case by (simp add: hashed_def cached_def)
next
  case (Cons b bs)
  have drop: "drop i hs = hs ! i # drop (Suc i) hs"
    using Cons.prems(7) by (simp add: Cons_nth_drop_Suc)
  show ?case
  proof (cases "b = 0")
    case True
    then have "is_null (bp_heap p b)"
      using Cons.prems(1,4) by (auto simp: pool_blocks_def)
    then have "cache_block env g hs (i, b) (p, nh) = Inr (p, nh)"
      by (rule cache_block_null)
    with Cons.IH[of p "Suc i" nh] Cons.prems show ?thesis
      using hashed_Cons_null[of bs g "drop i hs" p] by (fastforce simp: drop True)
  next
    case False
    have nin: "b \<notin> set bs" and b: "b \<in> set (blocks p)" and i: "i < length hs"
      using Cons.prems False by auto
    let ?nh = "nh @ (if enable_kv_cache_events p
                     then [maybe_convert_block_hash (use_int_block_hashes env) (hs ! i)] else [])"
    obtain p1 where p1: "cache_block env g hs (i, b) (p, nh) = Inr (p1, ?nh)"
        "pool_blocks p1" "pool_cache p1" "same_config p p1" "bp_queue p1 = bp_queue p"
        "kv_event_queue p1 = kv_event_queue p"
        "bp_heap p1 = (bp_heap p)(b := (bp_heap p b)\<lparr>block_hash := Some (block_key g (hs ! i))\<rparr>)"
      using cache_block_spec[OF Cons.prems(1-3) b False Cons.prems(6) i Cons.prems(8), of env nh] by force
    have "\<exists>p'. efold (cache_block env g hs) (enumerate (Suc i) bs) (p1, ?nh) =
      Inr (p', ?nh @ (if enable_kv_cache_events p1
                     then map (\<lambda>(b, x). maybe_convert_block_hash (use_int_block_hashes env) x)
                            (filter (\<lambda>(b, x). b \<noteq> 0) (zip bs (drop (Suc i) hs))) else []))
      \<and> pool_blocks p' \<and> pool_cache p' \<and> hashed bs g (drop (Suc i) hs) p1 p'"
      using Cons.prems p1(2,3,7) nin same_config_sel[OF p1(4)] by (intro Cons.IH) auto
    then obtain p' where p': "efold (cache_block env g hs) (enumerate (Suc i) bs) (p1, ?nh) =
      Inr (p', ?nh @ (if enable_kv_cache_events p1
                     then map (\<lambda>(b, x). maybe_convert_block_hash (use_int_block_hashes env) x)
                            (filter (\<lambda>(b, x). b \<noteq> 0) (zip bs (drop (Suc i) hs))) else []))"
        "pool_blocks p'" "pool_cache p'" "hashed bs g (drop (Suc i) hs) p1 p'"
      by blast
    have "hashed (b # bs) g (drop i hs) p p'"
      unfolding drop by (rule hashed_Cons[OF p'(4) p1(4-7) False nin])
    moreover have "enable_kv_cache_events p1 = enable_kv_cache_events p"
      using p1(4) by (simp add: same_config_def)
    ultimately show ?thesis
      using p1(1) p'(1-3) False by (simp add: drop)
  qed
qed

text \<open>The hashes of a request at a block size, as one list.\<close>

definition hashes_list :: "block_hash_list \<Rightarrow> bytes list" where
  "hashes_list l = hashes_from l 0"

lemma hashes_from_drop:
  assumes "hashes_at_block_size hs hbs bsz = Inr l" and "0 < hbs" and "0 < bsz"
  shows "hashes_from l (int k) = drop k (hashes_list l)"
proof (cases l)
  case (PlainHashes hs)
  then show ?thesis by (simp add: hashes_list_def hashes_from_def)
next
  case (ScaledHashes s)
  with assms have "0 \<le> scale_factor s"
    by (auto simp: hashes_at_block_size_def make_block_hash_list_def pos_imp_zdiv_nonneg_iff split: if_splits)
  then have "0 \<le> bhl_len s"
    by (cases "scale_factor s = 0") (simp_all add: bhl_len_def pos_imp_zdiv_nonneg_iff)
  with ScaledHashes show ?thesis
    by (simp add: hashes_list_def hashes_from_def bhl_from_drop)
qed

lemma hashes_list_length:
  assumes "hashes_at_block_size hs hbs bsz = Inr l" and "0 < hbs" and "0 < bsz"
  shows "length (hashes_list l) \<le> length hs"
proof (cases l)
  case (PlainHashes hs)
  with assms show ?thesis
    by (auto simp: hashes_list_def hashes_from_def hashes_at_block_size_def ebind_Inr_iff split: if_splits)
next
  case (ScaledHashes s)
  with assms have "bhl_hashes s = hs" "0 \<le> scale_factor s"
    by (auto simp: hashes_at_block_size_def make_block_hash_list_def pos_imp_zdiv_nonneg_iff split: if_splits)
  then have "bhl_len s \<le> int (length hs)"
    using zdiv_mono2[of "int (length hs)" 1 "scale_factor s"]
    by (cases "scale_factor s = 0") (simp_all add: bhl_len_def)
  with ScaledHashes show ?thesis
    by (simp add: hashes_list_def hashes_from_def bhl_from_def)
qed

lemma hashes_nth_total: "0 < k \<Longrightarrow> k \<le> length (hashes_list l) \<Longrightarrow> \<exists>x. hashes_nth l (int k - 1) = Inr x"
  by (cases l) (auto simp: hashes_list_def hashes_from_def hashes_nth_def py_nth_def Let_def)

text \<open>Reporting the extra keys never raises, and with sorted items reports the reference keys.\<close>

lemma event_keys_total:
  assumes "0 \<le> c" and "m \<le> length blks"
  shows "\<exists>r' c' ks. efold (event_extra_keys env p blks bsz) [int k..int m - 1] (r, c, acc) = Inr (r', c', ks)
    \<and> memo_only r r'"
  using assms(1)
proof (induction "m - k" arbitrary: k r c acc)
  case 0
  then show ?case by simp
next
  case (Suc d)
  then have k: "k < length blks" and up: "[int k..int m - 1] = int k # [int (Suc k)..int m - 1]"
    using assms(2) by (auto simp: upto_rec1 add.commute)
  obtain r1 c1 acc1 where step: "event_extra_keys env p blks bsz (int k) (r, c, acc) = Inr (r1, c1, acc1)"
      "0 \<le> c1" "memo_only r r1"
  proof -
    obtain ks i' r' where "generate_block_hash_extra_keys env r (int k * bsz) (int k * bsz + bsz) c = Inr (ks, i', r')"
        "0 \<le> i'" "memo_only r r'"
      using generate_block_hash_extra_keys_total[OF Suc.prems] by blast
    then show ?thesis
      using that[of r c acc] that[of r' i' "acc @ [ks]"] k Suc.prems
      by (cases "is_null (bp_heap p (blks ! k))") (simp_all add: event_extra_keys_def py_nth_nat)
  qed
  have "d = m - Suc k"
    using Suc.hyps(2) by simp
  from Suc.hyps(1)[OF this step(2), of r1 acc1] obtain r' c' ks where
      "efold (event_extra_keys env p blks bsz) [int (Suc k)..int m - 1] (r1, c1, acc1) = Inr (r', c', ks)" "memo_only r1 r'"
    by blast
  then show ?case
    using step(1) memo_only_trans[OF step(3)] unfolding up by simp
qed

lemma event_keys_ref:
  assumes "0 < bsz" and "m \<le> length blks" and "mm_sorted (mm_features r0)"
    and "\<And>a. a \<in> set blks \<Longrightarrow> is_null (bp_heap p a) \<longleftrightarrow> a = 0"
    and "memo_only r0 r" and "memo_ok env r" and "cursor_ok (mm_features r0) c (int k * bsz)"
  shows "\<exists>r' c'. efold (event_extra_keys env p blks bsz) [int k..int m - 1] (r, c, acc) =
      Inr (r', c', acc @ map (block_keys env bsz r0) (filter (\<lambda>i. blks ! i \<noteq> 0) [k..<m]))"
  using assms(5-7)
proof (induction "m - k" arbitrary: k r c acc)
  case 0
  then show ?case by simp
next
  case (Suc d)
  then have k: "k < length blks" "k < m" and up: "[int k..int m - 1] = int k # [int (Suc k)..int m - 1]"
    using assms(2) by (auto simp: upto_rec1 add.commute)
  let ?s = "int k * bsz"
  have e: "?s + bsz = int (Suc k) * bsz" "?s \<le> ?s + bsz"
    using assms(1) by (simp_all add: algebra_simps)
  note sel = memo_only_sel[OF Suc.prems(1)] and ref = memo_only_ref[OF Suc.prems(1)]
  obtain c' r' where gen: "generate_block_hash_extra_keys env r ?s (?s + bsz) c = Inr (block_keys env bsz r0 k, c', r')"
      "cursor_ok (mm_features r0) c' (?s + bsz)" "memo_only r r'" "memo_ok env r'"
    using generate_block_hash_extra_keys_ref[of r ?s "?s + bsz" c env] Suc.prems assms(3) e(2)
    by (auto simp: sel(2) ref(1) block_keys_def e(1))
  obtain r1 c1 acc1 where step: "event_extra_keys env p blks bsz (int k) (r, c, acc) = Inr (r1, c1, acc1)"
      "acc1 = acc @ map (block_keys env bsz r0) (filter (\<lambda>i. blks ! i \<noteq> 0) [k])"
      "memo_only r0 r1" "memo_ok env r1" "cursor_ok (mm_features r0) c1 (?s + bsz)"
  proof (cases "blks ! k = 0")
    case True
    then have "event_extra_keys env p blks bsz (int k) (r, c, acc) = Inr (r, c, acc)"
      using k assms(4)[OF nth_mem[OF k(1)]] by (simp add: event_extra_keys_def py_nth_nat)
    with True Suc.prems cursor_ok_mono[OF Suc.prems(3) e(2)] that show ?thesis by simp
  next
    case False
    then have "event_extra_keys env p blks bsz (int k) (r, c, acc) = Inr (r', c', acc @ [block_keys env bsz r0 k])"
      using k assms(4)[OF nth_mem[OF k(1)]] gen(1) by (simp add: event_extra_keys_def py_nth_nat)
    with False gen memo_only_trans[OF Suc.prems(1) gen(3)] that show ?thesis by simp
  qed
  have "d = m - Suc k"
    using Suc.hyps(2) by simp
  from Suc.hyps(1)[OF this step(3,4), of c1 acc1] step(5)[unfolded e(1)]
  obtain r2 c2 where "efold (event_extra_keys env p blks bsz) [int (Suc k)..int m - 1] (r1, c1, acc1) =
      Inr (r2, c2, acc1 @ map (block_keys env bsz r0) (filter (\<lambda>i. blks ! i \<noteq> 0) [Suc k..<m]))"
    by blast
  moreover have "[k..<m] = k # [Suc k..<m]"
    using k(2) by (simp add: upt_conv_Cons)
  ultimately show ?case
    unfolding up by (simp add: step(1,2))
qed

text \<open>The event that reports newly cached blocks.\<close>

definition stored_event ::
  "hash_env \<Rightarrow> request \<Rightarrow> addr list \<Rightarrow> nat \<Rightarrow> nat \<Rightarrow> int \<Rightarrow> int \<Rightarrow> bytes list \<Rightarrow> block_stored \<Rightarrow> bool" where
  "stored_event env r blks k m bsz g hs ev \<longleftrightarrow>
     bs_block_hashes ev =
       map (\<lambda>i. maybe_convert_block_hash (use_int_block_hashes env) (hs ! i)) (filter (\<lambda>i. blks ! i \<noteq> 0) [k..<m])
     \<and> token_ids ev = py_slice (all_token_ids r) (nat (int k * bsz)) (nat (int m * bsz))
     \<and> bs_block_size ev = bsz \<and> bs_group_idx ev = g
     \<and> (mm_sorted (mm_features r) \<and> memo_ok env r \<longrightarrow>
          extra_keys ev =
            (let ks = map (block_keys env bsz r) (filter (\<lambda>i. blks ! i \<noteq> 0) [k..<m])
             in if ks = [] then None else Some ks))"

lemma zip_slice_filter:
  assumes "m \<le> length blks" and "m \<le> length hs" and "k \<le> m"
  shows "map (\<lambda>(b, x). f x) (filter (\<lambda>(b, x). b \<noteq> 0) (zip (py_slice blks k m) (drop k hs)))
    = map (\<lambda>i. f (hs ! i)) (filter (\<lambda>i. blks ! i \<noteq> (0::nat)) [k..<m])"
proof -
  have "zip (py_slice blks k m) (drop k hs) = map (\<lambda>i. (blks ! i, hs ! i)) [k..<m]"
    using assms by (intro nth_equalityI) (auto simp: py_slice_def)
  then show ?thesis
    by (simp add: filter_map o_def)
qed

lemma cache_full_blocks_spec:
  assumes rep: "pool_rep p fs" and caching: "enable_caching p"
    and blks: "set blks \<subseteq> set (blocks p)" "m \<le> length blks"
    and dist: "table_distinct (py_slice blks k m)"
    and fresh: "\<And>a. a \<in> set (py_slice blks k m) \<Longrightarrow> bh p a = None"
    and l: "hashes_at_block_size (block_hashes r) (hash_block_size p) bsz = Inr l" "m \<le> length (hashes_list l)"
    and pos: "0 < hash_block_size p" "0 < bsz" and g: "group_ok g"
  shows "\<exists>p' r'. cache_full_blocks env p r blks (int k) (int m) bsz g = Inr (p', r')
    \<and> pool_rep p' fs \<and> same_config p p' \<and> memo_only r r' \<and> (\<forall>a. rc p' a = rc p a)
    \<and> (\<forall>a. bh p' a = cached (bh p) g (py_slice blks k m) (drop k (hashes_list l)) a)
    \<and> (if k < m \<and> enable_kv_cache_events p
       then \<exists>ev. kv_event_queue p' = kv_event_queue p @ [BlockStored ev]
              \<and> stored_event env r blks k m bsz g (hashes_list l) ev
       else kv_event_queue p' = kv_event_queue p)"
proof (cases "k < m")
  case False
  then show ?thesis
    using rep by (simp add: cache_full_blocks_def py_slice_def cached_def)
next
  case True
  note facts = pool_rep_facts[OF rep]
  let ?hs = "hashes_list l" and ?new = "py_slice blks k m"
  let ?conv = "maybe_convert_block_hash (use_int_block_hashes env)"
  let ?nh = "map (\<lambda>i. ?conv (?hs ! i)) (filter (\<lambda>i. blks ! i \<noteq> 0) [k..<m])"
  have "set ?new \<subseteq> set (blocks p)"
    using blks(1) by (auto simp: py_slice_def dest: in_set_takeD in_set_dropD)
  moreover have "0 + length ?new \<le> length (drop k ?hs)"
    using l(2) blks(2) by (auto simp: py_slice_def)
  ultimately obtain p1 where p1: "efold (cache_block env g (drop k ?hs)) (enumerate 0 ?new) (p, []) =
      Inr (p1, if enable_kv_cache_events p then ?nh else [])" "pool_blocks p1" "pool_cache p1"
      "hashed ?new g (drop k ?hs) p p1"
    using cache_loop_spec[of p ?new 0 "drop k ?hs" g env "[]"] rep caching dist fresh g
      zip_slice_filter[OF blks(2) l(2), of k ?conv] True
    by (auto simp: pool_rep_def)
  then have conf: "same_config p p1" and fields: "\<forall>a. rc p1 a = rc p a"
      "\<forall>a. bh p1 a = cached (bh p) g ?new (drop k ?hs) a"
    by (simp_all add: hashed_def)
  have rep1: "pool_rep p1 fs"
  proof -
    have "queue_rep (bp_heap p1) (bp_queue p) fs = queue_rep (bp_heap p) (bp_queue p) fs"
      using p1(4) by (intro queue_rep_links_cong) (simp_all add: hashed_def)
    then have "pool_free p1 fs"
      using rep p1(4) same_config_sel(4)[OF conf] by (simp add: pool_rep_def pool_free_def hashed_def)
    with p1 show ?thesis by (simp add: pool_rep_def)
  qed
  have guard: "int (length (block_hashes r)) \<ge> int m"
    using hashes_list_length[OF l(1) pos] l(2) by simp
  note unfold = cache_full_blocks_def Let_def nat_int l(1) hashes_from_drop[OF l(1) pos] p1(1) ebind_simps prod.case
  show ?thesis
  proof (cases "enable_kv_cache_events p")
    case False
    then have "cache_full_blocks env p r blks (int k) (int m) bsz g = Inr (p1, r)"
      using True guard conf unfolding unfold by (simp add: same_config_def)
    with rep1 conf fields False p1(4) show ?thesis
      by (simp add: hashed_def)
  next
    case ev: True
    then have ev1: "enable_kv_cache_events p1"
      using conf by (simp add: same_config_def)
    obtain parent where parent: "(if int k = 0 then Inr None
        else ebind (hashes_nth l (int k - 1)) (\<lambda>x. Inr (Some (?conv x)))) = Inr parent"
      using hashes_nth_total[of k l] True l(2) by (cases "k = 0") auto
    obtain r' c' ks where keys: "efold (event_extra_keys env p1 blks bsz) [int k..int m - 1] (r, 0, []) = Inr (r', c', ks)"
        "memo_only r r'"
      using event_keys_total[of 0 m blks env p1 bsz k r "[]"] blks(2) by auto
    have ks: "ks = map (block_keys env bsz r) (filter (\<lambda>i. blks ! i \<noteq> 0) [k..<m])"
      if "mm_sorted (mm_features r)" "memo_ok env r"
    proof -
      have "\<And>a. a \<in> set blks \<Longrightarrow> is_null (bp_heap p1 a) \<longleftrightarrow> a = 0"
        using blks(1) facts(5) conf by (auto simp: same_config_def)
      moreover have "cursor_ok (mm_features r) 0 (int k * bsz)"
        by (auto simp: cursor_ok_def)
      ultimately show ?thesis
        using event_keys_ref[OF pos(2) blks(2) that(1), of p1 r env 0 k "[]"] that(2) keys(1) by auto
    qed
    let ?ev = "\<lparr>bs_block_hashes = ?nh, parent_block_hash = parent,
                 token_ids = py_slice (all_token_ids r') (nat (int k * bsz)) (nat (int m * bsz)),
                 bs_block_size = bsz, lora_id = map_option lora_int_id (lora_request r'), bs_medium = ''GPU'',
                 bs_lora_name = map_option lora_name (lora_request r'),
                 extra_keys = (if ks = [] then None else Some ks), bs_group_idx = g\<rparr>"
    have "cache_full_blocks env p r blks (int k) (int m) bsz g =
        Inr (p1\<lparr>kv_event_queue := kv_event_queue p1 @ [BlockStored ?ev]\<rparr>, r')"
      using True guard ev ev1 unfolding unfold
      by (simp only: parent keys(1) ebind_simps prod.case not_le[symmetric] not_True_eq_False if_True if_False simp_thms
          of_nat_le_iff)
    moreover have "stored_event env r blks k m bsz g ?hs ?ev"
      using ks memo_only_sel(1)[OF keys(2)] by (simp add: stored_event_def Let_def)
    moreover have "pool_rep (p1\<lparr>kv_event_queue := kv_event_queue p1 @ [BlockStored ?ev]\<rparr>) fs"
      using rep1 by (simp add: pool_rep_def pool_blocks_def pool_free_def pool_cache_def)
    moreover have "same_config p (p1\<lparr>kv_event_queue := kv_event_queue p1 @ [BlockStored ?ev]\<rparr>)"
      using conf by (simp add: same_config_def)
    ultimately show ?thesis
      using fields keys(2) ev True p1(4) by (simp add: hashed_def)
  qed
qed

section \<open>Lookup, explicit eviction and reset\<close>

lemma get_cached_block_spec:
  assumes rep: "pool_rep p fs" and gs: "\<forall>g \<in> set gs. group_ok g"
  shows "\<exists>res. get_cached_block p x gs = Inr res
    \<and> (case res of
         None \<Rightarrow> \<exists>g \<in> set gs. \<forall>a. bh p a \<noteq> Some (block_key g x)
       | Some bs \<Rightarrow> list_all2 (\<lambda>g a. bh p a = Some (block_key g x)) gs bs)"
  using gs
proof (induction gs)
  case Nil
  then show ?case by simp
next
  case (Cons g gs)
  have cons: "bm.consistent (bp_ids p) (cached_block_hash_to_block p) (bh p)"
    using rep by (simp add: pool_rep_def pool_cache_def)
  obtain blk where blk: "get_one_block (cached_block_hash_to_block p) (block_key g x) = Inr blk"
      "blk = None \<longleftrightarrow> (\<forall>a. bh p a \<noteq> Some (block_key g x))"
    using bm.lookup_total[OF cons] by blast
  have key: "make_block_hash_with_group_id x g = Inr (block_key g x)"
    using Cons.prems by (simp add: make_block_hash_block_key)
  show ?case
  proof (cases blk)
    case None
    with blk key show ?thesis by auto
  next
    case (Some a)
    then have "bh p a = Some (block_key g x)"
      using bm.lookup_hit[OF cons] blk(1) by blast
    moreover obtain res where "get_cached_block p x gs = Inr res"
        "case res of None \<Rightarrow> \<exists>g \<in> set gs. \<forall>a. bh p a \<noteq> Some (block_key g x)
         | Some bs \<Rightarrow> list_all2 (\<lambda>g a. bh p a = Some (block_key g x)) gs bs"
      using Cons by auto
    ultimately show ?thesis
      using Some blk(1) key by (cases res) auto
  qed
qed

lemma maybe_evict_rep:
  assumes "pool_rep p fs" and "a \<in> set (blocks p)" and "maybe_evict_cached_block env p a = (b, p')"
  shows "pool_rep p' fs \<and> same_config p p' \<and> b = (bh p a \<noteq> None)
    \<and> (\<forall>x. rc p' x = rc p x) \<and> (\<forall>x. bh p' x = (if x = a then None else bh p x))"
proof -
  have p': "b = (bh p a \<noteq> None)" "pool_blocks p'" "pool_cache p'" "same_config p p'"
      "bp_heap p' = reset_hash (bp_heap p) a" "bp_queue p' = bp_queue p"
    using maybe_evict_spec[of p a env] assms by (auto simp: pool_rep_def)
  moreover have "queue_rep (reset_hash (bp_heap p) a) (bp_queue p) fs = queue_rep (bp_heap p) (bp_queue p) fs"
    by (rule queue_rep_links_cong) simp_all
  ultimately have "pool_free p' fs"
    using assms(1) same_config_sel(4)[OF p'(4)] by (simp add: pool_rep_def pool_free_def)
  with p' show ?thesis by (simp add: pool_rep_def)
qed

lemma evict_blocks_spec:
  assumes "pool_rep p fs" and "\<forall>i \<in> set ids. 0 \<le> i \<and> i < num_gpu_blocks p"
  shows "\<exists>p'. evict_blocks env p ids = Inr p' \<and> pool_rep p' fs \<and> same_config p p'
    \<and> (\<forall>x. rc p' x = rc p x) \<and> (\<forall>x. bh p' x = (if int x \<in> set ids then None else bh p x))"
  using assms
proof (induction ids arbitrary: p)
  case Nil
  then show ?case by (simp add: evict_blocks_def)
next
  case (Cons i ids)
  have len: "num_gpu_blocks p = int (length (blocks p))" and nth: "\<forall>j < length (blocks p). blocks p ! j = j"
    using Cons.prems(1) by (simp_all add: pool_rep_def pool_blocks_def)
  have i: "0 \<le> i" "nat i < length (blocks p)"
    using Cons.prems(2) len by auto
  obtain b p1 where ev: "maybe_evict_cached_block env p (nat i) = (b, p1)"
    by (cases "maybe_evict_cached_block env p (nat i)")
  have p1: "pool_rep p1 fs" "same_config p p1" "\<forall>x. rc p1 x = rc p x"
      "\<forall>x. bh p1 x = (if x = nat i then None else bh p x)"
    using maybe_evict_rep[OF Cons.prems(1) _ ev] i(2) nth nth_mem[OF i(2)] by auto
  have "evict_block_id env i p = Inr p1"
    using i nth ev by (simp add: evict_block_id_def py_nth_def Let_def)
  moreover obtain p' where "evict_blocks env p1 ids = Inr p'" "pool_rep p' fs" "same_config p1 p'"
      "\<forall>x. rc p' x = rc p1 x" "\<forall>x. bh p' x = (if int x \<in> set ids then None else bh p1 x)"
    using Cons.IH[OF p1(1)] Cons.prems(2) same_config_sel(1)[OF p1(2)] by auto
  ultimately show ?case
    using p1 i(1) same_config_trans[OF p1(2)] by (auto simp: evict_blocks_def)
qed

lemma fold_reset_hash_sel [simp]:
  "block_hash (fold (\<lambda>b h. reset_hash h b) bs h x) = (if x \<in> set bs then None else block_hash (h x))"
  "block_id (fold (\<lambda>b h. reset_hash h b) bs h x) = block_id (h x)"
  "ref_cnt (fold (\<lambda>b h. reset_hash h b) bs h x) = ref_cnt (h x)"
  "is_null (fold (\<lambda>b h. reset_hash h b) bs h x) = is_null (h x)"
  "prev_free_block (fold (\<lambda>b h. reset_hash h b) bs h x) = prev_free_block (h x)"
  "next_free_block (fold (\<lambda>b h. reset_hash h b) bs h x) = next_free_block (h x)"
  by (induction bs arbitrary: h) auto

lemma pool_free_all:
  assumes "pool_rep p fs"
  shows "num_gpu_blocks p - get_num_free_blocks p = 1 \<longleftrightarrow> (\<forall>a \<in> set (blocks p). a \<noteq> 0 \<longrightarrow> rc p a = 0)"
proof -
  note facts = pool_rep_facts[OF assms]
  have n: "num_gpu_blocks p = int (length (blocks p))" "0 < length (blocks p)"
    using assms by (simp_all add: pool_rep_def pool_blocks_def)
  have sub: "set fs \<subseteq> {1..<length (blocks p)}"
    using facts(1,8) by (auto simp: Suc_le_eq)
  have "num_gpu_blocks p - get_num_free_blocks p = 1 \<longleftrightarrow> card (set fs) = card {1..<length (blocks p)}"
  proof -
    have "card (set fs) = length fs"
      using facts(7) by (rule distinct_card)
    with n facts(6) show ?thesis by (cases "length (blocks p)") auto
  qed
  also have "\<dots> \<longleftrightarrow> set fs = {1..<length (blocks p)}"
    using sub by (metis card_subset_eq finite_atLeastLessThan)
  also have "\<dots> \<longleftrightarrow> (\<forall>a \<in> set (blocks p). a \<noteq> 0 \<longrightarrow> a \<in> set fs)"
    using sub facts(1) by auto
  finally show ?thesis
    using facts(8) by blast
qed

lemma pool_reset_spec:
  assumes rep: "pool_rep p fs" and reset: "pool_reset_prefix_cache p = (b, p')"
  shows "pool_rep p' fs \<and> same_config p p' \<and> (\<forall>x. rc p' x = rc p x)
    \<and> b = (\<forall>a \<in> set (blocks p). a \<noteq> 0 \<longrightarrow> rc p a = 0)
    \<and> (\<forall>x. bh p' x = (if b then None else bh p x))"
proof (cases "num_gpu_blocks p - get_num_free_blocks p = 1")
  case False
  with reset have "b = False" "p' = p"
    by (auto simp: pool_reset_prefix_cache_def Let_def)
  with False pool_free_all[OF rep] rep show ?thesis by simp
next
  case True
  note facts = pool_rep_facts[OF rep]
  let ?h = "fold (\<lambda>b h. reset_hash h b) (blocks p) (bp_heap p)"
  have none: "block_hash (?h x) = None" for x
    using facts(10)[of x] by (cases "bh p x") auto
  have q: "queue_rep ?h (bp_queue p) fs"
    using rep queue_rep_links_cong[of ?h "bp_heap p"] by (simp add: pool_rep_def pool_free_def)
  have "b" and heap: "bp_heap p' = ?h" and rest: "blocks p' = blocks p" "bp_queue p' = bp_queue p"
      "cached_block_hash_to_block p' = []" "num_gpu_blocks p' = num_gpu_blocks p" "null_block p' = null_block p"
      and conf: "same_config p p'"
    using reset True by (auto simp: pool_reset_prefix_cache_def Let_def same_config_def split: if_splits)
  have "bm.consistent (bp_ids p') [] (bh p')"
    unfolding heap by (simp add: bm.consistent_def map_wf_def map_entries_def none del: fold_reset_hash_sel(1))
  then have "pool_rep p' fs"
    using rep q none heap rest facts
    by (simp add: pool_rep_def pool_blocks_def pool_free_def pool_cache_def del: fold_reset_hash_sel(1))
  with True \<open>b\<close> conf pool_free_all[OF rep] none heap show ?thesis by simp
qed

end
