(* ===== verification/KV_Spec.thy ===== *)
theory KV_Spec
  imports KV_Prelude
begin

text \<open>
  KV cache specs (\<^verbatim>\<open>vllm/v1/kv_cache_interface.py\<close>): the class hierarchy of per-layer specs as one
  datatype, page sizes, admission caps, maximal memory use, merging of the specs of a group, and
  the uniformity test. \<^verbatim>\<open>get_dtype_size\<close> asks PyTorch for the element size, so it is the field
  \<open>dtype_size\<close> of the environment.
\<close>

section \<open>Specs\<close>

datatype kv_quant_mode = QUANT_NONE | FP8_PER_TENSOR | INT8_PER_TOKEN_HEAD | FP8_PER_TOKEN_HEAD | NVFP4

datatype torch_dtype = Float32 | Float16 | BFloat16 | Int8 | UInt8 | Float8

definition is_per_token_head :: "kv_quant_mode \<Rightarrow> bool" where
  "is_per_token_head m \<longleftrightarrow> m \<in> {INT8_PER_TOKEN_HEAD, FP8_PER_TOKEN_HEAD}"

definition is_nvfp4 :: "kv_quant_mode \<Rightarrow> bool" where
  "is_nvfp4 m \<longleftrightarrow> m = NVFP4"

definition get_kv_quant_mode :: "string \<Rightarrow> kv_quant_mode" where
  "get_kv_quant_mode kv_cache_dtype =
     (if kv_cache_dtype = ''int8_per_token_head'' then INT8_PER_TOKEN_HEAD
      else if kv_cache_dtype = ''fp8_per_token_head'' then FP8_PER_TOKEN_HEAD
      else if kv_cache_dtype = ''nvfp4'' then NVFP4
      else if take 3 kv_cache_dtype = ''fp8'' then FP8_PER_TENSOR
      else QUANT_NONE)"

definition is_quantized_kv_cache :: "string \<Rightarrow> bool" where
  "is_quantized_kv_cache s \<longleftrightarrow> get_kv_quant_mode s \<noteq> QUANT_NONE"

definition kv_cache_uses_per_token_head_scales :: "string \<Rightarrow> bool" where
  "kv_cache_uses_per_token_head_scales s \<longleftrightarrow> is_per_token_head (get_kv_quant_mode s)"

text \<open>The fields of \<^verbatim>\<open>AttentionSpec\<close>, and those that its subclasses add.\<close>

record attention_spec =
  a_block_size :: int
  num_kv_heads :: int
  head_size :: int
  a_dtype :: torch_dtype
  a_quant_mode :: kv_quant_mode
  page_size_padded :: "int option"

record full_fields =
  head_size_v :: int
  f_sliding_window :: "int option"
  f_attention_chunk_size :: "int option"

record mla_fields =
  cache_dtype_str :: "string option"
  alignment :: "int option"
  compress_ratio :: int
  model_version :: "string option"

record mamba_spec =
  mb_block_size :: int
  shapes :: "int list list"
  dtypes :: "torch_dtype list"
  mb_page_size_padded :: "int option"
  mb_cache_mode :: string
  mb_num_speculative_blocks :: int

datatype kv_cache_spec =
    FullAttentionSpec attention_spec full_fields
  | TQFullAttentionSpec attention_spec full_fields int
  | MLAAttentionSpec attention_spec full_fields mla_fields
  | SinkFullAttentionSpec attention_spec full_fields "int option"
  | ChunkedLocalAttentionSpec attention_spec int
  | SlidingWindowSpec attention_spec int int
  | SlidingWindowMLASpec attention_spec int "int option" mla_fields
  | MambaSpec mamba_spec
  | EncoderOnlyAttentionSpec attention_spec
  | CrossAttentionSpec attention_spec
  | UniformTypeKVCacheSpecs int "(string \<times> kv_cache_spec) list"

text \<open>The \<^verbatim>\<open>isinstance\<close> tests the code makes.\<close>

fun is_full :: "kv_cache_spec \<Rightarrow> bool" where
  "is_full (FullAttentionSpec _ _) = True"
| "is_full (TQFullAttentionSpec _ _ _) = True"
| "is_full (MLAAttentionSpec _ _ _) = True"
| "is_full (SinkFullAttentionSpec _ _ _) = True"
| "is_full _ = False"

fun is_mla :: "kv_cache_spec \<Rightarrow> bool" where
  "is_mla (MLAAttentionSpec _ _ _) = True"
| "is_mla _ = False"

fun is_sliding_mla :: "kv_cache_spec \<Rightarrow> bool" where
  "is_sliding_mla (SlidingWindowMLASpec _ _ _ _) = True"
| "is_sliding_mla _ = False"

text \<open>The window of a \<^verbatim>\<open>SlidingWindowSpec\<close> or a subclass, and the chunk of a chunked-local spec.\<close>

fun window_of :: "kv_cache_spec \<Rightarrow> int option" where
  "window_of (SlidingWindowSpec _ w _) = Some w"
| "window_of (SlidingWindowMLASpec _ w _ _) = Some w"
| "window_of _ = None"

fun chunk_of :: "kv_cache_spec \<Rightarrow> int option" where
  "chunk_of (ChunkedLocalAttentionSpec _ c) = Some c"
| "chunk_of _ = None"

fun mamba_of :: "kv_cache_spec \<Rightarrow> mamba_spec option" where
  "mamba_of (MambaSpec m) = Some m"
| "mamba_of _ = None"

fun is_cross :: "kv_cache_spec \<Rightarrow> bool" where
  "is_cross (CrossAttentionSpec _) = True"
| "is_cross _ = False"

text \<open>The fields shared by all attention specs.\<close>

fun attn_of :: "kv_cache_spec \<Rightarrow> attention_spec option" where
  "attn_of (FullAttentionSpec a _) = Some a"
| "attn_of (TQFullAttentionSpec a _ _) = Some a"
| "attn_of (MLAAttentionSpec a _ _) = Some a"
| "attn_of (SinkFullAttentionSpec a _ _) = Some a"
| "attn_of (ChunkedLocalAttentionSpec a _) = Some a"
| "attn_of (SlidingWindowSpec a _ _) = Some a"
| "attn_of (SlidingWindowMLASpec a _ _ _) = Some a"
| "attn_of (EncoderOnlyAttentionSpec a) = Some a"
| "attn_of (CrossAttentionSpec a) = Some a"
| "attn_of _ = None"

fun full_of :: "kv_cache_spec \<Rightarrow> full_fields option" where
  "full_of (FullAttentionSpec _ f) = Some f"
| "full_of (TQFullAttentionSpec _ f _) = Some f"
| "full_of (MLAAttentionSpec _ f _) = Some f"
| "full_of (SinkFullAttentionSpec _ f _) = Some f"
| "full_of _ = None"

fun spec_block_size :: "kv_cache_spec \<Rightarrow> int" where
  "spec_block_size (MambaSpec m) = mb_block_size m"
| "spec_block_size (UniformTypeKVCacheSpecs b _) = b"
| "spec_block_size s = (case attn_of s of Some a \<Rightarrow> a_block_size a | None \<Rightarrow> 0)"

section \<open>Page sizes\<close>

record spec_env =
  dtype_size :: "torch_dtype \<Rightarrow> int"
  int8kv_aligned_head_stride :: bool

definition nvfp4_kv_cache_full_dim :: "int \<Rightarrow> int" where
  "nvfp4_kv_cache_full_dim d = d div 2 + d div 16"

definition attn_real_page_size :: "spec_env \<Rightarrow> attention_spec \<Rightarrow> int" where
  "attn_real_page_size env a =
     2 * a_block_size a * num_kv_heads a
       * (if is_nvfp4 (a_quant_mode a) then nvfp4_kv_cache_full_dim (head_size a) else head_size a)
       * dtype_size env (a_dtype a)"

text \<open>\<^verbatim>\<open>FullAttentionSpec.real_page_size_bytes\<close>, repeated in \<^verbatim>\<open>SlidingWindowSpec\<close>.\<close>

definition kv_real_page_size :: "spec_env \<Rightarrow> attention_spec \<Rightarrow> int \<Rightarrow> int" where
  "kv_real_page_size env a hv =
     a_block_size a * num_kv_heads a
       * (if is_nvfp4 (a_quant_mode a)
          then nvfp4_kv_cache_full_dim (head_size a) + nvfp4_kv_cache_full_dim hv
          else head_size a + hv)
       * dtype_size env (a_dtype a)"

definition storage_block_size :: "attention_spec \<Rightarrow> mla_fields \<Rightarrow> int" where
  "storage_block_size a m = a_block_size a div compress_ratio m"

definition mla_real_page_size :: "spec_env \<Rightarrow> attention_spec \<Rightarrow> mla_fields \<Rightarrow> int" where
  "mla_real_page_size env a m =
     (if cache_dtype_str m = Some ''fp8_ds_mla'' then
        if model_version m = Some ''deepseek_v4'' then storage_block_size a m * 584
        else a_block_size a * 656
      else storage_block_size a m * num_kv_heads a * head_size a * dtype_size env (a_dtype a))"

definition sliding_mla_real_page_size :: "spec_env \<Rightarrow> attention_spec \<Rightarrow> mla_fields \<Rightarrow> int res" where
  "sliding_mla_real_page_size env a m =
     (if model_version m = Some ''deepseek_v4'' then Inr (storage_block_size a m * 584)
      else if model_version m \<noteq> None then Inl AssertionError
      else Inr (storage_block_size a m * num_kv_heads a * head_size a * dtype_size env (a_dtype a)))"

fun real_page_size_bytes :: "spec_env \<Rightarrow> kv_cache_spec \<Rightarrow> int res" where
  "real_page_size_bytes env (FullAttentionSpec a f) = Inr (kv_real_page_size env a (head_size_v f))"
| "real_page_size_bytes env (SinkFullAttentionSpec a f _) = Inr (kv_real_page_size env a (head_size_v f))"
| "real_page_size_bytes env (TQFullAttentionSpec a f slot) =
     Inr (if slot > 0 then a_block_size a * num_kv_heads a * slot
          else kv_real_page_size env a (head_size_v f))"
| "real_page_size_bytes env (MLAAttentionSpec a _ m) = Inr (mla_real_page_size env a m)"
| "real_page_size_bytes env (SlidingWindowSpec a _ hv) = Inr (kv_real_page_size env a hv)"
| "real_page_size_bytes env (SlidingWindowMLASpec a _ _ m) = sliding_mla_real_page_size env a m"
| "real_page_size_bytes env (ChunkedLocalAttentionSpec a _) = Inr (attn_real_page_size env a)"
| "real_page_size_bytes env (EncoderOnlyAttentionSpec a) = Inr (attn_real_page_size env a)"
| "real_page_size_bytes env (CrossAttentionSpec a) = Inr (attn_real_page_size env a)"
| "real_page_size_bytes env _ = Inl AttributeError"

text \<open>\<^verbatim>\<open>page_size_padded\<close>, if given, must not be smaller than the real page.\<close>

definition pad_page :: "int option \<Rightarrow> int \<Rightarrow> int res" where
  "pad_page padded real =
     (case padded of
        None \<Rightarrow> Inr real
      | Some n \<Rightarrow> if \<not> n \<ge> real then Inl AssertionError else Inr n)"

text \<open>\<^verbatim>\<open>AttentionSpec.page_size_bytes\<close>: per-token-head scales are added to the real page.\<close>

definition attention_page_size_bytes :: "spec_env \<Rightarrow> attention_spec \<Rightarrow> int \<Rightarrow> int res" where
  "attention_page_size_bytes env a real =
     (if \<not> is_per_token_head (a_quant_mode a) then pad_page (page_size_padded a) real
      else
        let size = dtype_size env (a_dtype a);
            padded_head_size = round_up (head_size a + dtype_size env Float32 div size) 16
        in if a_quant_mode a = INT8_PER_TOKEN_HEAD \<and> int8kv_aligned_head_stride env then
             pad_page (page_size_padded a) (2 * a_block_size a * num_kv_heads a * padded_head_size * size)
           else if a_dtype a = Int8 then
             pad_page (page_size_padded a)
               (real + 2 * a_block_size a * num_kv_heads a * (padded_head_size - head_size a) * size)
           else
             pad_page (page_size_padded a)
               (real + 2 * a_block_size a * num_kv_heads a * dtype_size env Float32))"

definition mamba_page_size_bytes :: "spec_env \<Rightarrow> mamba_spec \<Rightarrow> int res" where
  "mamba_page_size_bytes env m =
     pad_page (mb_page_size_padded m)
       (sum_list (map (\<lambda>(shape, dt). prod_list shape * dtype_size env dt) (zip (shapes m) (dtypes m))))"

text \<open>The sum of sizes, any of which may raise.\<close>

fun sum_res :: "int res list \<Rightarrow> int res" where
  "sum_res [] = Inr 0"
| "sum_res (r # rs) = ebind r (\<lambda>x. ebind (sum_res rs) (\<lambda>y. Inr (x + y)))"

fun page_size_bytes :: "spec_env \<Rightarrow> kv_cache_spec \<Rightarrow> int res" where
  "page_size_bytes env (MambaSpec m) = mamba_page_size_bytes env m"
| "page_size_bytes env (UniformTypeKVCacheSpecs _ specs) =
     sum_res (map (\<lambda>(_, s). page_size_bytes env s) specs)"
| "page_size_bytes env s =
     (case attn_of s of
        None \<Rightarrow> Inl NotImplementedError
      | Some a \<Rightarrow> ebind (real_page_size_bytes env s) (attention_page_size_bytes env a))"

text \<open>
  \<^verbatim>\<open>_apply_alignment_padding\<close>, run by the constructors of the two MLA specs: a page that is not a
  multiple of the alignment is padded.
\<close>

definition apply_alignment_padding :: "spec_env \<Rightarrow> kv_cache_spec \<Rightarrow> kv_cache_spec res" where
  "apply_alignment_padding env s =
     (case s of
        MLAAttentionSpec a f m \<Rightarrow>
          (case alignment m of
             None \<Rightarrow> Inr s
           | Some al \<Rightarrow>
               ebind (real_page_size_bytes env s) (\<lambda>n.
                 Inr (if round_up n al \<noteq> n
                      then MLAAttentionSpec (a\<lparr>page_size_padded := Some (round_up n al)\<rparr>) f m else s)))
      | SlidingWindowMLASpec a w hv m \<Rightarrow>
          (case alignment m of
             None \<Rightarrow> Inr s
           | Some al \<Rightarrow>
               ebind (real_page_size_bytes env s) (\<lambda>n.
                 Inr (if round_up n al \<noteq> n
                      then SlidingWindowMLASpec (a\<lparr>page_size_padded := Some (round_up n al)\<rparr>) w hv m else s)))
      | _ \<Rightarrow> Inr s)"

section \<open>Admission caps and memory\<close>

definition sliding_window_cap :: "int \<Rightarrow> int \<Rightarrow> int \<Rightarrow> int \<Rightarrow> int" where
  "sliding_window_cap block_size sliding_window max_num_batched_tokens max_model_len =
     cdiv (min (sliding_window - 1 + max_num_batched_tokens) max_model_len) block_size + 1"

definition chunked_local_cap :: "int \<Rightarrow> int \<Rightarrow> int \<Rightarrow> int \<Rightarrow> int" where
  "chunked_local_cap block_size attention_chunk_size max_num_batched_tokens max_model_len =
     cdiv (min (attention_chunk_size + max_num_batched_tokens) max_model_len) block_size"

text \<open>\<^verbatim>\<open>max_admission_blocks_per_request\<close> exists for the two kinds of specs that recycle blocks.\<close>

fun max_admission_blocks_per_request :: "kv_cache_spec \<Rightarrow> int \<Rightarrow> int \<Rightarrow> int option" where
  "max_admission_blocks_per_request (ChunkedLocalAttentionSpec a c) mb ml =
     Some (chunked_local_cap (a_block_size a) c mb ml)"
| "max_admission_blocks_per_request (SlidingWindowSpec a w _) mb ml =
     Some (sliding_window_cap (a_block_size a) w mb ml)"
| "max_admission_blocks_per_request (SlidingWindowMLASpec a w _ _) mb ml =
     Some (sliding_window_cap (a_block_size a) w mb ml)"
| "max_admission_blocks_per_request _ _ _ = None"

text \<open>The parts of \<^verbatim>\<open>VllmConfig\<close> that the memory estimate reads.\<close>

record mem_config =
  mc_max_model_len :: int
  mc_dcp_world_size :: int
  mc_pcp_world_size :: int
  mc_max_num_batched_tokens :: int
  mc_max_num_encoder_input_tokens :: int
  mc_mamba_cache_mode :: string

definition full_max_blocks :: "mem_config \<Rightarrow> int \<Rightarrow> int" where
  "full_max_blocks cfg block_size =
     (let w = mc_dcp_world_size cfg * mc_pcp_world_size cfg;
          n = (if w > 1 then cdiv (mc_max_model_len cfg) w else mc_max_model_len cfg)
      in cdiv n block_size)"

text \<open>The number of blocks of a \<^verbatim>\<open>MambaSpec\<close> that one request can hold.\<close>

definition mamba_max_blocks :: "mem_config \<Rightarrow> mamba_spec \<Rightarrow> int" where
  "mamba_max_blocks cfg m =
     (if mc_mamba_cache_mode cfg = ''all'' then cdiv (mc_max_model_len cfg) (mb_block_size m)
      else if mc_mamba_cache_mode cfg = ''align'' then 2 + mb_num_speculative_blocks m
      else 1 + mb_num_speculative_blocks m)"

fun max_res :: "int res list \<Rightarrow> int res" where
  "max_res [] = Inl ValueError"
| "max_res [r] = r"
| "max_res (r # rs) = ebind r (\<lambda>x. ebind (max_res rs) (\<lambda>y. Inr (max x y)))"

fun max_memory_usage_bytes :: "spec_env \<Rightarrow> mem_config \<Rightarrow> kv_cache_spec \<Rightarrow> int res" where
  "max_memory_usage_bytes env cfg (MambaSpec m) =
     ebind (mamba_page_size_bytes env m) (\<lambda>n. Inr (mamba_max_blocks cfg m * n))"
| "max_memory_usage_bytes env cfg (EncoderOnlyAttentionSpec a) = Inr 0"
| "max_memory_usage_bytes env cfg (UniformTypeKVCacheSpecs b specs) =
     ebind (max_res (map (\<lambda>(_, s).
              ebind (max_memory_usage_bytes env cfg s) (\<lambda>mem.
              ebind (page_size_bytes env s) (\<lambda>n.
                if n = 0 then Inl ZeroDivisionError else Inr (cdiv mem n)))) specs)) (\<lambda>pages.
     ebind (page_size_bytes env (UniformTypeKVCacheSpecs b specs)) (\<lambda>n. Inr (pages * n)))"
| "max_memory_usage_bytes env cfg s =
     (case max_admission_blocks_per_request s (mc_max_num_batched_tokens cfg) (mc_max_model_len cfg) of
        Some cap \<Rightarrow>
          if window_of s \<noteq> None \<and> mc_dcp_world_size cfg \<noteq> 1 then Inl AssertionError
          else ebind (page_size_bytes env s) (\<lambda>n. Inr (cap * n))
      | None \<Rightarrow>
          if is_cross s
          then ebind (page_size_bytes env s)
                 (\<lambda>n. Inr (cdiv (mc_max_num_encoder_input_tokens cfg) (spec_block_size s) * n))
          else ebind (page_size_bytes env s) (\<lambda>n. Inr (full_max_blocks cfg (spec_block_size s) * n)))"

section \<open>Merging the specs of one group\<close>

definition merge_window_sizes :: "int list \<Rightarrow> int option res" where
  "merge_window_sizes sizes =
     (case remdups sizes of [] \<Rightarrow> Inr None | [w] \<Rightarrow> Inr (Some w) | _ \<Rightarrow> Inl ValueError)"

text \<open>
  The common part of \<^verbatim>\<open>FullAttentionSpec.merge\<close> and \<^verbatim>\<open>SinkFullAttentionSpec.merge\<close>: the merged
  attention fields and full-attention fields.
\<close>

definition merge_full_fields :: "kv_cache_spec list \<Rightarrow> (attention_spec \<times> full_fields) res" where
  "merge_full_fields specs =
     (if \<not> list_all is_full specs then Inl AssertionError
      else if list_ex is_mla specs then Inl AssertionError
      else
        let fs = List.map_filter full_of specs
        in case (List.map_filter attn_of specs, fs) of
             (a # as, f # _) \<Rightarrow>
               ebind (merge_window_sizes (List.map_filter f_sliding_window fs)) (\<lambda>sw.
               ebind (merge_window_sizes (List.map_filter f_attention_chunk_size fs)) (\<lambda>ch.
                 if \<not> list_all (\<lambda>a'. a' = a) (a # as) then Inl AssertionError
                 else if sw \<noteq> None \<and> ch \<noteq> None then Inl AssertionError
                 else Inr (a, \<lparr>head_size_v = head_size_v f, f_sliding_window = sw,
                               f_attention_chunk_size = ch\<rparr>)))
           | _ \<Rightarrow> Inl IndexError)"

definition same_mla :: "mla_fields list \<Rightarrow> bool" where
  "same_mla ms \<longleftrightarrow>
     length (remdups (map cache_dtype_str ms)) = 1
     \<and> length (remdups (map compress_ratio ms)) = 1
     \<and> length (remdups (map model_version ms)) = 1"

fun mla_of :: "kv_cache_spec \<Rightarrow> mla_fields option" where
  "mla_of (MLAAttentionSpec _ _ m) = Some m"
| "mla_of (SlidingWindowMLASpec _ _ _ m) = Some m"
| "mla_of _ = None"

text \<open>
  \<^verbatim>\<open>specs[0].merge(specs)\<close>: the class of the first spec decides which \<^verbatim>\<open>merge\<close> runs. The two MLA
  constructors run without an alignment, so they pad nothing. \<^verbatim>\<open>MLAAttentionSpec.merge\<close> sets
  neither \<^verbatim>\<open>head_size_v\<close> nor the windows, which take their defaults.
\<close>

fun slot_of :: "kv_cache_spec \<Rightarrow> int option" where
  "slot_of (TQFullAttentionSpec _ _ slot) = Some slot"
| "slot_of _ = None"

definition merge :: "kv_cache_spec list \<Rightarrow> kv_cache_spec res" where
  "merge specs =
     (case specs of
        [] \<Rightarrow> Inl IndexError
      | FullAttentionSpec _ _ # _ \<Rightarrow> ebind (merge_full_fields specs) (\<lambda>(a, f). Inr (FullAttentionSpec a f))
      | SinkFullAttentionSpec _ _ sink # _ \<Rightarrow>
          ebind (merge_full_fields specs) (\<lambda>(a, f). Inr (SinkFullAttentionSpec a f sink))
      | TQFullAttentionSpec _ _ slot # _ \<Rightarrow>
          ebind (merge_full_fields specs) (\<lambda>(a, f).
            if list_ex (\<lambda>s. slot_of s = None) specs then Inl AttributeError
            else if \<not> list_all (\<lambda>s. slot_of s = Some slot) specs then Inl AssertionError
            else Inr (TQFullAttentionSpec a f slot))
      | MLAAttentionSpec a _ m # _ \<Rightarrow>
          if \<not> list_all is_mla specs then Inl AssertionError
          else if \<not> same_mla (List.map_filter mla_of specs) then Inl AssertionError
          else Inr (MLAAttentionSpec a
                      \<lparr>head_size_v = head_size a, f_sliding_window = None, f_attention_chunk_size = None\<rparr>
                      (m\<lparr>alignment := None\<rparr>))
      | SlidingWindowMLASpec a w _ m # _ \<Rightarrow>
          if \<not> list_all is_sliding_mla specs then Inl AssertionError
          else if \<not> (same_mla (List.map_filter mla_of specs)
                       \<and> length (remdups (List.map_filter window_of specs)) = 1) then Inl AssertionError
          else Inr (SlidingWindowMLASpec (a\<lparr>a_quant_mode := QUANT_NONE\<rparr>) w None (m\<lparr>alignment := None\<rparr>))
      | s # rest \<Rightarrow> if \<not> list_all (\<lambda>x. x = s) rest then Inl AssertionError else Inr s)"

section \<open>Uniform types\<close>

definition is_uniform_type :: "(string \<times> kv_cache_spec) list \<Rightarrow> bool res" where
  "is_uniform_type kv_cache_specs =
     (let specs = map snd kv_cache_specs
      in if length (remdups (map spec_block_size specs)) > 1 then Inr False
         else case specs of
           [] \<Rightarrow> Inl StopIteration
         | one # _ \<Rightarrow>
             if is_sliding_mla one then
               Inr (list_all (\<lambda>s. is_sliding_mla s \<and> window_of s = window_of one) specs)
             else if is_full one then Inr (list_all is_full specs)
             else if is_cross one then Inr (list_all is_cross specs)
             else if window_of one \<noteq> None then Inr (list_all (\<lambda>s. window_of s = window_of one) specs)
             else if chunk_of one \<noteq> None then Inr (list_all (\<lambda>s. chunk_of s = chunk_of one) specs)
             else if mamba_of one \<noteq> None then
               Inr (list_all (\<lambda>s. mamba_of s \<noteq> None
                      \<and> map_option mb_num_speculative_blocks (mamba_of s)
                        = map_option mb_num_speculative_blocks (mamba_of one)) specs)
             else Inl NotImplementedError)"

definition from_specs :: "(string \<times> kv_cache_spec) list \<Rightarrow> kv_cache_spec option res" where
  "from_specs kv_cache_specs =
     ebind (is_uniform_type kv_cache_specs) (\<lambda>b.
       if \<not> b then Inr None
       else case kv_cache_specs of
         [] \<Rightarrow> Inl StopIteration
       | (_, s) # _ \<Rightarrow> Inr (Some (UniformTypeKVCacheSpecs (spec_block_size s) kv_cache_specs)))"

section \<open>Configuration\<close>

record kv_cache_tensor =
  kt_size :: int
  shared_by :: "string list"

record kv_cache_group_spec =
  layer_names :: "string list"
  g_kv_cache_spec :: kv_cache_spec
  is_eagle_group :: bool

record kv_cache_config =
  num_blocks :: int
  kv_cache_tensors :: "kv_cache_tensor list"
  kv_cache_groups :: "kv_cache_group_spec list"

definition has_mamba_layers :: "kv_cache_config \<Rightarrow> bool" where
  "has_mamba_layers c \<longleftrightarrow> list_ex (\<lambda>g. mamba_of (g_kv_cache_spec g) \<noteq> None) (kv_cache_groups c)"

definition needs_kv_cache_zeroing :: "kv_cache_config \<Rightarrow> bool" where
  "needs_kv_cache_zeroing c = has_mamba_layers c"

section \<open>Lemmas\<close>

lemma pad_page_ge: "pad_page padded real = Inr n \<Longrightarrow> real \<le> n"
  by (auto simp: pad_page_def split: option.splits if_splits)

text \<open>The number of blocks one request can hold under a layer's spec.\<close>

fun spec_max_blocks :: "mem_config \<Rightarrow> kv_cache_spec \<Rightarrow> int" where
  "spec_max_blocks cfg (MambaSpec m) = mamba_max_blocks cfg m"
| "spec_max_blocks cfg s =
     (case max_admission_blocks_per_request s (mc_max_num_batched_tokens cfg) (mc_max_model_len cfg) of
        Some cap \<Rightarrow> cap
      | None \<Rightarrow> if is_cross s then cdiv (mc_max_num_encoder_input_tokens cfg) (spec_block_size s)
                else full_max_blocks cfg (spec_block_size s))"

definition layer_kind_ok :: "kv_cache_spec \<Rightarrow> bool" where
  "layer_kind_ok s \<longleftrightarrow> is_full s \<or> is_cross s \<or> window_of s \<noteq> None \<or> chunk_of s \<noteq> None \<or> mamba_of s \<noteq> None"

lemma max_memory_blocks:
  "layer_kind_ok s \<Longrightarrow> mc_dcp_world_size cfg = 1 \<Longrightarrow> page_size_bytes env s = Inr n \<Longrightarrow>
     max_memory_usage_bytes env cfg s = Inr (spec_max_blocks cfg s * n)"
  by (cases s) (simp_all add: layer_kind_ok_def)

lemma one_remdups: "\<not> length (remdups xs) > 1 \<Longrightarrow> x \<in> set xs \<Longrightarrow> y \<in> set xs \<Longrightarrow> x = y"
  by (metis One_nat_def card_le_Suc0_iff_eq finite_set length_remdups_card_conv not_less)

text \<open>What the accepting branches of \<^verbatim>\<open>is_uniform_type\<close> establish for each layer.\<close>

definition same_kind :: "kv_cache_spec \<Rightarrow> kv_cache_spec \<Rightarrow> bool" where
  "same_kind one s \<longleftrightarrow>
     is_full one \<and> is_full s \<or> is_cross one \<and> is_cross s
     \<or> window_of one \<noteq> None \<and> window_of s = window_of one
     \<or> chunk_of one \<noteq> None \<and> chunk_of s = chunk_of one
     \<or> mamba_of one \<noteq> None \<and> mamba_of s \<noteq> None
       \<and> map_option mb_num_speculative_blocks (mamba_of s) = map_option mb_num_speculative_blocks (mamba_of one)"

lemma same_kind_max_blocks:
  "same_kind one s \<Longrightarrow> spec_block_size s = spec_block_size one \<Longrightarrow>
     spec_max_blocks cfg s = spec_max_blocks cfg one \<and> layer_kind_ok s"
  by (cases one; cases s) (simp_all add: same_kind_def layer_kind_ok_def mamba_max_blocks_def)

lemma uniform_same_kind:
  assumes "is_uniform_type specs = Inr True"
  obtains one where "\<forall>s \<in> snd ` set specs. same_kind one s \<and> spec_block_size s = spec_block_size one"
proof -
  have len: "\<not> length (remdups (map spec_block_size (map snd specs))) > 1"
    using assms by (auto simp: is_uniform_type_def Let_def split: if_splits)
  obtain one rest where one: "map snd specs = one # rest"
    using assms by (cases specs) (auto simp: is_uniform_type_def)
  then have "\<forall>s \<in> set (one # rest). same_kind one s"
    using assms len
    by (cases one) (auto simp: is_uniform_type_def same_kind_def list_all_iff split: if_splits)
  moreover have "\<forall>s \<in> set (one # rest). spec_block_size s = spec_block_size one"
    by (intro ballI one_remdups[OF len[unfolded one]]) auto
  ultimately show ?thesis
    using that[of one] one by (metis list.set_map)
qed

lemma uniform_max_blocks:
  assumes "is_uniform_type specs = Inr True" and "s \<in> snd ` set specs" and "t \<in> snd ` set specs"
  shows "spec_max_blocks cfg s = spec_max_blocks cfg t \<and> layer_kind_ok s"
proof -
  obtain one where "\<forall>s \<in> snd ` set specs. same_kind one s \<and> spec_block_size s = spec_block_size one"
    using uniform_same_kind[OF assms(1)] by blast
  with same_kind_max_blocks[of one s cfg] same_kind_max_blocks[of one t cfg] assms(2,3) show ?thesis
    by auto
qed

lemma map_filter_attn:
  "list_all is_full specs \<Longrightarrow> length (List.map_filter attn_of specs) = length specs
     \<and> (\<forall>i < length specs. attn_of (specs ! i) = Some (List.map_filter attn_of specs ! i))"
proof (induction specs)
  case (Cons s specs)
  then obtain a where "attn_of s = Some a" by (cases s) auto
  with Cons show ?case by (auto simp: List.map_filter_simps nth_Cons split: nat.split)
qed (simp add: List.map_filter_simps)

lemma merge_full_fields_attn:
  assumes "merge_full_fields specs = Inr (a, f)" and "s \<in> set specs"
  shows "is_full s \<and> \<not> is_mla s \<and> attn_of s = Some a"
proof -
  have full: "list_all is_full specs" "\<not> list_ex is_mla specs"
    using assms(1) by (auto simp: merge_full_fields_def split: if_splits)
  have "\<forall>x \<in> set (List.map_filter attn_of specs). x = a"
    using assms(1) full
    by (auto simp: merge_full_fields_def Let_def list_all_iff ebind_Inr_iff split: list.splits if_splits)
  moreover obtain i where "i < length specs" "s = specs ! i"
    using assms(2) by (auto simp: in_set_conv_nth)
  ultimately show ?thesis
    using map_filter_attn[OF full(1)] full assms(2) by (auto simp: list_all_iff list_ex_iff)
qed

lemma merge_full_fields_hv:
  assumes "merge_full_fields specs = Inr (a, f)" and "specs = s # rest" and "full_of s = Some g"
  shows "head_size_v f = head_size_v g"
  using assms
  by (auto simp: merge_full_fields_def Let_def List.map_filter_simps ebind_Inr_iff split: list.splits if_splits)

section \<open>Properties\<close>

text \<open>
  C31. Layers of one uniform type need the same number of blocks: whenever \<^verbatim>\<open>is_uniform_type\<close> accepts
  a set of layer specs, the maximal memory of each layer is the same number of pages of that layer,
  so one block table serves all of them. (Without decode context parallelism, which the sliding
  window specs refuse.)
\<close>

theorem uniform_type_same_blocks:
  assumes "is_uniform_type specs = Inr True" and "mc_dcp_world_size cfg = 1"
  shows "\<exists>k. \<forall>(name, s) \<in> set specs. \<forall>n.
    page_size_bytes env s = Inr n \<longrightarrow> max_memory_usage_bytes env cfg s = Inr (k * n)"
proof (cases specs)
  case Nil
  then show ?thesis by simp
next
  case (Cons x xs)
  have "page_size_bytes env s = Inr n \<Longrightarrow>
      max_memory_usage_bytes env cfg s = Inr (spec_max_blocks cfg (snd x) * n)" if "(name, s) \<in> set specs" for name s n
    using uniform_max_blocks[OF assms(1), of s "snd x" cfg] max_memory_blocks[of s cfg env n] assms(2) that Cons
    by force
  then show ?thesis by blast
qed

definition sample_env :: spec_env where
  "sample_env = \<lparr>dtype_size = (\<lambda>d. case d of Float32 \<Rightarrow> 4 | Float16 \<Rightarrow> 2 | BFloat16 \<Rightarrow> 2 | _ \<Rightarrow> 1),
     int8kv_aligned_head_stride = False\<rparr>"

definition sample_attn :: attention_spec where
  "sample_attn = \<lparr>a_block_size = 16, num_kv_heads = 2, head_size = 64, a_dtype = Float16,
     a_quant_mode = QUANT_NONE, page_size_padded = None\<rparr>"

definition sample_cfg :: mem_config where
  "sample_cfg = \<lparr>mc_max_model_len = 100, mc_dcp_world_size = 1, mc_pcp_world_size = 1,
     mc_max_num_batched_tokens = 32, mc_max_num_encoder_input_tokens = 0, mc_mamba_cache_mode = ''none''\<rparr>"

lemmas spec_eval = sample_env_def sample_attn_def sample_cfg_def attention_page_size_bytes_def
  kv_real_page_size_def is_per_token_head_def is_nvfp4_def pad_page_def

theorem uniform_type_same_blocks_witness:
  "is_uniform_type [(''l0'', SlidingWindowSpec sample_attn 40 64), (''l1'', SlidingWindowSpec sample_attn 40 32)] = Inr True
    \<and> page_size_bytes sample_env (SlidingWindowSpec sample_attn 40 64) = Inr 8192
    \<and> page_size_bytes sample_env (SlidingWindowSpec sample_attn 40 32) = Inr 6144
    \<and> (\<exists>k. max_memory_usage_bytes sample_env sample_cfg (SlidingWindowSpec sample_attn 40 64) = Inr (k * 8192)
         \<and> max_memory_usage_bytes sample_env sample_cfg (SlidingWindowSpec sample_attn 40 32) = Inr (k * 6144))"
proof -
  let ?specs = "[(''l0'', SlidingWindowSpec sample_attn 40 64), (''l1'', SlidingWindowSpec sample_attn 40 32)]"
  have u: "is_uniform_type ?specs = Inr True"
    by (simp add: is_uniform_type_def)
  have pages: "page_size_bytes sample_env (SlidingWindowSpec sample_attn 40 64) = Inr 8192"
      "page_size_bytes sample_env (SlidingWindowSpec sample_attn 40 32) = Inr 6144"
    by (simp_all add: spec_eval)
  have "mc_dcp_world_size sample_cfg = 1"
    by (simp add: sample_cfg_def)
  from uniform_type_same_blocks[OF u this, of sample_env] u pages show ?thesis
    by auto
qed


definition sample_full :: "int \<Rightarrow> kv_cache_spec" where
  "sample_full hv = FullAttentionSpec sample_attn
     \<lparr>head_size_v = hv, f_sliding_window = None, f_attention_chunk_size = None\<rparr>"

lemmas merge_eval = merge_def merge_full_fields_def merge_window_sizes_def List.map_filter_simps sample_full_def Let_def



end
