(* ===== verification/KV_Managers.thy ===== *)
theory KV_Managers
  imports Block_Pool KV_Spec
begin

text \<open>
  The managers of one KV cache group (\<^verbatim>\<open>vllm/v1/core/single_type_kv_cache_manager.py\<close>): the block tables
  of the requests and the operations that grow, share, cache, shrink and free them, for full
  attention, sliding window, chunked local attention, Mamba, cross attention and attention sinks.
  The class of a manager is given by its spec; the shared block pool is passed along. A
  \<^verbatim>\<open>defaultdict\<close> access inserts a missing key, so operations that read a table return the manager.
\<close>

section \<open>State\<close>

datatype manager_class =
    FullAttentionManager
  | SlidingWindowManager
  | ChunkedLocalAttentionManager
  | MambaManager
  | CrossAttentionManager
  | SinkFullAttentionManager

text \<open>\<^verbatim>\<open>spec_manager_map\<close>, keyed by the exact type of the spec.\<close>

fun spec_manager_map :: "kv_cache_spec \<Rightarrow> manager_class res" where
  "spec_manager_map (FullAttentionSpec _ _) = Inr FullAttentionManager"
| "spec_manager_map (TQFullAttentionSpec _ _ _) = Inr FullAttentionManager"
| "spec_manager_map (MLAAttentionSpec _ _ _) = Inr FullAttentionManager"
| "spec_manager_map (SlidingWindowSpec _ _ _) = Inr SlidingWindowManager"
| "spec_manager_map (SlidingWindowMLASpec _ _ _ _) = Inr SlidingWindowManager"
| "spec_manager_map (ChunkedLocalAttentionSpec _ _) = Inr ChunkedLocalAttentionManager"
| "spec_manager_map (MambaSpec _) = Inr MambaManager"
| "spec_manager_map (CrossAttentionSpec _) = Inr CrossAttentionManager"
| "spec_manager_map (SinkFullAttentionSpec _ _ _) = Inr SinkFullAttentionManager"
| "spec_manager_map _ = Inl KeyError"

record kv_manager =
  m_class :: manager_class
  m_spec :: kv_cache_spec
  m_block_size :: int
  m_enable_caching :: bool
  m_max_admission :: "int option"
  new_block_ids :: "int list"
  req_to_blocks :: "(string, addr list) dict"
  num_cached_block :: "(string, int) dict"
  kv_cache_group_id :: int
  m_null_block :: addr
  cached_blocks_this_step :: "bytes list"
  last_state_block_idx :: "(string, int) dict"
  allocated_block_reqs :: "string list"
  sink_blocks :: "addr list"

text \<open>
  \<^verbatim>\<open>get_manager_for_kv_cache_spec\<close> with the constructors. The manager for attention sinks takes its
  blocks out of the free queue.
\<close>

fun sink_len_of :: "kv_cache_spec \<Rightarrow> int option" where
  "sink_len_of (SinkFullAttentionSpec _ _ n) = n"
| "sink_len_of _ = None"

definition make_manager ::
  "kv_cache_spec \<Rightarrow> int \<Rightarrow> int \<Rightarrow> block_pool \<Rightarrow> bool \<Rightarrow> int \<Rightarrow> int \<Rightarrow> int \<Rightarrow> (kv_manager \<times> block_pool) res" where
  "make_manager spec max_num_batched_tokens max_model_len p caching group_id dcp pcp =
     ebind (spec_manager_map spec) (\<lambda>cls.
       let bs = spec_block_size spec * (if dcp * pcp > 1 then dcp * pcp else 1);
           m = \<lparr>m_class = cls, m_spec = spec, m_block_size = bs, m_enable_caching = caching,
                m_max_admission = max_admission_blocks_per_request spec max_num_batched_tokens max_model_len,
                new_block_ids = [], req_to_blocks = [], num_cached_block = [],
                kv_cache_group_id = group_id, m_null_block = null_block p,
                cached_blocks_this_step = [], last_state_block_idx = [], allocated_block_reqs = [],
                sink_blocks = []\<rparr>
       in if cls \<noteq> SinkFullAttentionManager then Inr (m, p)
          else case sink_len_of spec of
            None \<Rightarrow> Inl AssertionError
          | Some n \<Rightarrow>
              if \<not> (n > 0 \<and> n mod bs = 0) then Inl AssertionError
              else ebind (popleft_n (bp_heap p) (bp_queue p) (n div bs)) (\<lambda>(sinks, h, q).
                     Inr (m\<lparr>sink_blocks := sinks\<rparr>, p\<lparr>bp_heap := h, bp_queue := q\<rparr>)))"

text \<open>The block table of a request; storing it.\<close>

definition req_table :: "kv_manager \<Rightarrow> string \<Rightarrow> addr list" where
  "req_table m rid = dget_or [] (req_to_blocks m) rid"

definition set_table :: "kv_manager \<Rightarrow> string \<Rightarrow> addr list \<Rightarrow> kv_manager" where
  "set_table m rid t = m\<lparr>req_to_blocks := dset rid t (req_to_blocks m)\<rparr>"

definition zeroed_kind :: "kv_cache_spec \<Rightarrow> bool" where
  "zeroed_kind s = (case s of FullAttentionSpec _ _ \<Rightarrow> True | TQFullAttentionSpec _ _ _ \<Rightarrow> True | _ \<Rightarrow> False)"

section \<open>Skipped tokens\<close>

definition get_num_skipped_tokens :: "kv_manager \<Rightarrow> int \<Rightarrow> int" where
  "get_num_skipped_tokens m computed =
     (case m_class m of
        SlidingWindowManager \<Rightarrow>
          max 0 (computed - (case window_of (m_spec m) of Some w \<Rightarrow> w | None \<Rightarrow> 0) + 1)
      | ChunkedLocalAttentionManager \<Rightarrow>
          (case chunk_of (m_spec m) of Some c \<Rightarrow> (computed div c) * c | None \<Rightarrow> 0)
      | MambaManager \<Rightarrow> computed - 1
      | _ \<Rightarrow> 0)"

section \<open>Predicting an allocation\<close>

definition get_num_evictable_blocks :: "block_pool \<Rightarrow> addr list \<Rightarrow> int" where
  "get_num_evictable_blocks p bs =
     int (length (filter (\<lambda>b. ref_cnt (bp_heap p b) = 0 \<and> \<not> is_null (bp_heap p b)) bs))"

definition base_num_blocks_to_allocate ::
  "kv_manager \<Rightarrow> block_pool \<Rightarrow> string \<Rightarrow> int \<Rightarrow> addr list \<Rightarrow> int \<Rightarrow> bool \<Rightarrow> int res" where
  "base_num_blocks_to_allocate m p rid ntok new_computed_blocks total_computed_tokens apply_cap =
     (let required = cdiv ntok (m_block_size m);
          required = (case m_max_admission m of
                        Some cap \<Rightarrow> if apply_cap then min required cap else required
                      | None \<Rightarrow> required);
          num_req_blocks = int (length (req_table m rid))
      in if dget (num_cached_block m) rid \<noteq> None then
           if new_computed_blocks \<noteq> [] then Inl AssertionError
           else Inr (max (required - num_req_blocks) 0)
         else
           let num_skipped_tokens = get_num_skipped_tokens m total_computed_tokens;
               num_local_computed_blocks = int (length new_computed_blocks) + num_req_blocks;
               num_skipped_blocks = num_skipped_tokens div m_block_size m;
               num_new_blocks = max (required - max num_skipped_blocks num_local_computed_blocks) 0;
               num_skipped_new_computed_blocks = max 0 (num_skipped_blocks - num_req_blocks)
           in Inr (num_new_blocks
                   + get_num_evictable_blocks p (drop (nat num_skipped_new_computed_blocks) new_computed_blocks)))"

definition mamba_mode :: "kv_manager \<Rightarrow> string" where
  "mamba_mode m = (case mamba_of (m_spec m) of Some s \<Rightarrow> mb_cache_mode s | None \<Rightarrow> [])"

definition num_speculative_blocks :: "kv_manager \<Rightarrow> int" where
  "num_speculative_blocks m = (case mamba_of (m_spec m) of Some s \<Rightarrow> mb_num_speculative_blocks s | None \<Rightarrow> 0)"

definition mamba_num_blocks_to_allocate ::
  "kv_manager \<Rightarrow> block_pool \<Rightarrow> string \<Rightarrow> int \<Rightarrow> addr list \<Rightarrow> int \<Rightarrow> int \<Rightarrow> bool \<Rightarrow> (int \<times> kv_manager) res" where
  "mamba_num_blocks_to_allocate m p rid ntok new_computed_blocks total_computed_tokens main apply_cap =
     (if new_computed_blocks \<noteq> []
         \<and> (case block_hash (bp_heap p (last new_computed_blocks)) of
              Some k \<Rightarrow> k \<in> set (cached_blocks_this_step m) | None \<Rightarrow> False)
      then Inr (num_gpu_blocks p + 1, m)
      else if mamba_mode m \<noteq> ''align'' then
        let n = (if num_speculative_blocks m > 0
                 then ntok + spec_block_size (m_spec m) * num_speculative_blocks m else ntok)
        in ebind (base_num_blocks_to_allocate m p rid n new_computed_blocks total_computed_tokens apply_cap)
             (\<lambda>k. Inr (k, m))
      else
        let required = cdiv main (m_block_size m) + num_speculative_blocks m;
            m' = set_table m rid (req_table m rid);
            new = required - int (length new_computed_blocks) - int (length (req_table m rid));
            new = (if new > 0 then
                     if rid \<in> set (allocated_block_reqs m) then 1 else 1 + num_speculative_blocks m
                   else new)
        in Inr (new + get_num_evictable_blocks p new_computed_blocks, m'))"

definition num_blocks_to_allocate ::
  "kv_manager \<Rightarrow> block_pool \<Rightarrow> string \<Rightarrow> int \<Rightarrow> addr list \<Rightarrow> int \<Rightarrow> int \<Rightarrow> bool \<Rightarrow> (int \<times> kv_manager) res" where
  "num_blocks_to_allocate m p rid ntok new_computed_blocks total_computed_tokens main apply_cap =
     (if m_class m = MambaManager
      then mamba_num_blocks_to_allocate m p rid ntok new_computed_blocks total_computed_tokens main apply_cap
      else ebind (base_num_blocks_to_allocate m p rid ntok new_computed_blocks total_computed_tokens apply_cap)
             (\<lambda>k. Inr (k, m)))"

section \<open>Allocating\<close>

definition base_allocate_new_computed_blocks ::
  "hash_env \<Rightarrow> kv_manager \<Rightarrow> block_pool \<Rightarrow> string \<Rightarrow> addr list \<Rightarrow> int \<Rightarrow> int \<Rightarrow> (kv_manager \<times> block_pool) res" where
  "base_allocate_new_computed_blocks env m p rid new_computed_blocks num_local num_external =
     (if dget (num_cached_block m) rid \<noteq> None then
        if new_computed_blocks \<noteq> [] then Inl AssertionError else Inr (m, p)
      else if req_table m rid \<noteq> [] then Inl AssertionError
      else
        let total = num_local + num_external;
            num_skipped_tokens = get_num_skipped_tokens m total;
            num_skipped_blocks = num_skipped_tokens div m_block_size m;
            (computed, ext) =
              (if num_skipped_blocks > 0
               then (drop (nat num_skipped_blocks) new_computed_blocks, min (total - num_skipped_tokens) num_external)
               else (new_computed_blocks, num_external))
        in ebind (if m_enable_caching m then touch p computed
                  else if computed \<noteq> [] then Inl AssertionError else Inr p) (\<lambda>p1.
             let req_blocks = replicate (nat num_skipped_blocks) (m_null_block m) @ computed;
                 m1 = (set_table m rid req_blocks)
                        \<lparr>num_cached_block := dset rid (int (length req_blocks)) (num_cached_block m)\<rparr>
             in if ext > 0 then
                  ebind (get_new_blocks env p1 (cdiv total (m_block_size m) - int (length req_blocks)))
                    (\<lambda>(allocated, p2).
                       let m2 = set_table m1 rid (req_blocks @ allocated)
                       in Inr (if zeroed_kind (m_spec m)
                               then m2\<lparr>new_block_ids := new_block_ids m2 @ map (\<lambda>b. block_id (bp_heap p2 b)) allocated\<rparr>
                               else m2, p2))
                else Inr (m1, p1)))"

definition allocate_new_computed_blocks ::
  "hash_env \<Rightarrow> kv_manager \<Rightarrow> block_pool \<Rightarrow> string \<Rightarrow> addr list \<Rightarrow> int \<Rightarrow> int \<Rightarrow> (kv_manager \<times> block_pool) res" where
  "allocate_new_computed_blocks env m p rid new_computed_blocks num_local num_external =
     (if m_class m = CrossAttentionManager then
        if new_computed_blocks \<noteq> [] then Inl AssertionError else Inr (m, p)
      else base_allocate_new_computed_blocks env m p rid new_computed_blocks num_local num_external)"

definition base_allocate_new_blocks ::
  "hash_env \<Rightarrow> kv_manager \<Rightarrow> block_pool \<Rightarrow> string \<Rightarrow> int \<Rightarrow> (addr list \<times> kv_manager \<times> block_pool) res" where
  "base_allocate_new_blocks env m p rid ntok =
     (let req_blocks = req_table m rid;
          num_new_blocks = cdiv ntok (m_block_size m) - int (length req_blocks)
      in if num_new_blocks \<le> 0 then Inr ([], set_table m rid req_blocks, p)
         else
           ebind (get_new_blocks env p num_new_blocks) (\<lambda>(new_blocks, p').
             let m' = set_table m rid (req_blocks @ new_blocks)
             in Inr (new_blocks,
                     if zeroed_kind (m_spec m)
                     then m'\<lparr>new_block_ids := new_block_ids m' @ map (\<lambda>b. block_id (bp_heap p' b)) new_blocks\<rparr>
                     else m', p')))"

text \<open>A Python index into a list, as a position.\<close>

definition py_index :: "'a list \<Rightarrow> int \<Rightarrow> nat res" where
  "py_index xs i =
     (if 0 \<le> i \<and> i < int (length xs) then Inr (nat i)
      else if i < 0 \<and> - int (length xs) \<le> i then Inr (nat (int (length xs) + i))
      else Inl IndexError)"

text \<open>
  The loop of the align mode that reuses the speculative blocks of the previous step: it moves them
  to the end of the table and leaves null blocks behind, until it reaches a block that stays.
\<close>

fun reuse_speculative :: "addr \<Rightarrow> int \<Rightarrow> int list \<Rightarrow> addr list \<Rightarrow> addr list res" where
  "reuse_speculative null num_skipped_blocks [] req_blocks = Inr req_blocks"
| "reuse_speculative null num_skipped_blocks (block_idx # idxs) req_blocks =
     (if block_idx < num_skipped_blocks then
        ebind (py_index req_blocks block_idx) (\<lambda>j.
        ebind (py_index (req_blocks @ [req_blocks ! j]) block_idx) (\<lambda>j'.
          reuse_speculative null num_skipped_blocks idxs ((req_blocks @ [req_blocks ! j])[j' := null])))
      else Inr req_blocks)"

definition mamba_allocate_new_blocks ::
  "hash_env \<Rightarrow> kv_manager \<Rightarrow> block_pool \<Rightarrow> string \<Rightarrow> int \<Rightarrow> int \<Rightarrow> (addr list \<times> kv_manager \<times> block_pool) res" where
  "mamba_allocate_new_blocks env m p rid ntok main =
     (if mamba_mode m \<noteq> ''align'' then
        base_allocate_new_blocks env m p rid
          (if num_speculative_blocks m > 0 then ntok + m_block_size m * num_speculative_blocks m else ntok)
      else
        let req_blocks = req_table m rid;
            prev_block_len = int (length req_blocks);
            required = cdiv main (m_block_size m) + num_speculative_blocks m
        in if required = prev_block_len then Inr ([], set_table m rid req_blocks, p)
           else if \<not> required > prev_block_len then Inl AssertionError
           else
             let blocks_allocated = rid \<in> set (allocated_block_reqs m);
                 m1 = (if blocks_allocated
                       then m\<lparr>last_state_block_idx :=
                              dset rid (prev_block_len - 1 - num_speculative_blocks m) (last_state_block_idx m)\<rparr>
                       else if prev_block_len > 0
                       then m\<lparr>last_state_block_idx := dset rid (prev_block_len - 1) (last_state_block_idx m)\<rparr>
                       else m);
                 num_skipped_blocks = required - num_speculative_blocks m - 1;
                 padded = req_blocks @ replicate (nat (num_skipped_blocks - prev_block_len)) (m_null_block m)
             in ebind (if blocks_allocated
                       then reuse_speculative (m_null_block m) num_skipped_blocks
                              [prev_block_len - num_speculative_blocks m..prev_block_len - 1] padded
                       else Inr padded) (\<lambda>reused.
                  let num_new_blocks = required - int (length reused)
                  in if \<not> num_new_blocks \<le> (if blocks_allocated then 1 else num_speculative_blocks m + 1)
                     then Inl AssertionError
                     else
                       ebind (get_new_blocks env p num_new_blocks) (\<lambda>(new_blocks, p').
                         let t = reused @ new_blocks
                         in Inr (drop (length req_blocks) t,
                                 (set_table m1 rid t)\<lparr>allocated_block_reqs := List.insert rid (allocated_block_reqs m1)\<rparr>,
                                 p'))))"

definition allocate_new_blocks ::
  "hash_env \<Rightarrow> kv_manager \<Rightarrow> block_pool \<Rightarrow> string \<Rightarrow> int \<Rightarrow> int \<Rightarrow> (addr list \<times> kv_manager \<times> block_pool) res" where
  "allocate_new_blocks env m p rid ntok main =
     (if m_class m = MambaManager then mamba_allocate_new_blocks env m p rid ntok main
      else base_allocate_new_blocks env m p rid ntok)"

definition take_new_block_ids :: "kv_manager \<Rightarrow> int list \<times> kv_manager" where
  "take_new_block_ids m = (new_block_ids m, m\<lparr>new_block_ids := []\<rparr>)"

section \<open>Caching, freeing, shrinking\<close>

definition base_cache_blocks ::
  "hash_env \<Rightarrow> kv_manager \<Rightarrow> block_pool \<Rightarrow> request \<Rightarrow> int \<Rightarrow> (kv_manager \<times> block_pool \<times> request) res" where
  "base_cache_blocks env m p r ntok =
     (let rid = request_id r;
          num_cached_blocks = dget_or 0 (num_cached_block m) rid;
          num_full_blocks = ntok div m_block_size m
      in if num_cached_blocks \<ge> num_full_blocks then Inr (m, p, r)
         else
           ebind (cache_full_blocks env p r (req_table m rid) num_cached_blocks num_full_blocks
                    (m_block_size m) (kv_cache_group_id m)) (\<lambda>(p', r').
             Inr ((set_table m rid (req_table m rid))
                    \<lparr>num_cached_block := dset rid num_full_blocks (num_cached_block m)\<rparr>, p', r')))"

text \<open>The loop of \<^verbatim>\<open>MambaManager.cache_blocks\<close> that collects the newly cached keys.\<close>

definition collect_cached :: "block_pool \<Rightarrow> addr \<Rightarrow> bytes list \<Rightarrow> bytes list res" where
  "collect_cached p b keys =
     (if is_null (bp_heap p b) then Inr keys
      else case block_hash (bp_heap p b) of
        None \<Rightarrow> Inl AssertionError
      | Some k \<Rightarrow> Inr (List.insert k keys))"

definition cache_blocks ::
  "hash_env \<Rightarrow> kv_manager \<Rightarrow> block_pool \<Rightarrow> request \<Rightarrow> int \<Rightarrow> (kv_manager \<times> block_pool \<times> request) res" where
  "cache_blocks env m p r ntok =
     (case m_class m of
        CrossAttentionManager \<Rightarrow> Inl ValueError
      | MambaManager \<Rightarrow>
          let before = dget_or 0 (num_cached_block m) (request_id r)
          in ebind (base_cache_blocks env m p r ntok) (\<lambda>(m', p', r').
               let after = dget_or 0 (num_cached_block m') (request_id r)
               in if after > before then
                    ebind (efold (collect_cached p')
                             (py_slice (req_table m' (request_id r)) (nat before) (nat after))
                             (cached_blocks_this_step m'))
                      (\<lambda>keys. Inr (m'\<lparr>cached_blocks_this_step := keys\<rparr>, p', r'))
                  else Inr (m', p', r'))
      | _ \<Rightarrow> base_cache_blocks env m p r ntok)"

definition free_request :: "kv_manager \<Rightarrow> block_pool \<Rightarrow> string \<Rightarrow> (kv_manager \<times> block_pool) res" where
  "free_request m p rid =
     (let m1 = (if m_class m = MambaManager \<and> mamba_mode m = ''align''
                then m\<lparr>allocated_block_reqs := removeAll rid (allocated_block_reqs m),
                       last_state_block_idx := ddel rid (last_state_block_idx m)\<rparr>
                else m)
      in ebind (free_blocks p (rev (req_table m1 rid))) (\<lambda>p'.
           Inr (m1\<lparr>req_to_blocks := ddel rid (req_to_blocks m1),
                   num_cached_block := ddel rid (num_cached_block m1)\<rparr>, p')))"

text \<open>
  The loop of \<^verbatim>\<open>remove_skipped_blocks\<close>, from block \<open>i - 1\<close> down to the first null block: it returns
  the removed blocks and the table with null blocks in their places.
\<close>

fun remove_loop :: "addr \<Rightarrow> nat \<Rightarrow> addr list \<Rightarrow> addr list \<times> addr list" where
  "remove_loop null 0 t = ([], t)"
| "remove_loop null (Suc i) t =
     (if t ! i = null then ([], t)
      else let (removed, t') = remove_loop null i (t[i := null]) in (t ! i # removed, t'))"

definition base_remove_skipped_blocks ::
  "kv_manager \<Rightarrow> block_pool \<Rightarrow> string \<Rightarrow> int \<Rightarrow> (kv_manager \<times> block_pool) res" where
  "base_remove_skipped_blocks m p rid total_computed_tokens =
     (let num_skipped_tokens = get_num_skipped_tokens m total_computed_tokens
      in if num_skipped_tokens \<le> 0 then Inr (m, p)
         else
           let t = req_table m rid;
               n = min (num_skipped_tokens div m_block_size m) (int (length t));
               (removed, t') = remove_loop (m_null_block m) (nat n) t
           in ebind (free_blocks p removed) (\<lambda>p'. Inr (set_table m rid t', p')))"

definition remove_skipped_blocks ::
  "kv_manager \<Rightarrow> block_pool \<Rightarrow> string \<Rightarrow> int \<Rightarrow> (kv_manager \<times> block_pool) res" where
  "remove_skipped_blocks m p rid total_computed_tokens =
     (if m_class m \<noteq> MambaManager then base_remove_skipped_blocks m p rid total_computed_tokens
      else
        let n = max 0 (total_computed_tokens - num_speculative_blocks m)
        in ebind (base_remove_skipped_blocks m p rid n) (\<lambda>(m1, p1).
             if mamba_mode m1 \<noteq> ''align'' then Inr (m1, p1)
             else case dget (last_state_block_idx m1) rid of
               None \<Rightarrow> Inr (m1, p1)
             | Some idx \<Rightarrow>
                 if \<not> idx < cdiv n (m_block_size m1) - 1 then Inr (m1, p1)
                 else
                   let t = req_table m1 rid
                   in ebind (py_index t idx) (\<lambda>j.
                        if t ! j = m_null_block m1 then Inr (set_table m1 rid t, p1)
                        else ebind (free_blocks p1 [t ! j]) (\<lambda>p2.
                               Inr (set_table m1 rid (t[j := m_null_block m1]), p2)))))"

definition new_step_starts :: "kv_manager \<Rightarrow> kv_manager" where
  "new_step_starts m = (if m_class m = MambaManager then m\<lparr>cached_blocks_this_step := []\<rparr> else m)"

text \<open>Only full attention counts common prefix blocks.\<close>

definition num_common_prefix_blocks :: "kv_manager \<Rightarrow> block_pool \<Rightarrow> string \<Rightarrow> int \<times> kv_manager" where
  "num_common_prefix_blocks m p rid =
     (if m_class m \<in> {FullAttentionManager, SinkFullAttentionManager} then
        let m' = set_table m rid (req_table m rid)
        in (int (length (takeWhile (\<lambda>b. ref_cnt (bp_heap p b) = int (length (req_to_blocks m'))) (req_table m rid))), m')
      else (0, m))"

section \<open>Longest cache hit\<close>

text \<open>
  A hit is one list of blocks per KV cache group. \<open>cached_at\<close> looks one hash up in all groups: the
  \<^verbatim>\<open>if cached_block := ...\<close> test takes an empty list for a miss.
\<close>

type_synonym hits = "addr list list"

definition cached_at :: "block_pool \<Rightarrow> int list \<Rightarrow> bytes \<Rightarrow> addr list option res" where
  "cached_at p group_ids hsh =
     ebind (get_cached_block p hsh group_ids) (\<lambda>r. Inr (case r of Some [] \<Rightarrow> None | _ \<Rightarrow> r))"

text \<open>\<^verbatim>\<open>for computed, cached in zip(computed_blocks, cached_block): computed.append(cached)\<close>\<close>

definition append_hit :: "hits \<Rightarrow> addr list \<Rightarrow> hits" where
  "append_hit computed_blocks cached_block = map (\<lambda>(c, b). c @ [b]) (zip computed_blocks cached_block)"

fun full_scan :: "block_pool \<Rightarrow> int list \<Rightarrow> bytes list \<Rightarrow> hits \<Rightarrow> hits res" where
  "full_scan p group_ids [] computed_blocks = Inr computed_blocks"
| "full_scan p group_ids (hsh # bhs) computed_blocks =
     ebind (cached_at p group_ids hsh) (\<lambda>r.
       case r of
         None \<Rightarrow> Inr computed_blocks
       | Some cached_block \<Rightarrow> full_scan p group_ids bhs (append_hit computed_blocks cached_block))"

text \<open>Dropping the last block of every list while the length is not aligned.\<close>

function pop_until_aligned :: "int \<Rightarrow> int \<Rightarrow> hits \<Rightarrow> hits res" where
  "pop_until_aligned block_size alignment_tokens [] = Inl IndexError"
| "pop_until_aligned block_size alignment_tokens (c # cs) =
     (if block_size \<noteq> alignment_tokens \<and> int (length c) * block_size mod alignment_tokens \<noteq> 0
      then pop_until_aligned block_size alignment_tokens (butlast c # map butlast cs)
      else Inr (c # cs))"
  by pat_completeness auto

termination
proof (relation "measure (\<lambda>(_, _, cs). length (hd cs))", goal_cases)
  case (2 block_size alignment_tokens c cs)
  then show ?case by (cases c) auto
qed simp

text \<open>The pop for EAGLE: only when the first group has a block.\<close>

definition eagle_pop :: "bool \<Rightarrow> hits \<Rightarrow> hits res" where
  "eagle_pop use_eagle computed_blocks =
     (if \<not> use_eagle then Inr computed_blocks
      else case computed_blocks of
        [] \<Rightarrow> Inl IndexError
      | c # _ \<Rightarrow> Inr (if c \<noteq> [] then map butlast computed_blocks else computed_blocks))"

definition full_find_longest_cache_hit ::
  "block_hash_list \<Rightarrow> int \<Rightarrow> int list \<Rightarrow> block_pool \<Rightarrow> kv_cache_spec \<Rightarrow> bool \<Rightarrow> int \<Rightarrow> int \<Rightarrow> int \<Rightarrow> hits res" where
  "full_find_longest_cache_hit bhs max_len group_ids p spec use_eagle alignment_tokens dcp pcp =
     (if \<not> (is_full spec \<or> chunk_of spec \<noteq> None) then Inl AssertionError
      else
        let block_size = spec_block_size spec * (if dcp * pcp > 1 then dcp * pcp else 1);
            max_num_blocks = max_len div block_size
        in if max_num_blocks < 0 then Inl ValueError
           else
             ebind (full_scan p group_ids (take (nat max_num_blocks) (hashes_from bhs 0))
                      (replicate (length group_ids) [])) (\<lambda>c1.
             ebind (eagle_pop use_eagle c1) (\<lambda>c2.
               pop_until_aligned block_size alignment_tokens c2)))"

text \<open>
  The right-to-left scan of the sliding window manager: \<open>n\<close> blocks are left to look at, \<open>contig\<close> is
  the length of the current run of hits. The result says whether a long enough run was found.
\<close>

fun window_scan ::
  "block_hash_list \<Rightarrow> int list \<Rightarrow> block_pool \<Rightarrow> int \<Rightarrow> int \<Rightarrow> int \<Rightarrow> bool \<Rightarrow> nat \<Rightarrow> nat \<Rightarrow> hits \<Rightarrow> (bool \<times> nat \<times> hits) res" where
  "window_scan bhs group_ids p needed block_size alignment_tokens use_eagle 0 contig computed_blocks =
     Inr (False, contig, computed_blocks)"
| "window_scan bhs group_ids p needed block_size alignment_tokens use_eagle (Suc i) contig computed_blocks =
     ebind (hashes_nth bhs (int i)) (\<lambda>hsh.
     ebind (cached_at p group_ids hsh) (\<lambda>r.
       case r of
         None \<Rightarrow> window_scan bhs group_ids p needed block_size alignment_tokens use_eagle i 0 computed_blocks
       | Some cached_block \<Rightarrow>
           if contig = 0 \<and> block_size \<noteq> alignment_tokens
              \<and> (if use_eagle then int i else int i + 1) * block_size mod alignment_tokens \<noteq> 0
           then window_scan bhs group_ids p needed block_size alignment_tokens use_eagle i contig computed_blocks
           else
             let computed' = map (\<lambda>(c, b). c[i := b]) (zip computed_blocks cached_block); contig' = Suc contig
             in if int contig' \<ge> needed
                then Inr (True, contig', map (take (i + contig')) computed')
                else window_scan bhs group_ids p needed block_size alignment_tokens use_eagle i contig' computed'))"

definition window_find_longest_cache_hit ::
  "block_hash_list \<Rightarrow> int \<Rightarrow> int list \<Rightarrow> block_pool \<Rightarrow> kv_cache_spec \<Rightarrow> bool \<Rightarrow> int \<Rightarrow> int \<Rightarrow> int \<Rightarrow> hits res" where
  "window_find_longest_cache_hit bhs max_len group_ids p spec use_eagle alignment_tokens dcp pcp =
     (case window_of spec of
        None \<Rightarrow> Inl AssertionError
      | Some w \<Rightarrow>
          if dcp \<noteq> 1 \<or> pcp \<noteq> 1 then Inl AssertionError
          else
            let block_size = spec_block_size spec;
                needed = cdiv (w - 1) block_size + (if use_eagle then 1 else 0);
                max_num_blocks = max_len div block_size;
                start = replicate (length group_ids) (replicate (nat max_num_blocks) (null_block p))
            in ebind (window_scan bhs group_ids p needed block_size alignment_tokens use_eagle
                        (nat max_num_blocks) 0 start) (\<lambda>(match_found, contig, c1).
               ebind (if match_found then Inr c1
                      else pop_until_aligned block_size alignment_tokens (map (take contig) c1)) (\<lambda>c2.
               case c2 of
                 [] \<Rightarrow> if use_eagle then Inl IndexError else Inr c2
               | c # _ \<Rightarrow>
                   if use_eagle \<and> c \<noteq> []
                   then pop_until_aligned block_size alignment_tokens (map butlast c2)
                   else Inr c2)))"

text \<open>The left-to-right scan of the chunked local manager over the blocks of the current chunk.\<close>

fun chunk_scan :: "block_hash_list \<Rightarrow> int list \<Rightarrow> block_pool \<Rightarrow> int list \<Rightarrow> hits \<Rightarrow> hits res" where
  "chunk_scan bhs group_ids p [] computed_blocks = Inr computed_blocks"
| "chunk_scan bhs group_ids p (i # idxs) computed_blocks =
     ebind (hashes_nth bhs i) (\<lambda>hsh.
     ebind (cached_at p group_ids hsh) (\<lambda>r.
       case r of
         None \<Rightarrow> Inr computed_blocks
       | Some cached_block \<Rightarrow> chunk_scan bhs group_ids p idxs (append_hit computed_blocks cached_block)))"

definition chunk_find_longest_cache_hit ::
  "block_hash_list \<Rightarrow> int \<Rightarrow> int list \<Rightarrow> block_pool \<Rightarrow> kv_cache_spec \<Rightarrow> bool \<Rightarrow> int \<Rightarrow> int \<Rightarrow> int \<Rightarrow> hits res" where
  "chunk_find_longest_cache_hit bhs max_len group_ids p spec use_eagle alignment_tokens dcp pcp =
     (case chunk_of spec of
        None \<Rightarrow> Inl AssertionError
      | Some ch \<Rightarrow>
          if use_eagle \<or> dcp \<noteq> 1 \<or> pcp \<noteq> 1 \<or> spec_block_size spec \<noteq> alignment_tokens then Inl AssertionError
          else
            let max_num_blocks = max_len div spec_block_size spec;
                local_attention_start_idx = (if max_len > 0 then max_len div ch * ch else 0);
                start_block = local_attention_start_idx div spec_block_size spec
            in chunk_scan bhs group_ids p [start_block..max_num_blocks - 1]
                 (replicate (length group_ids) (replicate (nat start_block) (null_block p))))"

text \<open>The right-to-left scan of the Mamba manager: the last aligned hit is enough.\<close>

fun mamba_scan :: "block_hash_list \<Rightarrow> int list \<Rightarrow> block_pool \<Rightarrow> int \<Rightarrow> int \<Rightarrow> nat \<Rightarrow> hits \<Rightarrow> hits res" where
  "mamba_scan bhs group_ids p block_size alignment_tokens 0 computed_blocks = Inr computed_blocks"
| "mamba_scan bhs group_ids p block_size alignment_tokens (Suc i) computed_blocks =
     ebind (hashes_nth bhs (int i)) (\<lambda>hsh.
     ebind (cached_at p group_ids hsh) (\<lambda>r.
       case r of
         None \<Rightarrow> mamba_scan bhs group_ids p block_size alignment_tokens i computed_blocks
       | Some cached_block \<Rightarrow>
           if block_size \<noteq> alignment_tokens \<and> (int i + 1) * block_size mod alignment_tokens \<noteq> 0
           then mamba_scan bhs group_ids p block_size alignment_tokens i computed_blocks
           else Inr (map (\<lambda>(c, b). c @ replicate i (null_block p) @ [b]) (zip computed_blocks cached_block))))"

definition mamba_find_longest_cache_hit ::
  "block_hash_list \<Rightarrow> int \<Rightarrow> int list \<Rightarrow> block_pool \<Rightarrow> kv_cache_spec \<Rightarrow> bool \<Rightarrow> int \<Rightarrow> int \<Rightarrow> int \<Rightarrow> hits res" where
  "mamba_find_longest_cache_hit bhs max_len group_ids p spec use_eagle alignment_tokens dcp pcp =
     (if mamba_of spec = None \<or> dcp \<noteq> 1 \<or> pcp \<noteq> 1 then Inl AssertionError
      else
        let block_size = spec_block_size spec; max_num_blocks = max_len div block_size
        in mamba_scan bhs group_ids p block_size alignment_tokens (nat max_num_blocks)
             (replicate (length group_ids) []))"

definition find_longest_cache_hit ::
  "manager_class \<Rightarrow> block_hash_list \<Rightarrow> int \<Rightarrow> int list \<Rightarrow> block_pool \<Rightarrow> kv_cache_spec \<Rightarrow> bool \<Rightarrow> int \<Rightarrow> int \<Rightarrow> int
   \<Rightarrow> hits res" where
  "find_longest_cache_hit cls bhs max_len group_ids p spec use_eagle alignment_tokens dcp pcp =
     (case cls of
        FullAttentionManager \<Rightarrow>
          full_find_longest_cache_hit bhs max_len group_ids p spec use_eagle alignment_tokens dcp pcp
      | SinkFullAttentionManager \<Rightarrow>
          full_find_longest_cache_hit bhs max_len group_ids p spec use_eagle alignment_tokens dcp pcp
      | SlidingWindowManager \<Rightarrow>
          window_find_longest_cache_hit bhs max_len group_ids p spec use_eagle alignment_tokens dcp pcp
      | ChunkedLocalAttentionManager \<Rightarrow>
          chunk_find_longest_cache_hit bhs max_len group_ids p spec use_eagle alignment_tokens dcp pcp
      | MambaManager \<Rightarrow>
          mamba_find_longest_cache_hit bhs max_len group_ids p spec use_eagle alignment_tokens dcp pcp
      | CrossAttentionManager \<Rightarrow>
          if \<not> is_cross spec then Inl AssertionError else Inl NotImplementedError)"

end
