(* ===== verification/Coordinator.thy ===== *)
theory Coordinator
  imports KV_Managers
begin

text \<open>
  The coordinator of the KV cache groups (\<^verbatim>\<open>vllm/v1/core/kv_cache_coordinator.py\<close>): one manager per
  group over one shared block pool. Every operation visits the managers in order and passes the
  pool along. The three classes differ in the search for the longest cache hit: none without prefix
  caching, one scan for a single group, and for several kinds of attention an iteration that shrinks
  a candidate length until all groups accept it.
\<close>

section \<open>State\<close>

text \<open>An entry of \<^verbatim>\<open>attention_groups\<close>: a spec, the groups that have it, and their manager class.\<close>

record attention_group =
  ag_spec :: kv_cache_spec
  ag_ids :: "int list"
  ag_class :: manager_class

record unitary_fields =
  u_spec :: kv_cache_spec
  u_block_size :: int
  u_dcp_world_size :: int
  u_pcp_world_size :: int

record hybrid_fields =
  h_hash_block_size :: int
  attention_groups :: "attention_group list"
  lcm_block_size :: int
  eagle_attn_group_indices :: "nat list"

datatype coordinator_kind =
    KVCacheCoordinatorNoPrefixCache
  | UnitaryKVCacheCoordinator unitary_fields
  | HybridKVCacheCoordinator hybrid_fields

record kv_coordinator =
  c_kind :: coordinator_kind
  c_config :: kv_cache_config
  c_max_model_len :: int
  c_enable_caching :: bool
  c_pool :: block_pool
  eagle_group_ids :: "int list"
  single_type_managers :: "kv_manager list"

section \<open>Construction\<close>

text \<open>The managers are built in order; one of them may take blocks out of the pool.\<close>

fun make_managers ::
  "int \<Rightarrow> int \<Rightarrow> bool \<Rightarrow> int \<Rightarrow> int \<Rightarrow> nat \<Rightarrow> kv_cache_group_spec list \<Rightarrow> block_pool \<Rightarrow> (kv_manager list \<times> block_pool) res" where
  "make_managers max_num_batched_tokens max_len caching dcp pcp i [] p = Inr ([], p)"
| "make_managers max_num_batched_tokens max_len caching dcp pcp i (g # gs) p =
     ebind (make_manager (g_kv_cache_spec g) max_num_batched_tokens max_len p caching (int i) dcp pcp) (\<lambda>(m, p1).
     ebind (make_managers max_num_batched_tokens max_len caching dcp pcp (Suc i) gs p1) (\<lambda>(ms, p2).
       Inr (m # ms, p2)))"

definition flagged_groups :: "kv_cache_group_spec list \<Rightarrow> int list" where
  "flagged_groups gs = map (\<lambda>(i, g). int i) (filter (\<lambda>(i, g). is_eagle_group g) (enumerate 0 gs))"

definition eagle_groups :: "bool \<Rightarrow> kv_cache_group_spec list \<Rightarrow> int list" where
  "eagle_groups use_eagle gs =
     (if use_eagle \<and> flagged_groups gs = [] then map int [0..<length gs] else flagged_groups gs)"

definition base_coordinator ::
  "coordinator_kind \<Rightarrow> kv_cache_config \<Rightarrow> int \<Rightarrow> int \<Rightarrow> bool \<Rightarrow> bool \<Rightarrow> bool \<Rightarrow> int \<Rightarrow> int \<Rightarrow> int \<Rightarrow> kv_coordinator res" where
  "base_coordinator kind cfg max_len max_num_batched_tokens use_eagle caching events dcp pcp hbs =
     ebind (block_pool_init (num_blocks cfg) caching hbs events) (\<lambda>p.
     ebind (make_managers max_num_batched_tokens max_len caching dcp pcp 0 (kv_cache_groups cfg) p) (\<lambda>(ms, p').
       Inr \<lparr>c_kind = kind, c_config = cfg, c_max_model_len = max_len, c_enable_caching = caching,
            c_pool = p', eagle_group_ids = eagle_groups use_eagle (kv_cache_groups cfg),
            single_type_managers = ms\<rparr>))"

definition unitary_init ::
  "kv_cache_config \<Rightarrow> int \<Rightarrow> int \<Rightarrow> bool \<Rightarrow> bool \<Rightarrow> bool \<Rightarrow> int \<Rightarrow> int \<Rightarrow> int \<Rightarrow> kv_coordinator res" where
  "unitary_init cfg max_len max_num_batched_tokens use_eagle caching events dcp pcp hbs =
     ebind (base_coordinator KVCacheCoordinatorNoPrefixCache cfg max_len max_num_batched_tokens use_eagle
              caching events dcp pcp hbs) (\<lambda>c.
       case kv_cache_groups cfg of
         [] \<Rightarrow> Inl IndexError
       | g # gs \<Rightarrow>
           let bs = spec_block_size (g_kv_cache_spec g);
               bs = (if dcp > 1 then bs * dcp else bs);
               bs = (if pcp > 1 then bs * pcp else bs)
           in if caching \<and> hbs \<noteq> bs then Inl AssertionError
              else if gs \<noteq> [] then Inl AssertionError
              else Inr (c\<lparr>c_kind := UnitaryKVCacheCoordinator
                             \<lparr>u_spec = g_kv_cache_spec g, u_block_size = bs,
                              u_dcp_world_size = dcp, u_pcp_world_size = pcp\<rparr>\<rparr>))"

text \<open>
  \<^verbatim>\<open>verify_and_split_kv_cache_groups\<close>: groups with equal specs are searched together, the full
  attention ones first.
\<close>

fun add_to_groups :: "kv_cache_spec \<Rightarrow> int \<Rightarrow> manager_class \<Rightarrow> attention_group list \<Rightarrow> attention_group list res" where
  "add_to_groups spec i cls [] = Inr [\<lparr>ag_spec = spec, ag_ids = [i], ag_class = cls\<rparr>]"
| "add_to_groups spec i cls (g # gs) =
     (if ag_spec g = spec then
        if cls \<noteq> ag_class g then Inl AssertionError
        else Inr (g\<lparr>ag_ids := ag_ids g @ [i]\<rparr> # gs)
      else ebind (add_to_groups spec i cls gs) (\<lambda>gs'. Inr (g # gs')))"

definition full_first :: "attention_group list \<Rightarrow> attention_group list" where
  "full_first gs = filter (\<lambda>g. is_full (ag_spec g)) gs @ filter (\<lambda>g. \<not> is_full (ag_spec g)) gs"

definition verify_and_split_kv_cache_groups ::
  "kv_cache_group_spec list \<Rightarrow> kv_manager list \<Rightarrow> int list \<Rightarrow> int \<Rightarrow> hybrid_fields res" where
  "verify_and_split_kv_cache_groups gs ms eagle_ids hbs =
     ebind (efold (\<lambda>(i, g, m). add_to_groups (g_kv_cache_spec g) (int i) (m_class m)) (enumerate 0 (zip gs ms)) [])
       (\<lambda>groups.
          if \<not> length groups > 1 then Inl AssertionError
          else
            let sorted_groups = full_first groups
            in Inr \<lparr>h_hash_block_size = hbs, attention_groups = sorted_groups,
                    lcm_block_size = fold lcm (map (\<lambda>g. spec_block_size (ag_spec g)) groups) 1,
                    eagle_attn_group_indices =
                      map fst (filter (\<lambda>(i, g). list_ex (\<lambda>gid. gid \<in> set eagle_ids) (ag_ids g))
                                 (enumerate 0 sorted_groups))\<rparr>)"

definition hybrid_init ::
  "kv_cache_config \<Rightarrow> int \<Rightarrow> int \<Rightarrow> bool \<Rightarrow> bool \<Rightarrow> bool \<Rightarrow> int \<Rightarrow> int \<Rightarrow> int \<Rightarrow> kv_coordinator res" where
  "hybrid_init cfg max_len max_num_batched_tokens use_eagle caching events dcp pcp hbs =
     ebind (base_coordinator KVCacheCoordinatorNoPrefixCache cfg max_len max_num_batched_tokens use_eagle
              caching events dcp pcp hbs) (\<lambda>c.
       if \<not> list_all (\<lambda>g. spec_block_size (g_kv_cache_spec g) mod hbs = 0) (kv_cache_groups cfg) then Inl AssertionError
       else if dcp \<noteq> 1 then Inl AssertionError
       else if pcp \<noteq> 1 then Inl AssertionError
       else
         ebind (verify_and_split_kv_cache_groups (kv_cache_groups cfg) (single_type_managers c) (eagle_group_ids c) hbs)
           (\<lambda>h. Inr (c\<lparr>c_kind := HybridKVCacheCoordinator h\<rparr>)))"

definition get_kv_cache_coordinator ::
  "kv_cache_config \<Rightarrow> int \<Rightarrow> int \<Rightarrow> bool \<Rightarrow> bool \<Rightarrow> bool \<Rightarrow> int \<Rightarrow> int \<Rightarrow> int \<Rightarrow> kv_coordinator res" where
  "get_kv_cache_coordinator cfg max_len max_num_batched_tokens use_eagle caching events dcp pcp hbs =
     (if \<not> caching then
        base_coordinator KVCacheCoordinatorNoPrefixCache cfg max_len max_num_batched_tokens use_eagle
          False events dcp pcp hbs
      else if length (kv_cache_groups cfg) = 1 then
        unitary_init cfg max_len max_num_batched_tokens use_eagle caching events dcp pcp hbs
      else hybrid_init cfg max_len max_num_batched_tokens use_eagle caching events dcp pcp hbs)"

section \<open>Operations over all managers\<close>

text \<open>
  A loop over the managers with the shared state \<open>'s\<close> (the pool, sometimes with the request). It
  collects the results.
\<close>

fun over_managers ::
  "(nat \<Rightarrow> kv_manager \<Rightarrow> 's \<Rightarrow> ('r \<times> kv_manager \<times> 's) res) \<Rightarrow> nat \<Rightarrow> kv_manager list \<Rightarrow> 's
   \<Rightarrow> ('r list \<times> kv_manager list \<times> 's) res" where
  "over_managers f i [] s = Inr ([], [], s)"
| "over_managers f i (m # ms) s =
     ebind (f i m s) (\<lambda>(r, m', s').
     ebind (over_managers f (Suc i) ms s') (\<lambda>(rs, ms', s''). Inr (r # rs, m' # ms', s'')))"

abbreviation with_managers :: "kv_coordinator \<Rightarrow> kv_manager list \<Rightarrow> block_pool \<Rightarrow> kv_coordinator" where
  "with_managers c ms p \<equiv> c\<lparr>single_type_managers := ms, c_pool := p\<rparr>"

definition manager_demand ::
  "string \<Rightarrow> int \<Rightarrow> addr list list \<Rightarrow> int \<Rightarrow> int \<Rightarrow> int \<Rightarrow> bool \<Rightarrow> nat \<Rightarrow> kv_manager \<Rightarrow> block_pool
   \<Rightarrow> (int \<times> kv_manager \<times> block_pool) res" where
  "manager_demand rid ntok new_computed_blocks num_encoder_tokens total_computed_tokens main apply_cap i m p =
     ebind (if m_class m = CrossAttentionManager
            then num_blocks_to_allocate m p rid num_encoder_tokens [] 0 num_encoder_tokens apply_cap
            else ebind (py_nth new_computed_blocks (int i)) (\<lambda>computed.
                   num_blocks_to_allocate m p rid ntok computed total_computed_tokens main apply_cap))
       (\<lambda>(k, m'). Inr (k, m', p))"

definition coord_num_blocks_to_allocate ::
  "kv_coordinator \<Rightarrow> string \<Rightarrow> int \<Rightarrow> addr list list \<Rightarrow> int \<Rightarrow> int \<Rightarrow> int \<Rightarrow> bool \<Rightarrow> (int \<times> kv_coordinator) res" where
  "coord_num_blocks_to_allocate c rid ntok new_computed_blocks num_encoder_tokens total_computed_tokens main apply_cap =
     ebind (over_managers
              (manager_demand rid ntok new_computed_blocks num_encoder_tokens total_computed_tokens main apply_cap)
              0 (single_type_managers c) (c_pool c))
       (\<lambda>(ks, ms, p). Inr (sum_list ks, with_managers c ms p))"

definition coord_allocate_new_computed_blocks ::
  "hash_env \<Rightarrow> kv_coordinator \<Rightarrow> string \<Rightarrow> addr list list \<Rightarrow> int \<Rightarrow> int \<Rightarrow> kv_coordinator res" where
  "coord_allocate_new_computed_blocks env c rid new_computed_blocks num_local num_external =
     ebind (over_managers
              (\<lambda>i m p. ebind (py_nth new_computed_blocks (int i)) (\<lambda>computed.
                 ebind (allocate_new_computed_blocks env m p rid computed num_local num_external)
                   (\<lambda>(m', p'). Inr ((), m', p'))))
              0 (single_type_managers c) (c_pool c))
       (\<lambda>(_, ms, p). Inr (with_managers c ms p))"

definition coord_allocate_new_blocks ::
  "hash_env \<Rightarrow> kv_coordinator \<Rightarrow> string \<Rightarrow> int \<Rightarrow> int \<Rightarrow> int \<Rightarrow> (addr list list \<times> kv_coordinator) res" where
  "coord_allocate_new_blocks env c rid ntok main num_encoder_tokens =
     ebind (over_managers
              (\<lambda>i m p. allocate_new_blocks env m p rid
                 (if m_class m = CrossAttentionManager then num_encoder_tokens else ntok) main)
              0 (single_type_managers c) (c_pool c))
       (\<lambda>(new, ms, p). Inr (new, with_managers c ms p))"

definition coord_cache_blocks ::
  "hash_env \<Rightarrow> kv_coordinator \<Rightarrow> request \<Rightarrow> int \<Rightarrow> (kv_coordinator \<times> request) res" where
  "coord_cache_blocks env c r computed =
     ebind (over_managers
              (\<lambda>i m (p, r). ebind (cache_blocks env m p r computed) (\<lambda>(m', p', r'). Inr ((), m', p', r')))
              0 (single_type_managers c) (c_pool c, r))
       (\<lambda>(_, ms, p, r'). Inr (with_managers c ms p, r'))"

definition coord_free :: "kv_coordinator \<Rightarrow> string \<Rightarrow> kv_coordinator res" where
  "coord_free c rid =
     ebind (over_managers (\<lambda>i m p. ebind (free_request m p rid) (\<lambda>(m', p'). Inr ((), m', p')))
              0 (single_type_managers c) (c_pool c))
       (\<lambda>(_, ms, p). Inr (with_managers c ms p))"

definition coord_num_common_prefix_blocks :: "kv_coordinator \<Rightarrow> string \<Rightarrow> (int list \<times> kv_coordinator) res" where
  "coord_num_common_prefix_blocks c rid =
     (if c_kind c = KVCacheCoordinatorNoPrefixCache
      then Inr (replicate (length (single_type_managers c)) 0, c)
      else ebind (over_managers
                    (\<lambda>i m p. let (k, m') = num_common_prefix_blocks m p rid in Inr (k, m', p))
                    0 (single_type_managers c) (c_pool c))
             (\<lambda>(ks, ms, p). Inr (ks, with_managers c ms p)))"

definition coord_remove_skipped_blocks :: "kv_coordinator \<Rightarrow> string \<Rightarrow> int \<Rightarrow> kv_coordinator res" where
  "coord_remove_skipped_blocks c rid total_computed_tokens =
     ebind (over_managers
              (\<lambda>i m p. ebind (remove_skipped_blocks m p rid total_computed_tokens) (\<lambda>(m', p'). Inr ((), m', p')))
              0 (single_type_managers c) (c_pool c))
       (\<lambda>(_, ms, p). Inr (with_managers c ms p))"

definition coord_get_blocks :: "kv_coordinator \<Rightarrow> string \<Rightarrow> addr list list" where
  "coord_get_blocks c rid = map (\<lambda>m. req_table m rid) (single_type_managers c)"

definition coord_new_step_starts :: "kv_coordinator \<Rightarrow> kv_coordinator" where
  "coord_new_step_starts c = c\<lparr>single_type_managers := map new_step_starts (single_type_managers c)\<rparr>"

section \<open>The longest cache hit\<close>

definition unitary_find_longest_cache_hit ::
  "kv_coordinator \<Rightarrow> unitary_fields \<Rightarrow> bytes list \<Rightarrow> int \<Rightarrow> (hits \<times> int) res" where
  "unitary_find_longest_cache_hit c u bhs max_len =
     ebind (py_nth (single_type_managers c) 0) (\<lambda>m.
     ebind (find_longest_cache_hit (m_class m) (PlainHashes bhs) max_len [0] (c_pool c) (u_spec u)
              (0 \<in> set (eagle_group_ids c)) (u_block_size u) (u_dcp_world_size u) (u_pcp_world_size u)) (\<lambda>hit_blocks.
     ebind (py_nth hit_blocks 0) (\<lambda>first.
       Inr (hit_blocks, int (length first) * u_block_size u))))"

text \<open>
  One pass of the hybrid search over the attention groups. The state holds the candidate length, the
  indices whose EAGLE drop is verified, and the hit of every group so far. A full attention group that
  was already searched only rounds the candidate down.
\<close>

type_synonym hybrid_state = "int \<times> nat list \<times> addr list option list"

fun store_hits :: "int list \<Rightarrow> hits \<Rightarrow> addr list option list \<Rightarrow> addr list option list" where
  "store_hits (g # gs) (h # hs) by_group = store_hits gs hs (by_group[nat g := Some h])"
| "store_hits _ _ by_group = by_group"

definition hybrid_visit ::
  "block_pool \<Rightarrow> hybrid_fields \<Rightarrow> bytes list \<Rightarrow> int \<Rightarrow> nat \<times> attention_group \<Rightarrow> hybrid_state \<Rightarrow> hybrid_state res" where
  "hybrid_visit p h bhs max_len = (\<lambda>(idx, g) (curlen, verified, by_group).
     let spec = ag_spec g; bs = spec_block_size spec
     in ebind (py_nth (ag_ids g) 0) (\<lambda>gid.
        ebind (py_nth by_group gid) (\<lambda>cached_blocks.
          if is_full spec \<and> cached_blocks \<noteq> None then Inr (curlen div bs * bs, verified, by_group)
          else
            let use_eagle = (idx \<in> set (eagle_attn_group_indices h) \<and> idx \<notin> set verified);
                m = (if use_eagle then min (curlen + bs) max_len else curlen)
            in ebind (hashes_at_block_size bhs (h_hash_block_size h) bs) (\<lambda>hashes.
               ebind (find_longest_cache_hit (ag_class g) hashes m (ag_ids g) p spec use_eagle
                        (lcm_block_size h) 1 1) (\<lambda>hit_blocks.
               ebind (py_nth hit_blocks 0) (\<lambda>first.
                 let new_len = int (length first) * bs;
                     verified' = (if use_eagle then List.insert idx verified
                                  else if new_len < curlen then [] else verified)
                 in Inr (new_len, verified', store_hits (ag_ids g) hit_blocks by_group)))))))"

definition hybrid_pass ::
  "block_pool \<Rightarrow> hybrid_fields \<Rightarrow> bytes list \<Rightarrow> int \<Rightarrow> hybrid_state \<Rightarrow> hybrid_state res" where
  "hybrid_pass p h bhs max_len s = efold (hybrid_visit p h bhs max_len) (enumerate 0 (attention_groups h)) s"

definition is_simple_hybrid :: "hybrid_fields \<Rightarrow> bool" where
  "is_simple_hybrid h \<longleftrightarrow> (case attention_groups h of [g, g'] \<Rightarrow> is_full (ag_spec g) | _ \<Rightarrow> False)"

text \<open>The outer loop; \<^term>\<open>None\<close> stands for a loop that does not end.\<close>

partial_function (option) hybrid_loop ::
  "block_pool \<Rightarrow> hybrid_fields \<Rightarrow> bytes list \<Rightarrow> int \<Rightarrow> int \<Rightarrow> nat list \<Rightarrow> addr list option list
   \<Rightarrow> (int \<times> addr list option list) res option" where
  "hybrid_loop p h bhs max_len hit_length verified by_group =
     (case hybrid_pass p h bhs max_len (hit_length, verified, by_group) of
        Inl e \<Rightarrow> Some (Inl e)
      | Inr (curlen, verified', by_group') \<Rightarrow>
          if curlen \<ge> hit_length then Some (Inr (hit_length, by_group'))
          else if is_simple_hybrid h then Some (Inr (curlen, by_group'))
          else hybrid_loop p h bhs max_len curlen verified' by_group')"

text \<open>Afterwards the blocks of the first group, if it is full attention, are cut to the final length.\<close>

fun truncate_hits :: "nat \<Rightarrow> int list \<Rightarrow> addr list option list \<Rightarrow> addr list option list" where
  "truncate_hits n [] by_group = by_group"
| "truncate_hits n (g # gs) by_group = truncate_hits n gs (by_group[nat g := map_option (take n) (by_group ! nat g)])"

definition hybrid_finish :: "hybrid_fields \<Rightarrow> int \<Rightarrow> addr list option list \<Rightarrow> (hits \<times> int) res" where
  "hybrid_finish h hit_length by_group =
     (case attention_groups h of
        [] \<Rightarrow> Inl IndexError
      | g # _ \<Rightarrow>
          let by_group' = (if is_full (ag_spec g)
                           then truncate_hits (nat (hit_length div spec_block_size (ag_spec g))) (ag_ids g) by_group
                           else by_group)
          in Inr (map (\<lambda>b. case b of Some bs \<Rightarrow> bs | None \<Rightarrow> []) by_group', hit_length))"

definition hybrid_find_longest_cache_hit ::
  "kv_coordinator \<Rightarrow> hybrid_fields \<Rightarrow> bytes list \<Rightarrow> int \<Rightarrow> (hits \<times> int) res option" where
  "hybrid_find_longest_cache_hit c h bhs max_len =
     map_option (\<lambda>r. ebind r (\<lambda>(hit_length, by_group). hybrid_finish h hit_length by_group))
       (hybrid_loop (c_pool c) h bhs max_len max_len [] (replicate (length (kv_cache_groups (c_config c))) None))"

definition coord_find_longest_cache_hit :: "kv_coordinator \<Rightarrow> bytes list \<Rightarrow> int \<Rightarrow> (hits \<times> int) res option" where
  "coord_find_longest_cache_hit c bhs max_len =
     (case c_kind c of
        KVCacheCoordinatorNoPrefixCache \<Rightarrow> Some (Inr (replicate (length (single_type_managers c)) [], 0))
      | UnitaryKVCacheCoordinator u \<Rightarrow> Some (unitary_find_longest_cache_hit c u bhs max_len)
      | HybridKVCacheCoordinator h \<Rightarrow> hybrid_find_longest_cache_hit c h bhs max_len)"

end
