(* ===== verification/KV_Cache_Manager.thy ===== *)
theory KV_Cache_Manager
  imports Coordinator
begin

text \<open>
  The KV cache manager the scheduler talks to (\<^verbatim>\<open>vllm/v1/core/kv_cache_manager.py\<close>) and the statistics
  of the prefix cache (\<^verbatim>\<open>vllm/v1/metrics/stats.py\<close>). The manager looks up computed blocks, reserves
  slots for new tokens, frees, evicts and caches, each through the coordinator. A result of
  \<^verbatim>\<open>None\<close> from \<^verbatim>\<open>allocate_slots\<close> still may have changed the state: skipped blocks are freed first.
\<close>

section \<open>Allocation results\<close>

text \<open>
  \<^verbatim>\<open>KVCacheBlocks\<close>. The manager owns one shared empty object and compares with it by identity, so it
  has a constructor of its own.
\<close>

datatype alloc_blocks = EmptyKVCacheBlocks nat | KVCacheBlocks "addr list list"

fun alloc_groups :: "alloc_blocks \<Rightarrow> addr list list" where
  "alloc_groups (EmptyKVCacheBlocks n) = replicate n []"
| "alloc_groups (KVCacheBlocks gs) = gs"

definition add_alloc_blocks :: "alloc_blocks \<Rightarrow> alloc_blocks \<Rightarrow> alloc_blocks" where
  "add_alloc_blocks a b = KVCacheBlocks (map (\<lambda>(x, y). x @ y) (zip (alloc_groups a) (alloc_groups b)))"

definition get_block_ids :: "block_pool \<Rightarrow> alloc_blocks \<Rightarrow> bool \<Rightarrow> int list list option" where
  "get_block_ids p a allow_none =
     (if allow_none \<and> list_all (\<lambda>g. length g = 0) (alloc_groups a) then None
      else Some (map (map (bp_ids p)) (alloc_groups a)))"

definition get_unhashed_block_ids :: "block_pool \<Rightarrow> alloc_blocks \<Rightarrow> int list res" where
  "get_unhashed_block_ids p a =
     (case alloc_groups a of
        [g] \<Rightarrow> Inr (map (bp_ids p) (filter (\<lambda>b. block_hash (bp_heap p b) = None) g))
      | _ \<Rightarrow> Inl AssertionError)"

definition get_unhashed_block_ids_all_groups :: "block_pool \<Rightarrow> alloc_blocks \<Rightarrow> int list list" where
  "get_unhashed_block_ids_all_groups p a =
     map (\<lambda>g. map (bp_ids p) (filter (\<lambda>b. block_hash (bp_heap p b) = None \<and> \<not> is_null (bp_heap p b)) g))
       (alloc_groups a)"

definition new_empty :: "alloc_blocks \<Rightarrow> alloc_blocks" where
  "new_empty a = KVCacheBlocks (replicate (length (alloc_groups a)) [])"

section \<open>Prefix cache statistics\<close>

record prefix_cache_stats =
  stats_reset :: bool
  stats_requests :: int
  stats_queries :: int
  stats_hits :: int
  preempted_requests :: int
  preempted_queries :: int
  preempted_hits :: int

definition new_prefix_cache_stats :: prefix_cache_stats where
  "new_prefix_cache_stats =
     \<lparr>stats_reset = False, stats_requests = 0, stats_queries = 0, stats_hits = 0,
      preempted_requests = 0, preempted_queries = 0, preempted_hits = 0\<rparr>"

definition stats_record :: "int \<Rightarrow> int \<Rightarrow> bool \<Rightarrow> prefix_cache_stats \<Rightarrow> prefix_cache_stats" where
  "stats_record ntok num_hits preempted s =
     (if preempted
      then s\<lparr>preempted_requests := preempted_requests s + 1, preempted_queries := preempted_queries s + ntok,
             preempted_hits := preempted_hits s + num_hits\<rparr>
      else s\<lparr>stats_requests := stats_requests s + 1, stats_queries := stats_queries s + ntok,
             stats_hits := stats_hits s + num_hits\<rparr>)"

section \<open>The manager\<close>

record kv_cache_manager =
  k_max_model_len :: int
  k_enable_caching :: bool
  k_use_eagle :: bool
  k_log_stats :: bool
  k_prefix_cache_stats :: "prefix_cache_stats option"
  coordinator :: kv_coordinator
  num_kv_cache_groups :: nat

abbreviation k_pool :: "kv_cache_manager \<Rightarrow> block_pool" where
  "k_pool k \<equiv> c_pool (coordinator k)"

abbreviation k_set_pool :: "kv_cache_manager \<Rightarrow> block_pool \<Rightarrow> kv_cache_manager" where
  "k_set_pool k p \<equiv> k\<lparr>coordinator := (coordinator k)\<lparr>c_pool := p\<rparr>\<rparr>"

definition kv_cache_manager_init ::
  "kv_cache_config \<Rightarrow> int \<Rightarrow> int \<Rightarrow> int option \<Rightarrow> bool \<Rightarrow> bool \<Rightarrow> bool \<Rightarrow> bool \<Rightarrow> int \<Rightarrow> int \<Rightarrow> kv_cache_manager res" where
  "kv_cache_manager_init cfg max_model_len hbs max_num_batched_tokens caching use_eagle with_stats events dcp pcp =
     (let batched = (case max_num_batched_tokens of Some n \<Rightarrow> n | None \<Rightarrow> max_model_len)
      in ebind (get_kv_cache_coordinator cfg max_model_len batched use_eagle caching events dcp pcp hbs) (\<lambda>c.
           Inr \<lparr>k_max_model_len = max_model_len, k_enable_caching = caching, k_use_eagle = use_eagle,
                k_log_stats = with_stats, k_prefix_cache_stats = (if with_stats then Some new_prefix_cache_stats else None),
                coordinator = c, num_kv_cache_groups = length (kv_cache_groups cfg)\<rparr>))"

definition usage :: "kv_cache_manager \<Rightarrow> real" where
  "usage k = get_usage (k_pool k)"

definition make_prefix_cache_stats :: "kv_cache_manager \<Rightarrow> prefix_cache_stats option \<times> kv_cache_manager" where
  "make_prefix_cache_stats k =
     (if \<not> k_log_stats k then (None, k)
      else (k_prefix_cache_stats k, k\<lparr>k_prefix_cache_stats := Some new_prefix_cache_stats\<rparr>))"

text \<open>Only non-empty results get an object of their own.\<close>

definition create_kv_cache_blocks :: "kv_cache_manager \<Rightarrow> addr list list \<Rightarrow> alloc_blocks" where
  "create_kv_cache_blocks k gs =
     (if list_ex (\<lambda>g. g \<noteq> []) gs then KVCacheBlocks gs else EmptyKVCacheBlocks (num_kv_cache_groups k))"

definition get_computed_blocks ::
  "kv_cache_manager \<Rightarrow> request \<Rightarrow> (alloc_blocks \<times> int \<times> kv_cache_manager) res option" where
  "get_computed_blocks k r =
     (if \<not> k_enable_caching k \<or> skip_reading_prefix_cache r
      then Some (Inr (EmptyKVCacheBlocks (num_kv_cache_groups k), 0, k))
      else
        map_option (\<lambda>res. ebind res (\<lambda>(computed_blocks, num_new_computed_tokens).
          ebind (if \<not> k_log_stats k then Inr k
                 else case k_prefix_cache_stats k of
                   None \<Rightarrow> Inl AssertionError
                 | Some s \<Rightarrow>
                     Inr (k\<lparr>k_prefix_cache_stats :=
                            Some (stats_record (num_tokens r) num_new_computed_tokens (num_preemptions r > 0) s)\<rparr>))
            (\<lambda>k'. Inr (create_kv_cache_blocks k computed_blocks, num_new_computed_tokens, k'))))
          (coord_find_longest_cache_hit (coordinator k) (block_hashes r) (num_tokens r - 1)))"

text \<open>
  \<^verbatim>\<open>allocate_slots\<close>: the optional admission gate, the freeing of skipped blocks, the capacity check, and
  the allocation proper.
\<close>

definition admission_gate ::
  "kv_cache_manager \<Rightarrow> request \<Rightarrow> addr list list \<Rightarrow> int \<Rightarrow> int \<Rightarrow> (bool \<times> kv_cache_manager) res" where
  "admission_gate k r new_computed num_encoder_tokens total_computed_tokens =
     (let full_num_tokens = min (num_tokens r) (k_max_model_len k)
      in ebind (coord_num_blocks_to_allocate (coordinator k) (request_id r) full_num_tokens new_computed
                  num_encoder_tokens total_computed_tokens full_num_tokens True) (\<lambda>(n, c).
           Inr (n \<le> get_num_free_blocks (c_pool c), k\<lparr>coordinator := c\<rparr>)))"

definition allocate_checked ::
  "hash_env \<Rightarrow> kv_cache_manager \<Rightarrow> request \<Rightarrow> alloc_blocks \<Rightarrow> int \<Rightarrow> int \<Rightarrow> int \<Rightarrow> int \<Rightarrow> int \<Rightarrow> int \<Rightarrow> bool
   \<Rightarrow> (alloc_blocks option \<times> kv_cache_manager \<times> request) res" where
  "allocate_checked env k r new_computed num_local num_external main need_slot num_encoder_tokens to_cache delay =
     ebind (case (new_computed, num_external > 0) of
              (EmptyKVCacheBlocks _, False) \<Rightarrow> Inr (coordinator k)
            | _ \<Rightarrow> coord_allocate_new_computed_blocks env (coordinator k) (request_id r)
                     (alloc_groups new_computed) num_local num_external) (\<lambda>c1.
     ebind (coord_allocate_new_blocks env c1 (request_id r) need_slot main num_encoder_tokens) (\<lambda>(new_blocks, c2).
       if \<not> k_enable_caching k \<or> delay
       then Inr (Some (create_kv_cache_blocks k new_blocks), k\<lparr>coordinator := c2\<rparr>, r)
       else
         ebind (coord_cache_blocks env c2 r to_cache) (\<lambda>(c3, r').
           Inr (Some (create_kv_cache_blocks k new_blocks), k\<lparr>coordinator := c3\<rparr>, r'))))"

definition allocate_slots ::
  "hash_env \<Rightarrow> kv_cache_manager \<Rightarrow> request \<Rightarrow> int \<Rightarrow> int \<Rightarrow> alloc_blocks option \<Rightarrow> int \<Rightarrow> int \<Rightarrow> bool \<Rightarrow> int \<Rightarrow> bool
   \<Rightarrow> (alloc_blocks option \<times> kv_cache_manager \<times> request) res" where
  "allocate_slots env k r num_new_tokens num_new_computed_tokens new_computed_blocks num_lookahead_tokens
     num_external_computed_tokens delay num_encoder_tokens full_sequence_must_fit =
     (if num_new_tokens = 0 \<and> num_external_computed_tokens = 0 then Inl ValueError
      else
        let new_computed = (case new_computed_blocks of
                              Some b \<Rightarrow> b | None \<Rightarrow> EmptyKVCacheBlocks (num_kv_cache_groups k));
            num_local = num_computed_tokens r + num_new_computed_tokens;
            total_computed_tokens = min (num_local + num_external_computed_tokens) (k_max_model_len k)
        in ebind (if full_sequence_must_fit
                  then admission_gate k r (alloc_groups new_computed) num_encoder_tokens total_computed_tokens
                  else Inr (True, k)) (\<lambda>(fits, k1).
             if \<not> fits then Inr (None, k1, r)
             else
               let main = total_computed_tokens + num_new_tokens;
                   need_slot = min (main + num_lookahead_tokens) (k_max_model_len k1)
               in ebind (coord_remove_skipped_blocks (coordinator k1) (request_id r) total_computed_tokens) (\<lambda>c2.
                  ebind (coord_num_blocks_to_allocate c2 (request_id r) need_slot (alloc_groups new_computed)
                           num_encoder_tokens (num_local + num_external_computed_tokens) main False) (\<lambda>(n, c3).
                    if n > get_num_free_blocks (c_pool c3) then Inr (None, k1\<lparr>coordinator := c3\<rparr>, r)
                    else allocate_checked env (k1\<lparr>coordinator := c3\<rparr>) r new_computed num_local
                           num_external_computed_tokens main need_slot num_encoder_tokens
                           (min (total_computed_tokens + num_new_tokens) (num_tokens r)) delay))))"

definition k_free :: "kv_cache_manager \<Rightarrow> request \<Rightarrow> kv_cache_manager res" where
  "k_free k r = ebind (coord_free (coordinator k) (request_id r)) (\<lambda>c. Inr (k\<lparr>coordinator := c\<rparr>))"

definition k_remove_skipped_blocks :: "kv_cache_manager \<Rightarrow> string \<Rightarrow> int \<Rightarrow> kv_cache_manager res" where
  "k_remove_skipped_blocks k rid total_computed_tokens =
     ebind (coord_remove_skipped_blocks (coordinator k) rid total_computed_tokens) (\<lambda>c. Inr (k\<lparr>coordinator := c\<rparr>))"

definition k_evict_blocks :: "hash_env \<Rightarrow> kv_cache_manager \<Rightarrow> int list \<Rightarrow> kv_cache_manager res" where
  "k_evict_blocks env k block_ids = ebind (evict_blocks env (k_pool k) block_ids) (\<lambda>p. Inr (k_set_pool k p))"

definition k_reset_prefix_cache :: "kv_cache_manager \<Rightarrow> (bool \<times> kv_cache_manager) res" where
  "k_reset_prefix_cache k =
     (let (ok, p) = pool_reset_prefix_cache (k_pool k); k1 = k_set_pool k p
      in if \<not> ok then Inr (False, k1)
         else if \<not> k_log_stats k then Inr (True, k1)
         else case k_prefix_cache_stats k of
           None \<Rightarrow> Inl AssertionError
         | Some s \<Rightarrow> Inr (True, k1\<lparr>k_prefix_cache_stats := Some (s\<lparr>stats_reset := True\<rparr>)\<rparr>))"

definition k_num_common_prefix_blocks :: "kv_cache_manager \<Rightarrow> string \<Rightarrow> (int list \<times> kv_cache_manager) res" where
  "k_num_common_prefix_blocks k rid =
     ebind (coord_num_common_prefix_blocks (coordinator k) rid) (\<lambda>(ns, c). Inr (ns, k\<lparr>coordinator := c\<rparr>))"

definition k_take_events :: "kv_cache_manager \<Rightarrow> kv_cache_event list \<times> kv_cache_manager" where
  "k_take_events k = (let (evs, p) = pool_take_events (k_pool k) in (evs, k_set_pool k p))"

definition k_get_blocks :: "kv_cache_manager \<Rightarrow> string \<Rightarrow> alloc_blocks" where
  "k_get_blocks k rid = create_kv_cache_blocks k (coord_get_blocks (coordinator k) rid)"

definition k_get_block_ids :: "kv_cache_manager \<Rightarrow> string \<Rightarrow> int list list option" where
  "k_get_block_ids k rid = get_block_ids (k_pool k) (k_get_blocks k rid) False"

definition k_cache_blocks :: "hash_env \<Rightarrow> kv_cache_manager \<Rightarrow> request \<Rightarrow> int \<Rightarrow> (kv_cache_manager \<times> request) res" where
  "k_cache_blocks env k r computed =
     (if k_enable_caching k
      then ebind (coord_cache_blocks env (coordinator k) r computed) (\<lambda>(c, r'). Inr (k\<lparr>coordinator := c\<rparr>, r'))
      else Inr (k, r))"

definition k_take_new_block_ids :: "kv_cache_manager \<Rightarrow> int list \<times> kv_cache_manager" where
  "k_take_new_block_ids k =
     (let rs = map take_new_block_ids (single_type_managers (coordinator k))
      in (concat (map fst rs), k\<lparr>coordinator := (coordinator k)\<lparr>single_type_managers := map snd rs\<rparr>\<rparr>))"

definition k_new_step_starts :: "kv_cache_manager \<Rightarrow> kv_cache_manager" where
  "k_new_step_starts k = k\<lparr>coordinator := coord_new_step_starts (coordinator k)\<rparr>"

end
