(* ===== verification/Manager_Refs.thy ===== *)
theory Manager_Refs
  imports KV_Managers
begin

text \<open>
  The reference invariant of the managers. Every entry of a block table other than the null block
  counts once in the reference count of its block, over all tables of all managers. Each operation
  of a manager keeps this, whatever the other managers hold: their references are the multiset \<open>R\<close>
  in the contracts below. With the invariant of the pool it follows that a block in a table is never
  in the free queue.
\<close>

named_theorems manager_simps \<open>fields and tables after an operation of a manager\<close>

section \<open>The invariant\<close>

abbreviation refs :: "kv_manager \<Rightarrow> addr multiset" where
  "refs m \<equiv> dict_refs (req_to_blocks m)"

definition holds :: "block_pool \<Rightarrow> addr multiset \<Rightarrow> bool" where
  "holds p R \<longleftrightarrow> (\<forall>a \<in> set (blocks p). a \<noteq> 0 \<longrightarrow> rc p a = int (count R a))"

definition table_ok :: "block_pool \<Rightarrow> addr list \<Rightarrow> bool" where
  "table_ok p t \<longleftrightarrow> set t \<subseteq> set (blocks p) \<and> table_distinct t"

text \<open>
  The spec fits the class, and a window or chunk is not empty. Attention sinks and the align mode of
  Mamba are left out: the former keeps blocks outside both the queue and the tables.
\<close>

definition spec_ok :: "kv_manager \<Rightarrow> bool" where
  "spec_ok m \<longleftrightarrow>
     spec_manager_map (m_spec m) = Inr (m_class m) \<and> m_class m \<noteq> SinkFullAttentionManager
     \<and> 0 < m_block_size m
     \<and> (\<forall>w. window_of (m_spec m) = Some w \<longrightarrow> 0 < w) \<and> (\<forall>c. chunk_of (m_spec m) = Some c \<longrightarrow> 0 < c)
     \<and> (\<forall>s. mamba_of (m_spec m) = Some s \<longrightarrow> 0 \<le> mb_num_speculative_blocks s \<and> mb_cache_mode s \<noteq> ''align''
            \<and> m_block_size m = mb_block_size s)"

definition manager_ok :: "block_pool \<Rightarrow> kv_manager \<Rightarrow> bool" where
  "manager_ok p m \<longleftrightarrow>
     spec_ok m \<and> m_null_block m = 0 \<and> dict_ok (req_to_blocks m) \<and> (\<forall>rid. table_ok p (req_table m rid))"

text \<open>What no operation changes.\<close>

definition same_manager :: "kv_manager \<Rightarrow> kv_manager \<Rightarrow> bool" where
  "same_manager m m' \<longleftrightarrow>
     m_class m' = m_class m \<and> m_spec m' = m_spec m \<and> m_block_size m' = m_block_size m
     \<and> m_enable_caching m' = m_enable_caching m \<and> m_max_admission m' = m_max_admission m
     \<and> kv_cache_group_id m' = kv_cache_group_id m \<and> m_null_block m' = m_null_block m"

lemma same_manager_refl [simp]: "same_manager m m"
  by (simp add: same_manager_def)

lemma same_manager_trans: "same_manager m m' \<Longrightarrow> same_manager m' m'' \<Longrightarrow> same_manager m m''"
  by (simp add: same_manager_def)

lemma same_manager_fields [simp]:
  "same_manager m (set_table m' rid t) = same_manager m m'"
  "same_manager m (m'\<lparr>new_block_ids := ids\<rparr>) = same_manager m m'"
  "same_manager m (m'\<lparr>num_cached_block := d\<rparr>) = same_manager m m'"
  "same_manager m (m'\<lparr>cached_blocks_this_step := ks\<rparr>) = same_manager m m'"
  "same_manager m (m'\<lparr>allocated_block_reqs := rs\<rparr>) = same_manager m m'"
  "same_manager m (m'\<lparr>last_state_block_idx := li\<rparr>) = same_manager m m'"
  "same_manager m (m'\<lparr>req_to_blocks := ts\<rparr>) = same_manager m m'"
  by (auto simp: same_manager_def set_table_def)

lemma same_manager_spec: "same_manager m m' \<Longrightarrow> spec_ok m' = spec_ok m"
  by (simp add: same_manager_def spec_ok_def)

lemma table_ok_cong: "same_config p p' \<Longrightarrow> table_ok p' t = table_ok p t"
  by (simp add: table_ok_def same_config_def)

lemma manager_ok_cong: "same_config p p' \<Longrightarrow> manager_ok p' m = manager_ok p m"
  by (simp add: manager_ok_def table_ok_cong)

text \<open>Tables after a write.\<close>

lemma req_table_set_table [simp, manager_simps]:
  "req_table (set_table m rid t) x = (if x = rid then t else req_table m x)"
  by (simp add: req_table_def set_table_def)

lemma req_table_fields [simp]:
  "req_table (m\<lparr>new_block_ids := ids\<rparr>) x = req_table m x"
  "req_table (m\<lparr>num_cached_block := d\<rparr>) x = req_table m x"
  "req_table (m\<lparr>cached_blocks_this_step := ks\<rparr>) x = req_table m x"
  "req_table (m\<lparr>allocated_block_reqs := rs\<rparr>) x = req_table m x"
  "req_table (m\<lparr>last_state_block_idx := li\<rparr>) x = req_table m x"
  by (simp_all add: req_table_def)

lemma refs_set_table:
  assumes "dict_ok (req_to_blocks m)"
  shows "refs (set_table m rid t) + mset (req_table m rid) = refs m + mset t"
  using dict_refs_dset[OF assms, of rid t] by (simp add: set_table_def req_table_def)

lemma set_table_fields [simp]:
  "req_to_blocks (set_table m rid t) = dset rid t (req_to_blocks m)"
  "num_cached_block (set_table m rid t) = num_cached_block m"
  "m_null_block (set_table m rid t) = m_null_block m"
  "m_spec (set_table m rid t) = m_spec m"
  "m_class (set_table m rid t) = m_class m"
  "m_block_size (set_table m rid t) = m_block_size m"
  "new_block_ids (set_table m rid t) = new_block_ids m"
  "last_state_block_idx (set_table m rid t) = last_state_block_idx m"
  "allocated_block_reqs (set_table m rid t) = allocated_block_reqs m"
  "cached_blocks_this_step (set_table m rid t) = cached_blocks_this_step m"
  "kv_cache_group_id (set_table m rid t) = kv_cache_group_id m"
  by (simp_all add: set_table_def)

lemma manager_ok_fields [simp]:
  "manager_ok p (m\<lparr>new_block_ids := ids\<rparr>) = manager_ok p m"
  "manager_ok p (m\<lparr>num_cached_block := d\<rparr>) = manager_ok p m"
  "manager_ok p (m\<lparr>cached_blocks_this_step := ks\<rparr>) = manager_ok p m"
  "manager_ok p (m\<lparr>allocated_block_reqs := rs\<rparr>) = manager_ok p m"
  "manager_ok p (m\<lparr>last_state_block_idx := li\<rparr>) = manager_ok p m"
  by (simp_all add: manager_ok_def spec_ok_def)

lemma manager_ok_set_table: "manager_ok p m \<Longrightarrow> table_ok p t \<Longrightarrow> manager_ok p (set_table m rid t)"
  using same_manager_spec[of m "set_table m rid t"] by (simp add: manager_ok_def)

lemma table_ok_Nil [simp]: "table_ok p []"
  by (simp add: table_ok_def)

lemma manager_okI:
  assumes "manager_ok p m" and "same_manager m m'" and "same_config p p'" and "dict_ok (req_to_blocks m')"
    and "\<And>x. table_ok p (req_table m' x)"
  shows "manager_ok p' m'"
  using assms same_manager_spec[OF assms(2)]
  by (simp add: manager_ok_cong[OF assms(3)]) (simp add: manager_ok_def same_manager_def)

lemma manager_ok_tables: "manager_ok p m \<Longrightarrow> table_ok p (req_table m x)"
  by (simp add: manager_ok_def)

lemma count_table: "a \<in> set (req_table m rid) \<Longrightarrow> 0 < count (refs m) a"
  using mset_subset_eqD[OF dict_refs_dget_or_le[of "req_to_blocks m" rid], of a]
  by (simp add: req_table_def)

lemma count_table_list:
  assumes "dict_ok (req_to_blocks m)"
  shows "count (refs (set_table m rid t)) a + count_list (req_table m rid) a = count (refs m) a + count_list t a"
  using arg_cong[OF refs_set_table[OF assms, of rid t], of "\<lambda>R. count R a"]
  by (simp add: count_mset)

text \<open>A referenced block is not free.\<close>

lemma holds_not_free:
  assumes "pool_rep p fs" and "holds p (refs m + R)" and "a \<in> set (req_table m rid)"
  shows "a \<notin> set fs"
proof
  assume "a \<in> set fs"
  then have "a \<in> set (blocks p)" "a \<noteq> 0" "rc p a = 0"
    using pool_rep_facts(8)[OF assms(1), of a] by auto
  then have "count (refs m) a + count R a = 0"
    using assms(2) unfolding holds_def by (metis count_union of_nat_eq_0_iff)
  with count_table[OF assms(3)] show False by linarith
qed

lemma free_not_held:
  assumes "pool_rep p fs" and "holds p R" and "a \<in> set fs"
  shows "count R a = 0" "a \<noteq> 0" "a \<in> set (blocks p)"
  using assms pool_rep_facts(8)[OF assms(1), of a] by (auto simp: holds_def)

lemma holds_change:
  assumes "holds p R" and "same_config p p'"
    and rc: "\<And>x. x \<noteq> 0 \<Longrightarrow> rc p' x = rc p x + int (count_list new x) - int (count_list old x)"
    and eq: "\<And>x. x \<noteq> 0 \<Longrightarrow> count R' x + count_list old x = count R x + count_list new x"
  shows "holds p' R'"
proof -
  have "int (count R' a) = int (count R a) + int (count_list new a) - int (count_list old a)" if "a \<noteq> 0" for a
    using eq[OF that] by (metis add_diff_cancel_right' of_nat_add)
  with assms(1,2) rc show ?thesis by (simp add: holds_def same_config_def)
qed

lemma holds_cong: "holds p R \<Longrightarrow> same_config p p' \<Longrightarrow> (\<And>x. rc p' x = rc p x) \<Longrightarrow> holds p' R"
  by (simp add: holds_def same_config_def)

lemma table_refs_pos:
  assumes "holds p (refs m + R)" and "manager_ok p m" and "a \<in> set (req_table m rid)" and "a \<noteq> 0"
  shows "1 \<le> rc p a"
proof -
  have "a \<in> set (blocks p)"
    using assms(2,3) by (auto simp: manager_ok_def table_ok_def)
  with assms have "rc p a = int (count (refs m) a) + int (count R a)" by (simp add: holds_def)
  with count_table[OF assms(3)] show ?thesis by linarith
qed

section \<open>Freeing a request\<close>

lemma free_request_spec:
  assumes rep: "pool_rep p fs" and ok: "manager_ok p m" and held: "holds p (refs m + R)"
  obtains m' p' where "free_request m p rid = Inr (m', p')"
    "pool_rep p' (fs @ filter (\<lambda>a. a \<noteq> 0 \<and> rc p a = 1) (rev (req_table m rid)))"
    "same_config p p'" "manager_ok p' m'" "holds p' (refs m' + R)" "same_manager m m'"
    "\<And>x. req_table m' x = (if x = rid then [] else req_table m x)"
    "num_cached_block m' = ddel rid (num_cached_block m)" "\<And>x. bh p' x = bh p x"
    "\<And>x. rc p' x = rc p x - int (count_list (req_table m rid) x)"
proof -
  let ?t = "req_table m rid"
  have "set (rev ?t) \<subseteq> set (blocks p)" "table_distinct (rev ?t)"
    using ok by (auto simp: manager_ok_def table_ok_def)
  moreover have "1 \<le> rc p a" if "a \<in> set (rev ?t)" "a \<noteq> 0" for a
    using table_refs_pos[OF held ok] that by simp
  ultimately obtain p' where free: "free_blocks p (rev ?t) = Inr p'"
    and rep': "pool_rep p' (fs @ filter (\<lambda>a. a \<noteq> 0 \<and> rc p a = 1) (rev ?t))" and cfg: "same_config p p'"
    and rc: "\<forall>x. rc p' x = rc p x - int (count_list (rev ?t) x)" and bh: "\<forall>x. bh p' x = bh p x"
    using free_blocks_spec[OF rep, of "rev ?t"] by blast
  define m1 where "m1 = (if m_class m = MambaManager \<and> mamba_mode m = ''align''
                then m\<lparr>allocated_block_reqs := removeAll rid (allocated_block_reqs m),
                       last_state_block_idx := ddel rid (last_state_block_idx m)\<rparr>
                else m)"
  define m' where "m' = m1\<lparr>req_to_blocks := ddel rid (req_to_blocks m1), num_cached_block := ddel rid (num_cached_block m1)\<rparr>"
  have m1: "req_to_blocks m1 = req_to_blocks m" "num_cached_block m1 = num_cached_block m" "same_manager m m1"
    by (simp_all add: m1_def)
  then have tab: "req_table m1 x = req_table m x" for x
    by (simp add: req_table_def)
  have run: "free_request m p rid = Inr (m', p')"
    unfolding free_request_def m1_def[symmetric] Let_def tab free by (simp add: m'_def)
  have tab': "req_table m' x = (if x = rid then [] else req_table m x)" for x
    by (simp add: m'_def m1 req_table_def)
  have same: "same_manager m m'" using m1(3) by (simp add: m'_def)
  have "manager_ok p' m'"
  proof (rule manager_okI[OF ok same cfg])
    show "dict_ok (req_to_blocks m')" using ok by (simp add: m'_def m1 manager_ok_def)
    show "table_ok p (req_table m' x)" for x using manager_ok_tables[OF ok, of x] by (simp add: tab')
  qed
  moreover have "holds p' (refs m' + R)"
  proof (rule holds_change[OF held cfg, of "[]" "?t"])
    have "refs m' + mset ?t = refs m"
      using dict_refs_ddel[of "req_to_blocks m" rid] ok by (simp add: m'_def m1 manager_ok_def req_table_def)
    then have "count (refs m') x + count_list ?t x = count (refs m) x" for x
      by (metis count_mset count_union)
    then show "count (refs m' + R) x + count_list ?t x = count (refs m + R) x + count_list [] x" for x
      by (metis add.commute add.left_commute count_list.simps(1) count_union add_0)
  qed (simp add: rc)
  ultimately show thesis
    using that[OF run rep' cfg _ _ same tab' _ _] bh rc by (simp add: m'_def m1)
qed

section \<open>Growing a table\<close>

lemma count_list_distinct: "distinct xs \<Longrightarrow> count_list xs x = (if x \<in> set xs then 1 else 0)"
  by (induction xs) auto

lemma table_distinct_disj:
  "table_distinct (xs @ ys) \<longleftrightarrow> table_distinct xs \<and> table_distinct ys \<and> (\<forall>a \<in> set xs. a \<noteq> 0 \<longrightarrow> a \<notin> set ys)"
  by (auto simp: table_distinct_def)

lemma table_ok_append:
  "table_ok p (xs @ ys) \<longleftrightarrow> table_ok p xs \<and> table_ok p ys \<and> (\<forall>a \<in> set xs. a \<noteq> 0 \<longrightarrow> a \<notin> set ys)"
  by (auto simp: table_ok_def table_distinct_disj)

lemma refs_append_table:
  "dict_ok (req_to_blocks m) \<Longrightarrow> refs (set_table m rid (req_table m rid @ new)) = refs m + mset new"
  using refs_set_table[of m rid "req_table m rid @ new"] by simp

text \<open>New blocks from the pool at the end of a table: the step all allocations share.\<close>

lemma grow_table:
  assumes rep: "pool_rep p fs" and ok: "manager_ok p m" and held: "holds p (refs m + R)" and n: "n \<le> length fs"
  obtains p' where "get_new_blocks env p (int n) = Inr (take n fs, p')" "pool_rep p' (drop n fs)" "same_config p p'"
    "\<And>x. rc p' x = (if x \<in> set (take n fs) then 1 else rc p x)"
    "\<And>x. bh p' x = (if x \<in> set (take n fs) then None else bh p x)"
    "manager_ok p' (set_table m rid (req_table m rid @ take n fs))"
    "holds p' (refs (set_table m rid (req_table m rid @ take n fs)) + R)"
proof -
  let ?new = "take n fs" and ?m = "set_table m rid (req_table m rid @ take n fs)"
  obtain p' where run: "get_new_blocks env p (int n) = Inr (?new, p')" and rep': "pool_rep p' (drop n fs)"
    and cfg: "same_config p p'" and rc: "\<And>x. rc p' x = (if x \<in> set ?new then 1 else rc p x)"
    and bh: "\<And>x. bh p' x = (if x \<in> set ?new then None else bh p x)"
    using get_new_blocks_spec[OF rep n, of env] by blast
  have fresh: "a \<in> set (blocks p)" "a \<noteq> 0" "rc p a = 0" if "a \<in> set ?new" for a
    using pool_rep_facts(8)[OF rep, of a] in_set_takeD[OF that] by auto
  have dist: "distinct ?new" using pool_rep_facts(7)[OF rep] by simp
  then have "table_ok p ?new"
    using fresh by (auto simp: table_ok_def table_distinct_def)
  moreover have "a \<notin> set ?new" if "a \<in> set (req_table m rid)" for a
    using holds_not_free[OF rep held that] in_set_takeD by metis
  ultimately have "manager_ok p ?m"
    using ok manager_ok_tables[OF ok, of rid] by (intro manager_ok_set_table) (auto simp: table_ok_append)
  then have ok': "manager_ok p' ?m" by (simp add: manager_ok_cong[OF cfg])
  have "rc p' x = rc p x + int (count_list ?new x) - int (count_list [] x)" for x
    using fresh(3)[of x] by (simp add: rc count_list_distinct[OF dist])
  then have "holds p' (refs ?m + R)"
  proof (rule holds_change[OF held cfg])
    have "refs ?m = refs m + mset ?new"
      using refs_append_table[of m rid ?new] ok by (simp add: manager_ok_def)
    then show "count (refs ?m + R) x + count_list [] x = count (refs m + R) x + count_list ?new x" for x
      by (simp del: set_table_fields add: count_mset)
  qed
  with run rep' cfg rc bh ok' show thesis by (rule that)
qed

lemma base_allocate_new_blocks_spec:
  assumes rep: "pool_rep p fs" and ok: "manager_ok p m" and held: "holds p (refs m + R)"
    and n: "n = nat (cdiv ntok (m_block_size m) - int (length (req_table m rid)))" "n \<le> length fs"
  obtains m' p' where "base_allocate_new_blocks env m p rid ntok = Inr (take n fs, m', p')"
    "pool_rep p' (drop n fs)" "same_config p p'" "manager_ok p' m'" "holds p' (refs m' + R)" "same_manager m m'"
    "\<And>x. req_table m' x = (if x = rid then req_table m rid @ take n fs else req_table m x)"
    "num_cached_block m' = num_cached_block m"
    "\<And>x. rc p' x = (if x \<in> set (take n fs) then 1 else rc p x)"
    "\<And>x. bh p' x = (if x \<in> set (take n fs) then None else bh p x)"
proof -
  let ?m = "set_table m rid (req_table m rid @ take n fs)"
  obtain p' where grow: "get_new_blocks env p (int n) = Inr (take n fs, p')" "pool_rep p' (drop n fs)" "same_config p p'"
    "\<And>x. rc p' x = (if x \<in> set (take n fs) then 1 else rc p x)"
    "\<And>x. bh p' x = (if x \<in> set (take n fs) then None else bh p x)"
    "manager_ok p' ?m" "holds p' (refs ?m + R)"
    using grow_table[OF rep ok held n(2), of env rid] by blast
  show thesis
  proof (cases "n = 0")
    case True
    then have "base_allocate_new_blocks env m p rid ntok = Inr (take n fs, set_table m rid (req_table m rid), p)"
      using n(1) by (simp add: base_allocate_new_blocks_def Let_def)
    moreover have "refs (set_table m rid (req_table m rid)) = refs m"
      using refs_set_table[of m rid "req_table m rid"] ok by (simp add: manager_ok_def)
    ultimately show thesis
      using True rep held manager_ok_set_table[OF ok manager_ok_tables[OF ok], of rid rid]
      by (intro that[of "set_table m rid (req_table m rid)" p]) simp_all
  next
    case False
    define m' where "m' = (if zeroed_kind (m_spec m)
      then ?m\<lparr>new_block_ids := new_block_ids ?m @ map (\<lambda>b. block_id (bp_heap p' b)) (take n fs)\<rparr> else ?m)"
    have "\<not> cdiv ntok (m_block_size m) - int (length (req_table m rid)) \<le> 0"
      and "cdiv ntok (m_block_size m) - int (length (req_table m rid)) = int n"
      using False n(1) by auto
    then have run: "base_allocate_new_blocks env m p rid ntok = Inr (take n fs, m', p')"
      by (simp add: base_allocate_new_blocks_def Let_def grow(1) m'_def)
    show thesis
      by (rule that[OF run grow(2,3) _ _ _ _ _ grow(4,5)]) (use grow(6,7) in \<open>auto simp: m'_def\<close>)
  qed
qed

lemma base_allocate_new_blocks_short:
  assumes "pool_rep p fs" and "int (length fs) < cdiv ntok (m_block_size m) - int (length (req_table m rid))"
  shows "base_allocate_new_blocks env m p rid ntok = Inl ValueError"
  using assms get_new_blocks_short[OF assms(1), of _ env] by (simp add: base_allocate_new_blocks_def Let_def)

section \<open>Taking over computed blocks\<close>

definition skipped_blocks :: "kv_manager \<Rightarrow> int \<Rightarrow> int" where
  "skipped_blocks m tot = get_num_skipped_tokens m tot div m_block_size m"

text \<open>The computed blocks that are inside the window, and the table they give.\<close>

definition kept_blocks :: "kv_manager \<Rightarrow> addr list \<Rightarrow> int \<Rightarrow> addr list" where
  "kept_blocks m computed tot = drop (nat (skipped_blocks m tot)) computed"

definition computed_table :: "kv_manager \<Rightarrow> addr list \<Rightarrow> int \<Rightarrow> addr list" where
  "computed_table m computed tot = replicate (nat (skipped_blocks m tot)) 0 @ kept_blocks m computed tot"

definition external_tokens :: "kv_manager \<Rightarrow> int \<Rightarrow> int \<Rightarrow> int" where
  "external_tokens m tot ext =
     (if skipped_blocks m tot > 0 then min (tot - get_num_skipped_tokens m tot) ext else ext)"

lemma length_computed_table:
  "length (computed_table m computed tot) = max (nat (skipped_blocks m tot)) (length computed)"
  by (simp add: computed_table_def kept_blocks_def)

lemma table_ok_drop: "table_ok p t \<Longrightarrow> table_ok p (drop n t)"
  using set_drop_subset[of n t] table_distinct_disj[of "take n t" "drop n t"] by (auto simp: table_ok_def)

lemma table_ok_replicate: "0 \<in> set (blocks p) \<Longrightarrow> table_ok p (replicate n 0)"
  by (induction n) (auto simp: table_ok_def)

lemma computed_table_ok:
  assumes "pool_rep p fs" and "table_ok p computed"
  shows "table_ok p (computed_table m computed tot)"
  using table_ok_replicate[OF pool_rep_facts(3)[OF assms(1)]] table_ok_drop[OF assms(2)]
  by (simp add: computed_table_def kept_blocks_def table_ok_append)

text \<open>Sharing the kept blocks: touch them and store the table.\<close>

lemma share_blocks:
  assumes rep: "pool_rep p fs" and ok: "manager_ok p m" and held: "holds p (refs m + R)"
    and empty: "req_table m rid = []" and comp: "table_ok p computed"
    and caching: "m_enable_caching m \<or> kept_blocks m computed tot = []"
  obtains p1 where
    "(if m_enable_caching m then touch p (kept_blocks m computed tot)
      else if kept_blocks m computed tot \<noteq> [] then Inl AssertionError else Inr p) = Inr p1"
    "pool_rep p1 (filter (\<lambda>b. b \<notin> set (kept_blocks m computed tot)) fs)" "same_config p p1"
    "\<And>x. rc p1 x = rc p x + int (count_list (kept_blocks m computed tot) x)" "\<And>x. bh p1 x = bh p x"
    "manager_ok p1 (set_table m rid (computed_table m computed tot))"
    "holds p1 (refs (set_table m rid (computed_table m computed tot)) + R)"
proof -
  let ?kept = "kept_blocks m computed tot" and ?t = "computed_table m computed tot"
  let ?m = "set_table m rid ?t"
  have "set ?kept \<subseteq> set (blocks p)"
    using table_ok_drop[OF comp] by (auto simp: table_ok_def kept_blocks_def)
  from touch_spec[OF rep this] obtain p1 where touch: "touch p ?kept = Inr p1"
    and rep1: "pool_rep p1 (filter (\<lambda>b. b \<notin> set ?kept) fs)" and cfg: "same_config p p1"
    and rc: "\<And>x. rc p1 x = rc p x + int (count_list ?kept x)" and bh: "\<And>x. bh p1 x = bh p x"
    by blast
  have run: "(if m_enable_caching m then touch p ?kept
      else if ?kept \<noteq> [] then Inl AssertionError else Inr p) = Inr p1"
    using caching touch by (auto simp: touch_def)
  have ok1: "manager_ok p1 ?m"
    using manager_ok_set_table[OF ok computed_table_ok[OF rep comp]] by (simp add: manager_ok_cong[OF cfg])
  have "refs ?m = refs m + mset ?t"
    using refs_set_table[of m rid ?t] ok empty by (simp add: manager_ok_def)
  then have "count (refs ?m + R) x + count_list [] x = count (refs m + R) x + count_list ?kept x" if "x \<noteq> 0" for x
    using that by (simp del: set_table_fields add: count_mset computed_table_def)
  then have "holds p1 (refs ?m + R)"
    by (intro holds_change[OF held cfg, of ?kept "[]"]) (simp_all add: rc)
  with run rep1 cfg rc bh ok1 show thesis by (rule that)
qed

text \<open>The number of blocks taken for externally computed tokens.\<close>

definition external_blocks :: "kv_manager \<Rightarrow> addr list \<Rightarrow> int \<Rightarrow> int \<Rightarrow> nat" where
  "external_blocks m computed tot ext =
     (if external_tokens m tot ext > 0
      then nat (cdiv tot (m_block_size m) - int (length (computed_table m computed tot))) else 0)"

lemma base_allocate_new_computed_blocks_unfold:
  assumes "dget (num_cached_block m) rid = None" and "req_table m rid = []" and "m_null_block m = 0"
  shows "base_allocate_new_computed_blocks env m p rid computed loc ext =
    ebind (if m_enable_caching m then touch p (kept_blocks m computed (loc + ext))
           else if kept_blocks m computed (loc + ext) \<noteq> [] then Inl AssertionError else Inr p) (\<lambda>p1.
      let t = computed_table m computed (loc + ext);
          m1 = (set_table m rid t)\<lparr>num_cached_block := dset rid (int (length t)) (num_cached_block m)\<rparr>
      in if external_tokens m (loc + ext) ext > 0
         then ebind (get_new_blocks env p1 (cdiv (loc + ext) (m_block_size m) - int (length t))) (\<lambda>(allocated, p2).
                let m2 = set_table m1 rid (t @ allocated)
                in Inr (if zeroed_kind (m_spec m)
                        then m2\<lparr>new_block_ids := new_block_ids m2 @ map (\<lambda>b. block_id (bp_heap p2 b)) allocated\<rparr>
                        else m2, p2))
         else Inr (m1, p1))"
proof (cases "skipped_blocks m (loc + ext) > 0")
  case True
  then show ?thesis
    using assms unfolding base_allocate_new_computed_blocks_def
    by (simp add: Let_def kept_blocks_def computed_table_def external_tokens_def skipped_blocks_def)
next
  case False
  then show ?thesis
    using assms unfolding base_allocate_new_computed_blocks_def
    by (simp add: Let_def kept_blocks_def computed_table_def external_tokens_def skipped_blocks_def)
qed

lemma base_allocate_new_computed_blocks_spec:
  assumes rep: "pool_rep p fs" and ok: "manager_ok p m" and held: "holds p (refs m + R)"
    and new: "dget (num_cached_block m) rid = None" "req_table m rid = []" and comp: "table_ok p computed"
    and caching: "m_enable_caching m \<or> kept_blocks m computed (loc + ext) = []"
    and fits: "external_tokens m (loc + ext) ext > 0 \<Longrightarrow>
      int (length (computed_table m computed (loc + ext))) \<le> cdiv (loc + ext) (m_block_size m)"
    and fs': "fs' = filter (\<lambda>b. b \<notin> set (kept_blocks m computed (loc + ext))) fs"
    and n: "n = external_blocks m computed (loc + ext) ext" "n \<le> length fs'"
  obtains m' p' where "base_allocate_new_computed_blocks env m p rid computed loc ext = Inr (m', p')"
    "pool_rep p' (drop n fs')" "same_config p p'" "manager_ok p' m'" "holds p' (refs m' + R)" "same_manager m m'"
    "\<And>x. req_table m' x = (if x = rid then computed_table m computed (loc + ext) @ take n fs' else req_table m x)"
    "num_cached_block m' = dset rid (int (length (computed_table m computed (loc + ext)))) (num_cached_block m)"
    "\<And>x. rc p' x = (if x \<in> set (take n fs') then 1 else rc p x + int (count_list (kept_blocks m computed (loc + ext)) x))"
    "\<And>x. bh p' x = (if x \<in> set (take n fs') then None else bh p x)"
proof -
  let ?kept = "kept_blocks m computed (loc + ext)" and ?t = "computed_table m computed (loc + ext)"
  let ?m = "set_table m rid ?t" and ?d = "dset rid (int (length ?t)) (num_cached_block m)"
  obtain p1 where share: "(if m_enable_caching m then touch p ?kept
        else if ?kept \<noteq> [] then Inl AssertionError else Inr p) = Inr p1"
      "pool_rep p1 fs'" "same_config p p1"
      "\<And>x. rc p1 x = rc p x + int (count_list ?kept x)" "\<And>x. bh p1 x = bh p x"
      "manager_ok p1 ?m" "holds p1 (refs ?m + R)"
    using share_blocks[OF rep ok held new(2) comp caching] unfolding fs' by blast
  define m1 where "m1 = ?m\<lparr>num_cached_block := ?d\<rparr>"
  have ok1: "manager_ok p1 m1" and held1: "holds p1 (refs m1 + R)" and tab1: "req_table m1 rid = ?t"
    using share(6,7) by (simp_all add: m1_def)
  note unf = base_allocate_new_computed_blocks_unfold[OF new, of env p computed loc ext]
  obtain p2 where grow: "get_new_blocks env p1 (int n) = Inr (take n fs', p2)" "pool_rep p2 (drop n fs')" "same_config p1 p2"
    "\<And>x. rc p2 x = (if x \<in> set (take n fs') then 1 else rc p1 x)"
    "\<And>x. bh p2 x = (if x \<in> set (take n fs') then None else bh p1 x)"
    "manager_ok p2 (set_table m1 rid (?t @ take n fs'))" "holds p2 (refs (set_table m1 rid (?t @ take n fs')) + R)"
    using grow_table[OF share(2) ok1 held1 n(2), of env rid] unfolding tab1 by blast
  have null: "m_null_block m = 0" using ok by (simp add: manager_ok_def)
  show thesis
  proof (cases "external_tokens m (loc + ext) ext > 0")
    case True
    define m2 where "m2 = (if zeroed_kind (m_spec m)
      then (set_table m1 rid (?t @ take n fs'))\<lparr>new_block_ids :=
             new_block_ids (set_table m1 rid (?t @ take n fs')) @ map (\<lambda>b. block_id (bp_heap p2 b)) (take n fs')\<rparr>
      else set_table m1 rid (?t @ take n fs'))"
    have "cdiv (loc + ext) (m_block_size m) - int (length ?t) = int n"
      using n(1) True fits by (simp add: external_blocks_def)
    then have run: "base_allocate_new_computed_blocks env m p rid computed loc ext = Inr (m2, p2)"
      using True by (simp add: unf[OF null] share(1) grow(1) Let_def m2_def m1_def[symmetric])
    show thesis
      by (rule that[OF run grow(2) same_config_trans[OF share(3) grow(3)]])
         (use grow(4-7) share(4,5) in \<open>auto simp: m2_def m1_def\<close>)
  next
    case False
    then have n0: "n = 0" and run: "base_allocate_new_computed_blocks env m p rid computed loc ext = Inr (m1, p1)"
      using n(1) by (simp_all add: unf[OF null] share(1) Let_def m1_def external_blocks_def)
    show thesis
      by (rule that[OF run]) (use n0 share(2-5) ok1 held1 in \<open>auto simp: m1_def\<close>)
  qed
qed

section \<open>Removing skipped blocks\<close>

text \<open>
  The loop removes the entries from some position \<open>j\<close> up to \<open>n\<close>, in reverse order; \<open>j\<close> is the end of
  the leading null blocks.
\<close>

lemma remove_loop_spec:
  assumes "remove_loop 0 n t = (removed, t')" and "n \<le> length t"
  shows "\<exists>j \<le> n. removed = rev (drop j (take n t)) \<and> t' = take j t @ replicate (n - j) 0 @ drop n t
    \<and> 0 \<notin> set (drop j (take n t)) \<and> (j = 0 \<or> t ! (j - 1) = 0)"
  using assms
proof (induction n arbitrary: t removed t')
  case 0
  then show ?case by simp
next
  case (Suc i)
  show ?case
  proof (cases "t ! i = 0")
    case True
    with Suc.prems show ?thesis by (intro exI[of _ "Suc i"]) auto
  next
    case False
    let ?u = "t[i := 0]"
    obtain rem where rem: "remove_loop 0 i ?u = (rem, t')" and removed: "removed = t ! i # rem"
      using Suc.prems(1) False by (auto split: prod.splits)
    obtain j where j: "j \<le> i" "rem = rev (drop j (take i ?u))" "t' = take j ?u @ replicate (i - j) 0 @ drop i ?u"
      "0 \<notin> set (drop j (take i ?u))" "j = 0 \<or> ?u ! (j - 1) = 0"
    proof -
      have "i \<le> length ?u" using Suc.prems(2) by simp
      from Suc.IH[OF rem this] that show ?thesis by blast
    qed
    have "drop i ?u = 0 # drop (Suc i) t"
      using Suc.prems(2) by (metis Cons_nth_drop_Suc Suc_le_lessD drop_update_cancel length_list_update lessI nth_list_update_eq)
    moreover have "drop j (take (Suc i) t) = drop j (take i t) @ [t ! i]"
      using Suc.prems(2) j(1) by (simp add: take_Suc_conv_app_nth)
    moreover have "replicate (i - j) 0 @ 0 # drop (Suc i) t = replicate (Suc i - j) 0 @ drop (Suc i) t"
      using j(1) by (metis Suc_diff_le append.simps(2) replicate_Suc replicate_app_Cons_same)
    moreover have "j = 0 \<or> t ! (j - 1) = 0"
      using j(1,5) by (cases j) auto
    ultimately show ?thesis
      using j(1-4) False removed by (intro exI[of _ j]) auto
  qed
qed

definition removed_count :: "kv_manager \<Rightarrow> string \<Rightarrow> int \<Rightarrow> nat" where
  "removed_count m rid computed = nat (min (skipped_blocks m computed) (int (length (req_table m rid))))"

lemma table_ok_part: "table_ok p (xs @ ys @ zs) \<Longrightarrow> table_ok p ys"
  by (simp add: table_ok_append)

lemma count_list_replicate: "count_list (replicate n x) y = (if x = y then n else 0)"
  by (induction n) auto

lemma base_remove_skipped_blocks_spec:
  assumes rep: "pool_rep p fs" and ok: "manager_ok p m" and held: "holds p (refs m + R)"
    and n: "n = removed_count m rid computed" and t: "t = req_table m rid"
  obtains m' p' j where "base_remove_skipped_blocks m p rid computed = Inr (m', p')"
    "pool_rep p' (fs @ filter (\<lambda>a. rc p a = 1) (rev (drop j (take n t))))"
    "same_config p p'" "manager_ok p' m'" "holds p' (refs m' + R)" "same_manager m m'"
    "\<And>x. req_table m' x = (if x = rid then take j t @ replicate (n - j) 0 @ drop n t else req_table m x)"
    "num_cached_block m' = num_cached_block m" "\<And>x. bh p' x = bh p x"
    "j \<le> n" "0 \<notin> set (drop j (take n t))" "j = 0 \<or> t ! (j - 1) = 0" "last_state_block_idx m' = last_state_block_idx m"
    "\<And>x. rc p' x = rc p x - int (count_list (drop j (take n t)) x)"
proof (cases "get_num_skipped_tokens m computed \<le> 0")
  case True
  then have "skipped_blocks m computed \<le> 0"
    using ok by (simp add: skipped_blocks_def manager_ok_def spec_ok_def div_nonpos_pos_le0)
  then have n0: "n = 0" by (simp add: n removed_count_def)
  show thesis
    by (rule that[of m p 0]) (use True n0 rep ok held t in \<open>auto simp: base_remove_skipped_blocks_def\<close>)
next
  case False
  have le: "n \<le> length t" by (simp add: n t removed_count_def)
  obtain removed t' where rem: "remove_loop 0 n t = (removed, t')" by (cases "remove_loop 0 n t")
  obtain j where j: "j \<le> n" "removed = rev (drop j (take n t))" "t' = take j t @ replicate (n - j) 0 @ drop n t"
    "0 \<notin> set (drop j (take n t))" "j = 0 \<or> t ! (j - 1) = 0"
    using remove_loop_spec[OF rem le] by blast
  define mid where "mid = drop j (take n t)"
  have split: "t = take j t @ mid @ drop n t"
    using j(1) unfolding mid_def by (metis append_assoc append_take_drop_id min.absorb1 take_take)
  have tok: "table_ok p t" using manager_ok_tables[OF ok] by (simp add: t)
  then have mid: "table_ok p mid" by (metis split table_ok_part)
  have "1 \<le> rc p a" if "a \<in> set mid" "a \<noteq> 0" for a
    using table_refs_pos[OF held ok, of a rid] that split t by (metis UnCI set_append)
  then obtain p' where free: "free_blocks p removed = Inr p'"
    and rep': "pool_rep p' (fs @ filter (\<lambda>a. a \<noteq> 0 \<and> rc p a = 1) removed)" and cfg: "same_config p p'"
    and rc: "\<And>x. rc p' x = rc p x - int (count_list mid x)" and bh: "\<And>x. bh p' x = bh p x"
    using free_blocks_spec[OF rep, of removed] mid by (auto simp: j(2) mid_def table_ok_def)
  have flt: "filter (\<lambda>a. a \<noteq> 0 \<and> rc p a = 1) removed = filter (\<lambda>a. rc p a = 1) (rev mid)"
    using j(4) by (auto simp: j(2) mid_def intro!: filter_cong) (metis gr0I)
  let ?m = "set_table m rid t'"
  have run: "base_remove_skipped_blocks m p rid computed = Inr (?m, p')"
    using False ok rem free n t
    by (simp add: base_remove_skipped_blocks_def Let_def removed_count_def skipped_blocks_def manager_ok_def)
  have "table_ok p t'"
    using tok pool_rep_facts(3)[OF rep] table_ok_replicate[of p "n - j"]
    by (subst (asm) split) (auto simp: j(3) table_ok_append)
  then have ok': "manager_ok p' ?m"
    using manager_ok_set_table[OF ok] by (simp add: manager_ok_cong[OF cfg])
  have "count_list t x = count_list t' x + count_list mid x" if "x \<noteq> 0" for x
    using that by (subst split) (simp add: j(3) count_list_replicate)
  then have "count (refs ?m + R) x + count_list mid x = count (refs m + R) x + count_list [] x" if "x \<noteq> 0" for x
    using count_table_list[of m rid t' x] ok that unfolding t[symmetric] by (simp add: manager_ok_def)
  then have held': "holds p' (refs ?m + R)"
    by (intro holds_change[OF held cfg, of "[]" mid]) (simp_all add: rc)
  show thesis
    by (rule that[OF run _ cfg ok' held', of j])
       (use rep' flt j bh rc in \<open>simp_all add: mid_def\<close>)
qed

end
