(* ===== verification/Manager_Inv.thy ===== *)
theory Manager_Inv
  imports Manager_Refs
begin

text \<open>
  Exclusive ownership. Besides the reference counts, every block in the part of a table that is not
  yet cached is referenced exactly once and has no hash: it may be written. The invariant of one
  manager is stated against the references \<open>R\<close> of the other managers, and every operation also keeps
  the exclusive blocks of the others (\<open>frame\<close>). Operations over all managers are lifted once, in the
  locale \<open>manager_op\<close>.
\<close>

section \<open>Exclusive blocks\<close>

definition exclusive :: "block_pool \<Rightarrow> addr \<Rightarrow> bool" where
  "exclusive p a \<longleftrightarrow> rc p a = 1 \<and> bh p a = None"

definition num_cached :: "kv_manager \<Rightarrow> string \<Rightarrow> int" where
  "num_cached m rid = dget_or 0 (num_cached_block m) rid"

definition tail_of :: "kv_manager \<Rightarrow> string \<Rightarrow> addr list" where
  "tail_of m rid = drop (nat (num_cached m rid)) (req_table m rid)"

definition tails_ok :: "block_pool \<Rightarrow> kv_manager \<Rightarrow> bool" where
  "tails_ok p m \<longleftrightarrow>
     (\<forall>rid. 0 \<le> num_cached m rid \<and> (\<forall>a \<in> set (tail_of m rid). a \<noteq> 0 \<longrightarrow> exclusive p a))"

definition frame :: "addr multiset \<Rightarrow> block_pool \<Rightarrow> block_pool \<Rightarrow> bool" where
  "frame R p p' \<longleftrightarrow> (\<forall>a. a \<in># R \<longrightarrow> a \<noteq> 0 \<longrightarrow> exclusive p a \<longrightarrow> exclusive p' a)"

definition manager_inv :: "block_pool \<Rightarrow> addr list \<Rightarrow> kv_manager \<Rightarrow> addr multiset \<Rightarrow> bool" where
  "manager_inv p fs m R \<longleftrightarrow> pool_rep p fs \<and> manager_ok p m \<and> holds p (refs m + R) \<and> tails_ok p m"

lemma manager_inv_parts:
  assumes "manager_inv p fs m R"
  shows "pool_rep p fs" "manager_ok p m" "holds p (refs m + R)"
  using assms by (simp_all add: manager_inv_def)

lemma frame_refl [simp]: "frame R p p"
  by (simp add: frame_def)

lemma frame_trans: "frame R p p' \<Longrightarrow> frame R p' p'' \<Longrightarrow> frame R p p''"
  by (simp add: frame_def)

lemma tail_subset: "set (tail_of m rid) \<subseteq> set (req_table m rid)"
  using set_drop_subset by (fastforce simp: tail_of_def)

lemma table_in_refs: "a \<in> set (req_table m rid) \<Longrightarrow> a \<in># refs m"
  using count_table[of a m rid] by simp

lemma tails_ok_frame:
  assumes "tails_ok p m" and "frame R p p'" and "refs m \<subseteq># R"
  shows "tails_ok p' m"
  using assms tail_subset table_in_refs mset_subset_eqD[OF assms(3)]
  unfolding tails_ok_def frame_def by (meson subset_iff)

lemma two_tables:
  assumes "dict_ok (req_to_blocks m)" and "rid \<noteq> rid'"
  shows "mset (req_table m rid) + mset (req_table m rid') \<subseteq># refs m"
proof -
  have "mset (dget_or [] (ddel rid (req_to_blocks m)) rid') \<subseteq># dict_refs (ddel rid (req_to_blocks m))"
    by (rule dict_refs_dget_or_le)
  moreover have "refs m = dict_refs (ddel rid (req_to_blocks m)) + mset (req_table m rid)"
    using dict_refs_ddel[OF assms(1), of rid] by (simp add: req_table_def)
  ultimately show ?thesis
    using assms(2) by (simp add: req_table_def)
qed

text \<open>A block with one reference is in one table only.\<close>

lemma single_owner:
  assumes ok: "manager_ok p m" and held: "holds p (refs m + R)" and a: "a \<in> set (req_table m rid)" "a \<noteq> 0" "rc p a = 1"
  shows "a \<notin># R" and "rid' \<noteq> rid \<Longrightarrow> a \<notin> set (req_table m rid')"
proof -
  have "a \<in> set (blocks p)" using ok a(1) by (auto simp: manager_ok_def table_ok_def)
  then have one: "count (refs m) a + count R a = 1"
    using held a(2,3) by (simp add: holds_def)
  then have "count R a = 0" using count_table[OF a(1)] by linarith
  then show "a \<notin># R" by (simp add: not_in_iff)
  assume "rid' \<noteq> rid"
  show "a \<notin> set (req_table m rid')"
  proof
    assume "a \<in> set (req_table m rid')"
    then have "0 < count_list (req_table m rid') a" "0 < count_list (req_table m rid) a"
      using a(1) by (metis count_list_0_iff gr0I)+
    moreover have "count_list (req_table m rid) a + count_list (req_table m rid') a \<le> count (refs m) a"
      using mset_subset_eq_count[OF two_tables[of m rid rid'], of a] ok \<open>rid' \<noteq> rid\<close>
      by (simp add: manager_ok_def count_mset)
    ultimately show False using one by linarith
  qed
qed

lemma exclusive_cong: "rc p' a = rc p a \<Longrightarrow> bh p' a = bh p a \<Longrightarrow> exclusive p' a = exclusive p a"
  by (simp add: exclusive_def)

text \<open>
  The shape all operations on one request share: the tails of the other requests and the blocks held
  elsewhere keep count and hash, because the operation only changes blocks that are free, or in the
  request's own table, or have a hash.
\<close>

lemma others_kept:
  assumes inv: "manager_inv p fs m R"
    and own: "\<And>a. a \<noteq> 0 \<Longrightarrow> a \<notin> set (req_table m rid) \<Longrightarrow> exclusive p a \<Longrightarrow> exclusive p' a"
  shows "frame R p p'" and "rid' \<noteq> rid \<Longrightarrow> a \<in> set (tail_of m rid') \<Longrightarrow> a \<noteq> 0 \<Longrightarrow> exclusive p' a"
proof -
  note ok = inv[unfolded manager_inv_def]
  show "frame R p p'"
    unfolding frame_def
  proof (intro allI impI)
    fix a assume a: "a \<in># R" "a \<noteq> 0" "exclusive p a"
    then have "a \<notin> set (req_table m rid)"
      using single_owner(1)[of p m R a rid] ok by (auto simp: exclusive_def)
    with a own show "exclusive p' a" by blast
  qed
  assume a: "rid' \<noteq> rid" "a \<in> set (tail_of m rid')" "a \<noteq> 0"
  then have "exclusive p a" "a \<in> set (req_table m rid')"
    using ok tail_subset by (auto simp: tails_ok_def)
  moreover from this have "a \<notin> set (req_table m rid)"
    using single_owner(2)[of p m R a rid' rid] ok a by (auto simp: exclusive_def)
  ultimately show "exclusive p' a" using own a(3) by blast
qed

lemma manager_inv_step:
  assumes inv: "manager_inv p fs m R"
    and own: "\<And>a. a \<noteq> 0 \<Longrightarrow> a \<notin> set (req_table m rid) \<Longrightarrow> exclusive p a \<Longrightarrow> exclusive p' a"
    and rest: "\<And>x. x \<noteq> rid \<Longrightarrow> req_table m' x = req_table m x" "\<And>x. x \<noteq> rid \<Longrightarrow> num_cached m' x = num_cached m x"
    and tail: "0 \<le> num_cached m' rid" "\<And>a. a \<in> set (tail_of m' rid) \<Longrightarrow> a \<noteq> 0 \<Longrightarrow> exclusive p' a"
    and pool: "pool_rep p' fs'" "manager_ok p' m'" "holds p' (refs m' + R)"
  shows "manager_inv p' fs' m' R \<and> frame R p p'"
proof
  have "0 \<le> num_cached m' x \<and> (\<forall>a \<in> set (tail_of m' x). a \<noteq> 0 \<longrightarrow> exclusive p' a)" for x
  proof (cases "x = rid")
    case False
    then have "tail_of m' x = tail_of m x" by (simp add: tail_of_def rest)
    moreover have "0 \<le> num_cached m' x"
      using inv False by (simp add: manager_inv_def tails_ok_def rest)
    ultimately show ?thesis
      using others_kept(2)[OF inv own, of rid x] False by auto
  qed (use tail in auto)
  then show "manager_inv p' fs' m' R"
    using pool by (simp add: manager_inv_def tails_ok_def)
  show "frame R p p'" using others_kept(1)[OF inv own, of rid] by blast
qed

section \<open>Every operation keeps the invariant\<close>

lemma free_request_inv:
  assumes inv: "manager_inv p fs m R"
  obtains m' p' where "free_request m p rid = Inr (m', p')"
    "manager_inv p' (fs @ filter (\<lambda>a. a \<noteq> 0 \<and> rc p a = 1) (rev (req_table m rid))) m' R"
    "frame R p p'" "same_config p p'" "same_manager m m'"
    "\<And>x. req_table m' x = (if x = rid then [] else req_table m x)" "\<And>x. bh p' x = bh p x"
proof -
  obtain m' p' where run: "free_request m p rid = Inr (m', p')"
    and rep: "pool_rep p' (fs @ filter (\<lambda>a. a \<noteq> 0 \<and> rc p a = 1) (rev (req_table m rid)))"
    and ok: "same_config p p'" "manager_ok p' m'" "holds p' (refs m' + R)" "same_manager m m'"
    and tab: "\<And>x. req_table m' x = (if x = rid then [] else req_table m x)"
    and nc: "num_cached_block m' = ddel rid (num_cached_block m)" and bh: "\<And>x. bh p' x = bh p x"
    and rc: "\<And>x. rc p' x = rc p x - int (count_list (req_table m rid) x)"
    using free_request_spec[of p fs m R rid] inv unfolding manager_inv_def by blast
  have own: "exclusive p' a" if "a \<notin> set (req_table m rid)" "exclusive p a" for a
    using that by (simp add: exclusive_def rc bh count_list_0_iff)
  have "num_cached m' x = (if x = rid then 0 else num_cached m x)" for x
    by (simp add: num_cached_def nc)
  have "manager_inv p' (fs @ filter (\<lambda>a. a \<noteq> 0 \<and> rc p a = 1) (rev (req_table m rid))) m' R \<and> frame R p p'"
    by (rule manager_inv_step[OF inv, of rid])
       (use own rep ok(2,3) in \<open>simp_all add: tab tail_of_def num_cached_def nc\<close>)
  with run ok(1,4) tab bh that show thesis by blast
qed

lemma base_allocate_new_blocks_inv:
  assumes inv: "manager_inv p fs m R"
    and n: "n = nat (cdiv ntok (m_block_size m) - int (length (req_table m rid)))" "n \<le> length fs"
  obtains m' p' where "base_allocate_new_blocks env m p rid ntok = Inr (take n fs, m', p')"
    "manager_inv p' (drop n fs) m' R" "frame R p p'" "same_config p p'" "same_manager m m'"
    "\<And>x. req_table m' x = (if x = rid then req_table m rid @ take n fs else req_table m x)"
    "num_cached_block m' = num_cached_block m"
    "\<And>x. rc p' x = (if x \<in> set (take n fs) then 1 else rc p x)"
    "\<And>x. bh p' x = (if x \<in> set (take n fs) then None else bh p x)"
proof -
  obtain m' p' where run: "base_allocate_new_blocks env m p rid ntok = Inr (take n fs, m', p')"
    and rep: "pool_rep p' (drop n fs)" and ok: "same_config p p'" "manager_ok p' m'" "holds p' (refs m' + R)" "same_manager m m'"
    and tab: "\<And>x. req_table m' x = (if x = rid then req_table m rid @ take n fs else req_table m x)"
    and nc: "num_cached_block m' = num_cached_block m"
    and rc: "\<And>x. rc p' x = (if x \<in> set (take n fs) then 1 else rc p x)"
    and bh: "\<And>x. bh p' x = (if x \<in> set (take n fs) then None else bh p x)"
    using base_allocate_new_blocks_spec[of p fs m R n ntok rid env] inv n unfolding manager_inv_def by blast
  have own: "exclusive p' a" if "exclusive p a" for a
    using that by (simp add: exclusive_def rc bh)
  have tail: "exclusive p' a" if "a \<in> set (tail_of m' rid)" "a \<noteq> 0" for a
  proof (cases "a \<in> set (take n fs)")
    case False
    with that have "a \<in> set (tail_of m rid)"
      by (auto simp: tail_of_def tab num_cached_def nc dest: in_set_dropD)
    with inv that(2) own show ?thesis by (auto simp: manager_inv_def tails_ok_def)
  qed (simp add: exclusive_def rc bh)
  have cached: "num_cached m' x = num_cached m x" for x by (simp add: num_cached_def nc)
  have "manager_inv p' (drop n fs) m' R \<and> frame R p p'"
    by (rule manager_inv_step[OF inv, of rid])
       (use own tail rep ok(2,3) inv in \<open>simp_all add: tab cached manager_inv_def tails_ok_def\<close>)
  with run ok(1,4) tab nc rc bh that show thesis by blast
qed

lemma base_allocate_new_computed_blocks_inv:
  assumes inv: "manager_inv p fs m R"
    and new: "dget (num_cached_block m) rid = None" "req_table m rid = []"
    and comp: "table_ok p computed" "\<And>a. a \<in> set computed \<Longrightarrow> a \<noteq> 0 \<Longrightarrow> bh p a \<noteq> None"
    and caching: "m_enable_caching m \<or> kept_blocks m computed (loc + ext) = []"
    and fits: "external_tokens m (loc + ext) ext > 0 \<Longrightarrow>
      int (length (computed_table m computed (loc + ext))) \<le> cdiv (loc + ext) (m_block_size m)"
    and fs': "fs' = filter (\<lambda>b. b \<notin> set (kept_blocks m computed (loc + ext))) fs"
    and n: "n = external_blocks m computed (loc + ext) ext" "n \<le> length fs'"
  obtains m' p' where "base_allocate_new_computed_blocks env m p rid computed loc ext = Inr (m', p')"
    "manager_inv p' (drop n fs') m' R" "frame R p p'" "same_config p p'" "same_manager m m'"
    "\<And>x. req_table m' x = (if x = rid then computed_table m computed (loc + ext) @ take n fs' else req_table m x)"
    "num_cached_block m' = dset rid (int (length (computed_table m computed (loc + ext)))) (num_cached_block m)"
    "\<And>x. rc p' x = (if x \<in> set (take n fs') then 1 else rc p x + int (count_list (kept_blocks m computed (loc + ext)) x))"
    "\<And>x. bh p' x = (if x \<in> set (take n fs') then None else bh p x)"
proof -
  let ?kept = "kept_blocks m computed (loc + ext)" and ?t = "computed_table m computed (loc + ext)"
  obtain m' p' where run: "base_allocate_new_computed_blocks env m p rid computed loc ext = Inr (m', p')"
    and rep: "pool_rep p' (drop n fs')" and ok: "same_config p p'" "manager_ok p' m'" "holds p' (refs m' + R)" "same_manager m m'"
    and tab: "\<And>x. req_table m' x = (if x = rid then ?t @ take n fs' else req_table m x)"
    and nc: "num_cached_block m' = dset rid (int (length ?t)) (num_cached_block m)"
    and rc: "\<And>x. rc p' x = (if x \<in> set (take n fs') then 1 else rc p x + int (count_list ?kept x))"
    and bh: "\<And>x. bh p' x = (if x \<in> set (take n fs') then None else bh p x)"
    using base_allocate_new_computed_blocks_spec[OF _ _ _ new comp(1) caching fits fs' n, of R env] inv
    unfolding manager_inv_def by blast
  have own: "exclusive p' a" if "exclusive p a" "a \<noteq> 0" for a
  proof -
    have "a \<notin> set ?kept" using that comp(2)[of a] by (auto simp: kept_blocks_def exclusive_def dest: in_set_dropD)
    with that show ?thesis by (simp add: exclusive_def rc bh count_list_0_iff)
  qed
  have "manager_inv p' (drop n fs') m' R \<and> frame R p p'"
    by (rule manager_inv_step[OF inv, of rid])
       (use own rep ok(2,3) in \<open>simp_all add: tab tail_of_def num_cached_def nc exclusive_def rc bh\<close>)
  with run ok(1,4) tab nc rc bh that show thesis by blast
qed

lemma in_set_drop_iff: "a \<in> set (drop k xs) \<longleftrightarrow> (\<exists>i. k \<le> i \<and> i < length xs \<and> xs ! i = a)"
proof
  assume "a \<in> set (drop k xs)"
  then obtain i where "i < length (drop k xs)" "drop k xs ! i = a" by (auto simp: in_set_conv_nth)
  then show "\<exists>i. k \<le> i \<and> i < length xs \<and> xs ! i = a" by (intro exI[of _ "k + i"]) auto
next
  assume "\<exists>i. k \<le> i \<and> i < length xs \<and> xs ! i = a"
  then obtain i where "k \<le> i" "i < length xs" "xs ! i = a" by blast
  then have "i - k < length (drop k xs)" "drop k xs ! (i - k) = a" by auto
  then show "a \<in> set (drop k xs)" by (metis nth_mem)
qed

lemma tail_remove_subset:
  assumes "j \<le> n" "n \<le> length t" "a \<in> set (drop k (take j t @ replicate (n - j) 0 @ drop n t))" "a \<noteq> 0"
  shows "a \<in> set (drop k t)" and "a \<in> set (take j t) \<union> set (drop n t)"
proof -
  let ?u = "take j t @ replicate (n - j) 0 @ drop n t"
  obtain i where i: "k \<le> i" "i < length ?u" "?u ! i = a"
    using assms(3) unfolding in_set_drop_iff by blast
  then have "i < length t" "t ! i = a" "i < j \<or> n \<le> i"
    using assms(1,2,4) by (auto simp: nth_append min_def split: if_splits)
  then show "a \<in> set (drop k t)"
    unfolding in_set_drop_iff using i(1) by blast
  have "a \<in> set (take j t)" if "i < j"
    using that \<open>i < length t\<close> \<open>t ! i = a\<close> by (metis length_take min_less_iff_conj nth_mem nth_take)
  then show "a \<in> set (take j t) \<union> set (drop n t)"
    using \<open>i < length t\<close> \<open>t ! i = a\<close> \<open>i < j \<or> n \<le> i\<close> by (auto simp: in_set_drop_iff)
qed

lemma base_remove_skipped_blocks_inv:
  assumes inv: "manager_inv p fs m R" and n: "n = removed_count m rid computed" and t: "t = req_table m rid"
  obtains m' p' j where "base_remove_skipped_blocks m p rid computed = Inr (m', p')"
    "manager_inv p' (fs @ filter (\<lambda>a. rc p a = 1) (rev (drop j (take n t)))) m' R"
    "frame R p p'" "same_config p p'" "same_manager m m'"
    "\<And>x. req_table m' x = (if x = rid then take j t @ replicate (n - j) 0 @ drop n t else req_table m x)"
    "num_cached_block m' = num_cached_block m" "\<And>x. bh p' x = bh p x"
    "j \<le> n" "0 \<notin> set (drop j (take n t))" "j = 0 \<or> t ! (j - 1) = 0"
proof (rule base_remove_skipped_blocks_spec[OF manager_inv_parts[OF inv] n t])
  fix m' p' j
  assume run: "base_remove_skipped_blocks m p rid computed = Inr (m', p')"
    and rep: "pool_rep p' (fs @ filter (\<lambda>a. rc p a = 1) (rev (drop j (take n t))))"
    and ok: "same_config p p'" "manager_ok p' m'" "holds p' (refs m' + R)" "same_manager m m'"
    and tab: "\<And>x. req_table m' x = (if x = rid then take j t @ replicate (n - j) 0 @ drop n t else req_table m x)"
    and nc: "num_cached_block m' = num_cached_block m" and bh: "\<And>x. bh p' x = bh p x"
    and j: "j \<le> n" "0 \<notin> set (drop j (take n t))" "j = 0 \<or> t ! (j - 1) = 0"
    and rc: "\<And>x. rc p' x = rc p x - int (count_list (drop j (take n t)) x)"
  have same: "exclusive p' a" if "a \<notin> set (drop j (take n t))" "exclusive p a" for a
    using that by (simp add: exclusive_def rc bh count_list_0_iff)
  have cached: "num_cached m' x = num_cached m x" for x by (simp add: num_cached_def nc)
  have le: "n \<le> length t" by (simp add: n t removed_count_def)
  have dist: "table_distinct (take j t @ drop j (take n t) @ drop n t)"
    using inv j(1) unfolding manager_inv_def manager_ok_def table_ok_def t
    by (metis append_assoc append_take_drop_id min.absorb1 take_take)
  have tail: "exclusive p' a" if a: "a \<in> set (tail_of m' rid)" "a \<noteq> 0" for a
  proof -
    note part = tail_remove_subset[OF j(1) le, of a "nat (num_cached m rid)"]
    have "a \<in> set (tail_of m rid)" "a \<in> set (take j t) \<union> set (drop n t)"
      using part a by (simp_all add: tail_of_def tab cached t)
    then show ?thesis
      using dist a(2) inv by (intro same) (auto simp: table_distinct_disj manager_inv_def tails_ok_def)
  qed
  have own: "exclusive p' a" if "a \<notin> set (req_table m rid)" "exclusive p a" for a
    using that by (intro same) (auto simp: t dest: in_set_dropD in_set_takeD)
  have "manager_inv p' (fs @ filter (\<lambda>a. rc p a = 1) (rev (drop j (take n t)))) m' R \<and> frame R p p'"
    by (rule manager_inv_step[OF inv, of rid])
       (use own tail rep ok(2,3) inv in \<open>simp_all add: tab cached manager_inv_def tails_ok_def\<close>)
  with run ok(1,4) tab nc bh j that show thesis by blast
qed

text \<open>
  What \<^verbatim>\<open>cache_blocks\<close> needs: the table covers the full blocks and the request has their hashes. The
  assertion that a newly cached block has no hash yet follows from the invariant.
\<close>

definition can_cache :: "block_pool \<Rightarrow> kv_manager \<Rightarrow> request \<Rightarrow> int \<Rightarrow> block_hash_list \<Rightarrow> bool" where
  "can_cache p m r ntok l \<longleftrightarrow>
     enable_caching p \<and> 0 < hash_block_size p \<and> group_ok (kv_cache_group_id m)
     \<and> ntok div m_block_size m \<le> int (length (req_table m (request_id r)))
     \<and> hashes_at_block_size (block_hashes r) (hash_block_size p) (m_block_size m) = Inr l
     \<and> ntok div m_block_size m \<le> int (length (hashes_list l))"

lemma base_cache_blocks_inv:
  assumes inv: "manager_inv p fs m R" and can: "can_cache p m r ntok l"
    and k: "k = nat (num_cached m (request_id r))" "q = nat (ntok div m_block_size m)"
    and t: "t = req_table m (request_id r)"
  obtains m' p' r' where "base_cache_blocks env m p r ntok = Inr (m', p', r')"
    "manager_inv p' fs m' R" "frame R p p'" "same_config p p'" "same_manager m m'" "memo_only r r'"
    "\<And>x. req_table m' x = req_table m x" "\<And>x. rc p' x = rc p x"
    "\<And>x. bh p' x = cached (bh p) (kv_cache_group_id m) (py_slice t k q) (drop k (hashes_list l)) x"
    "\<And>x. num_cached m' x = (if x = request_id r then max (num_cached m x) (ntok div m_block_size m) else num_cached m x)"
    "cached_blocks_this_step m' = cached_blocks_this_step m"
proof (cases "num_cached m (request_id r) \<ge> ntok div m_block_size m")
  case True
  then have "py_slice t k q = []" using k by (simp add: py_slice_def)
  with True show thesis
    using inv by (intro that[of m p r]) (auto simp: base_cache_blocks_def num_cached_def cached_def)
next
  case False
  let ?rid = "request_id r" and ?s = "py_slice t k q"
  have pos: "0 \<le> num_cached m ?rid" using inv by (simp add: manager_inv_def tails_ok_def)
  then have kq: "int k = num_cached m ?rid" "int q = ntok div m_block_size m" "k < q"
    using False k by auto
  have tok: "table_ok p t" using inv by (simp add: t manager_inv_def manager_ok_def)
  have sub: "set ?s \<subseteq> set (tail_of m ?rid)"
    by (auto simp: py_slice_def tail_of_def k t dest: in_set_takeD)
  have split: "t = take k t @ ?s @ drop q t"
    using kq(3) by (simp add: py_slice_def) (metis append_take_drop_id drop_drop le_add_diff_inverse2 less_imp_le)
  have dist: "table_distinct (take k t @ ?s @ drop q t)" using tok split by (simp add: table_ok_def)
  have bh0: "bh p 0 = None"
    using inv pool_rep_facts(10)[of p fs 0] by (cases "bh p 0") (auto simp: manager_inv_def)
  have fresh: "bh p a = None" if "a \<in> set ?s" for a
    using sub that bh0 inv by (cases "a = 0") (auto simp: manager_inv_def tails_ok_def exclusive_def)
  obtain p' r' where cache: "cache_full_blocks env p r t (int k) (int q) (m_block_size m) (kv_cache_group_id m) = Inr (p', r')"
    and rep: "pool_rep p' fs" and cfg: "same_config p p'" and memo: "memo_only r r'" and rc: "\<And>x. rc p' x = rc p x"
    and bh: "\<And>x. bh p' x = cached (bh p) (kv_cache_group_id m) ?s (drop k (hashes_list l)) x"
    using cache_full_blocks_spec[of p fs t q k r "m_block_size m" l "kv_cache_group_id m" env] inv can tok fresh dist kq
    by (auto simp: manager_inv_def manager_ok_def spec_ok_def can_cache_def table_ok_def table_distinct_disj t)
  define m' where "m' = (set_table m ?rid t)\<lparr>num_cached_block := dset ?rid (ntok div m_block_size m) (num_cached_block m)\<rparr>"
  have run: "base_cache_blocks env m p r ntok = Inr (m', p', r')"
    using False cache unfolding base_cache_blocks_def Let_def num_cached_def[symmetric] t[symmetric]
    by (simp add: kq m'_def)
  have tab: "req_table m' x = req_table m x" for x by (simp add: m'_def t)
  have nc: "num_cached m' x = (if x = ?rid then max (num_cached m x) (ntok div m_block_size m) else num_cached m x)" for x
    using False by (simp add: m'_def num_cached_def)
  have ok': "manager_ok p' m'"
    using manager_ok_set_table[of p m t ?rid] inv tok by (simp add: m'_def manager_ok_cong[OF cfg] manager_inv_def)
  have "refs m' = refs m"
    using refs_set_table[of m ?rid t] inv by (simp add: m'_def t manager_inv_def manager_ok_def)
  then have held': "holds p' (refs m' + R)"
    using holds_cong[OF _ cfg rc] inv by (simp add: manager_inv_def)
  have own: "exclusive p' a" if "a \<notin> set ?s" "exclusive p a" for a
  proof -
    have "map_of (zip ?s (drop k (hashes_list l))) a = None"
      using that(1) by (auto simp: map_of_eq_None_iff dest: set_zip_leftD)
    then show ?thesis using that(2) bh0 by (simp add: exclusive_def rc bh cached_def)
  qed
  have tail: "exclusive p' a" if a: "a \<in> set (tail_of m' ?rid)" "a \<noteq> 0" for a
  proof -
    have "a \<in> set (drop q t)" using a(1) kq(3) False k by (simp add: tail_of_def tab nc t max_def)
    moreover have "set (drop q t) \<subseteq> set (drop k t)" using kq(3) by (simp add: set_drop_subset_set_drop)
    ultimately show ?thesis
      using dist a(2) inv by (intro own) (auto simp: table_distinct_disj manager_inv_def tails_ok_def tail_of_def k t)
  qed
  have sub_t: "set ?s \<subseteq> set (req_table m ?rid)" using sub tail_subset by blast
  have "manager_inv p' fs m' R \<and> frame R p p'"
    by (rule manager_inv_step[OF inv, of ?rid])
       (use own tail rep ok' held' pos sub_t in \<open>auto simp: tab nc\<close>)
  with run cfg memo tab rc bh nc show thesis
    by (intro that[of m' p' r']) (auto simp: m'_def)
qed

section \<open>The operations of each class\<close>

text \<open>Mamba without the align mode asks for additional speculative blocks.\<close>

definition slot_tokens :: "kv_manager \<Rightarrow> int \<Rightarrow> int" where
  "slot_tokens m ntok =
     (if m_class m = MambaManager \<and> num_speculative_blocks m > 0
      then ntok + m_block_size m * num_speculative_blocks m else ntok)"

definition needed_from :: "kv_manager \<Rightarrow> int \<Rightarrow> int" where
  "needed_from m computed =
     (if m_class m = MambaManager then max 0 (computed - num_speculative_blocks m) else computed)"

lemma mamba_spec_of:
  assumes "spec_ok m" and "m_class m = MambaManager"
  obtains s where "m_spec m = MambaSpec s" "mb_cache_mode s \<noteq> ''align''" "0 \<le> mb_num_speculative_blocks s"
    "m_block_size m = mb_block_size s"
  using assms by (cases "m_spec m") (auto simp: spec_ok_def)

lemma mamba_not_align: "spec_ok m \<Longrightarrow> m_class m = MambaManager \<Longrightarrow> mamba_mode m \<noteq> ''align''"
  by (erule (1) mamba_spec_of) (simp add: mamba_mode_def)

lemma allocate_new_blocks_base:
  "spec_ok m \<Longrightarrow> allocate_new_blocks env m p rid ntok main = base_allocate_new_blocks env m p rid (slot_tokens m ntok)"
  using mamba_not_align[of m]
  by (simp add: allocate_new_blocks_def mamba_allocate_new_blocks_def slot_tokens_def)

lemma mamba_mode_set_table [simp]: "mamba_mode (set_table m rid t) = mamba_mode m"
  by (simp add: mamba_mode_def)

lemma remove_skipped_blocks_base:
  assumes "spec_ok m"
  shows "remove_skipped_blocks m p rid computed = base_remove_skipped_blocks m p rid (needed_from m computed)"
proof (cases "m_class m = MambaManager")
  case True
  then have "mamba_mode m \<noteq> ''align''" using mamba_not_align[OF assms] by blast
  with True show ?thesis
    unfolding remove_skipped_blocks_def needed_from_def base_remove_skipped_blocks_def Let_def
    by (auto simp: ebind_def split: sum.splits prod.splits)
next
  case False
  then show ?thesis by (simp add: remove_skipped_blocks_def needed_from_def)
qed

text \<open>After caching, the newly cached blocks of the table have a hash, so Mamba can collect the keys.\<close>

lemma collect_cached_total:
  assumes "\<And>a. a \<in> set bs \<Longrightarrow> \<not> is_null (bp_heap p a) \<Longrightarrow> bh p a \<noteq> None"
  shows "\<exists>ks. efold (collect_cached p) bs keys = Inr ks"
  using assms
proof (induction bs arbitrary: keys)
  case Nil
  then show ?case by simp
next
  case (Cons a bs)
  have "\<exists>keys'. collect_cached p a keys = Inr keys'"
    using Cons.prems[of a] by (cases "bh p a"; cases "is_null (bp_heap p a)") (auto simp: collect_cached_def)
  then obtain keys' where "collect_cached p a keys = Inr keys'" by blast
  with Cons.IH[of keys'] Cons.prems show ?case by auto
qed

lemma cached_slice_hashed:
  assumes "a \<in> set (py_slice t k q)" and "a \<noteq> 0" and "q \<le> length t" and "q \<le> length hs"
  shows "cached f g (py_slice t k q) (drop k hs) a \<noteq> None"
proof -
  have "length (py_slice t k q) \<le> length (drop k hs)"
    using assms(3,4) by (auto simp: py_slice_def)
  then have "map fst (zip (py_slice t k q) (drop k hs)) = py_slice t k q"
    by (simp add: map_fst_zip_take)
  then have "a \<in> fst ` set (zip (py_slice t k q) (drop k hs))"
    using assms(1) by (metis list.set_map)
  then have "map_of (zip (py_slice t k q) (drop k hs)) a \<noteq> None"
    by (simp add: map_of_eq_None_iff)
  with assms(2) show ?thesis by (auto simp: cached_def)
qed

lemma cache_blocks_inv:
  assumes inv: "manager_inv p fs m R" and can: "can_cache p m r ntok l" and cls: "m_class m \<noteq> CrossAttentionManager"
    and k: "k = nat (num_cached m (request_id r))" "q = nat (ntok div m_block_size m)"
    and t: "t = req_table m (request_id r)"
  obtains m' p' r' where "cache_blocks env m p r ntok = Inr (m', p', r')"
    "manager_inv p' fs m' R" "frame R p p'" "same_config p p'" "same_manager m m'" "memo_only r r'"
    "\<And>x. req_table m' x = req_table m x" "\<And>x. rc p' x = rc p x"
    "\<And>x. bh p' x = cached (bh p) (kv_cache_group_id m) (py_slice t k q) (drop k (hashes_list l)) x"
    "\<And>x. num_cached m' x = (if x = request_id r then max (num_cached m x) (ntok div m_block_size m) else num_cached m x)"
proof (rule base_cache_blocks_inv[OF inv can k t, of env])
  fix m1 p' r'
  assume run: "base_cache_blocks env m p r ntok = Inr (m1, p', r')"
    and inv': "manager_inv p' fs m1 R" "frame R p p'" "same_config p p'" "same_manager m m1" "memo_only r r'"
    and tab: "\<And>x. req_table m1 x = req_table m x" and rc: "\<And>x. rc p' x = rc p x"
    and bh: "\<And>x. bh p' x = cached (bh p) (kv_cache_group_id m) (py_slice t k q) (drop k (hashes_list l)) x"
    and nc: "\<And>x. num_cached m1 x = (if x = request_id r then max (num_cached m x) (ntok div m_block_size m) else num_cached m x)"
  show thesis
  proof (cases "m_class m = MambaManager")
    case False
    then have "cache_blocks env m p r ntok = Inr (m1, p', r')"
      using cls run by (cases "m_class m") (simp_all add: cache_blocks_def)
    from that[OF this inv' tab rc bh nc] show thesis .
  next
    case True
    let ?n0 = "num_cached m (request_id r)" and ?n1 = "num_cached m1 (request_id r)"
    have "\<exists>ks. efold (collect_cached p') (py_slice t (nat ?n0) (nat ?n1)) (cached_blocks_this_step m1) = Inr ks"
    proof (rule collect_cached_total)
      fix a assume a: "a \<in> set (py_slice t (nat ?n0) (nat ?n1))" "\<not> is_null (bp_heap p' a)"
      have le: "q \<le> length t" "q \<le> length (hashes_list l)" using can k by (auto simp: can_cache_def t)
      have slice: "a \<in> set (py_slice t k q)"
        using a(1) k by (cases "?n0 \<le> ntok div m_block_size m") (auto simp: nc max_def py_slice_def)
      have "a \<in> set t" using slice by (auto simp: py_slice_def dest: in_set_takeD in_set_dropD)
      then have "a \<in> set (blocks p')"
        using inv' tab by (auto simp: manager_inv_def manager_ok_def table_ok_def t)
      then have "a \<noteq> 0" using a(2) pool_rep_facts(5)[OF manager_inv_parts(1)[OF inv'(1)], of a] by auto
      from cached_slice_hashed[OF slice this le] show "bh p' a \<noteq> None" unfolding bh .
    qed
    then obtain ks where ks: "efold (collect_cached p') (py_slice t (nat ?n0) (nat ?n1)) (cached_blocks_this_step m1) = Inr ks"
      by blast
    define m' where "m' = (if ?n1 > ?n0 then m1\<lparr>cached_blocks_this_step := ks\<rparr> else m1)"
    have "cache_blocks env m p r ntok = Inr (m', p', r')"
      using True run ks by (simp add: cache_blocks_def Let_def num_cached_def[symmetric] tab t m'_def)
    moreover have "manager_inv p' fs m' R"
      using inv'(1) by (simp add: m'_def manager_inv_def tails_ok_def tail_of_def num_cached_def)
    moreover have "num_cached m' x = num_cached m1 x" "req_table m' x = req_table m1 x" for x
      by (simp_all add: m'_def num_cached_def)
    ultimately show thesis
      using inv'(2-5) tab rc bh nc by (intro that[of m' p' r']) (simp_all add: m'_def)
  qed
qed

section \<open>Computed blocks, all branches\<close>

lemma base_allocate_new_computed_blocks_short:
  assumes inv: "manager_inv p fs m R" and new: "dget (num_cached_block m) rid = None" "req_table m rid = []"
    and comp: "table_ok p computed" and caching: "m_enable_caching m \<or> kept_blocks m computed (loc + ext) = []"
    and short: "length (filter (\<lambda>b. b \<notin> set (kept_blocks m computed (loc + ext))) fs) < external_blocks m computed (loc + ext) ext"
  shows "base_allocate_new_computed_blocks env m p rid computed loc ext = Inl ValueError"
proof -
  let ?kept = "kept_blocks m computed (loc + ext)" and ?t = "computed_table m computed (loc + ext)"
  obtain p1 where share: "(if m_enable_caching m then touch p ?kept
        else if ?kept \<noteq> [] then Inl AssertionError else Inr p) = Inr p1"
      "pool_rep p1 (filter (\<lambda>b. b \<notin> set ?kept) fs)"
    using share_blocks[OF manager_inv_parts[OF inv] new(2) comp caching] by blast
  have ext: "external_tokens m (loc + ext) ext > 0"
    and n: "int (external_blocks m computed (loc + ext) ext) = cdiv (loc + ext) (m_block_size m) - int (length ?t)"
    using short by (auto simp: external_blocks_def split: if_splits)
  have "get_new_blocks env p1 (cdiv (loc + ext) (m_block_size m) - int (length ?t)) = Inl ValueError"
    using get_new_blocks_short[OF share(2)] short n by simp
  with ext show ?thesis
    using base_allocate_new_computed_blocks_unfold[OF new, of env p computed loc ext] manager_inv_parts(2)[OF inv]
    by (simp add: share(1) Let_def manager_ok_def)
qed

text \<open>Tokens inside the skipped part never exceed the computed tokens.\<close>

lemma skipped_tokens_le:
  assumes "spec_ok m" and "0 \<le> computed"
  shows "get_num_skipped_tokens m computed \<le> computed"
proof (cases "m_spec m")
  case (SlidingWindowSpec a w h)
  with assms show ?thesis by (auto simp: spec_ok_def get_num_skipped_tokens_def)
next
  case (SlidingWindowMLASpec a w h mla)
  with assms show ?thesis by (auto simp: spec_ok_def get_num_skipped_tokens_def)
next
  case (ChunkedLocalAttentionSpec a c)
  moreover have "computed div c * c \<le> computed" if "0 < c"
    using mult_le_iff_le_div[OF that, of "computed div c" computed] by simp
  ultimately show ?thesis using assms by (auto simp: spec_ok_def get_num_skipped_tokens_def)
qed (use assms in \<open>auto simp: spec_ok_def get_num_skipped_tokens_def\<close>)

lemma computed_table_fits:
  assumes ok: "spec_ok m" and len: "int (length computed) * m_block_size m \<le> tot" and tot: "0 \<le> tot"
  shows "int (length (computed_table m computed tot)) \<le> cdiv tot (m_block_size m)"
proof -
  have bs: "0 < m_block_size m" using ok by (simp add: spec_ok_def)
  have le: "get_num_skipped_tokens m tot div m_block_size m \<le> tot div m_block_size m"
    using skipped_tokens_le[OF ok tot] bs by (simp add: zdiv_mono1)
  have "int (length computed) \<le> tot div m_block_size m"
    using mult_le_iff_le_div[OF bs, of "int (length computed)" tot] len by simp
  moreover have "0 \<le> tot div m_block_size m" using bs tot by (simp add: pos_imp_zdiv_nonneg_iff)
  ultimately show ?thesis
    using le div_le_cdiv[OF bs, of tot] by (simp add: length_computed_table skipped_blocks_def)
qed

text \<open>When a manager may take over computed blocks, and what it does then.\<close>

definition ready :: "block_pool \<Rightarrow> kv_manager \<Rightarrow> string \<Rightarrow> addr list \<Rightarrow> bool" where
  "ready p m rid computed \<longleftrightarrow>
     m_class m = CrossAttentionManager \<or> dget (num_cached_block m) rid \<noteq> None
     \<or> table_ok p computed \<and> (\<forall>a \<in> set computed. a \<noteq> 0 \<longrightarrow> bh p a \<noteq> None)"

lemma allocate_new_computed_blocks_inv:
  assumes inv: "manager_inv p fs m R" and rdy: "ready p m rid computed"
    and ext: "ext \<le> 0 \<or> int (length computed) * m_block_size m \<le> loc \<and> 0 \<le> loc"
    and run: "allocate_new_computed_blocks env m p rid computed loc ext = Inr (m', p')"
  shows "(\<exists>fs'. manager_inv p' fs' m' R) \<and> frame R p p' \<and> same_config p p' \<and> same_manager m m'
    \<and> (ext \<le> 0 \<longrightarrow> (\<forall>a. bh p' a = bh p a))"
proof (cases "m_class m = CrossAttentionManager \<or> dget (num_cached_block m) rid \<noteq> None")
  case True
  then have "m' = m" "p' = p"
    using run by (auto simp: allocate_new_computed_blocks_def base_allocate_new_computed_blocks_def split: if_splits)
  with inv show ?thesis by auto
next
  case False
  then have base: "base_allocate_new_computed_blocks env m p rid computed loc ext = Inr (m', p')"
    and new: "dget (num_cached_block m) rid = None" "req_table m rid = []"
    using run by (auto simp: allocate_new_computed_blocks_def base_allocate_new_computed_blocks_def split: if_splits)
  from False rdy have comp: "table_ok p computed" "\<And>a. a \<in> set computed \<Longrightarrow> a \<noteq> 0 \<Longrightarrow> bh p a \<noteq> None"
    by (auto simp: ready_def)
  let ?n = "external_blocks m computed (loc + ext) ext" and ?fs = "filter (\<lambda>b. b \<notin> set (kept_blocks m computed (loc + ext))) fs"
  have null: "m_null_block m = 0" using inv by (simp add: manager_inv_def manager_ok_def)
  have caching: "m_enable_caching m \<or> kept_blocks m computed (loc + ext) = []"
    using base base_allocate_new_computed_blocks_unfold[OF new null, of env p computed loc ext] by (auto split: if_splits)
  have n: "?n \<le> length ?fs"
    using base base_allocate_new_computed_blocks_short[OF inv new comp(1) caching, of env] by fastforce
  have ext0: "external_tokens m (loc + ext) ext \<le> 0" "?n = 0" if "ext \<le> 0"
    using that by (auto simp: external_blocks_def external_tokens_def)
  have fits: "int (length (computed_table m computed (loc + ext))) \<le> cdiv (loc + ext) (m_block_size m)"
    if "external_tokens m (loc + ext) ext > 0"
    using ext ext0(1) that computed_table_fits[OF manager_inv_parts(2)[OF inv, unfolded manager_ok_def, THEN conjunct1]]
    by fastforce
  show ?thesis
    by (rule base_allocate_new_computed_blocks_inv[OF inv new comp caching fits refl refl n, of env])
       (use base ext0(2) in auto)
qed

end
