(* ===== verification/Pool_Machine.thy ===== *)
theory Pool_Machine
  imports Block_Pool
begin

text \<open>
  The block pool as a state machine: the constructor gives an initial state, and each method, called
  within its precondition, is a step. Every reachable pool satisfies the invariant, and the
  properties of the free queue and of the pool follow from the contracts of \<open>Free_Queue\<close> and
  \<open>Block_Pool\<close>.
\<close>

section \<open>The constructor\<close>

lemma block_pool_init_spec:
  assumes "0 < n"
  shows "\<exists>p. block_pool_init n caching hbs events = Inr p \<and> pool_rep p [1..<nat n]
    \<and> num_gpu_blocks p = n \<and> enable_caching p = caching \<and> hash_block_size p = hbs
    \<and> enable_kv_cache_events p = events \<and> kv_event_queue p = []
    \<and> (\<forall>a. rc p a = 0) \<and> (\<forall>a. bh p a = None)"
proof -
  let ?bs = "[0..<nat n]"
  obtain h q where init: "free_queue_init (\<lambda>a. new_block (int a)) ?bs (nat n) (nat n + 1) = (h, q)"
    by (cases "free_queue_init (\<lambda>a. new_block (int a)) ?bs (nat n) (nat n + 1)")
  obtain "queue_rep h q ?bs" and ends: "fake_free_list_head q = nat n" "fake_free_list_tail q = nat n + 1"
    and pay: "\<And>a. ref_cnt (h a) = 0 \<and> block_hash (h a) = None"
      "\<And>a. a < nat n \<Longrightarrow> block_id (h a) = int a \<and> \<not> is_null (h a)"
  proof -
    have "ref_cnt (h a) = 0 \<and> block_hash (h a) = None" for a
      using free_queue_init_rep[OF _ _ _ _ init]
      by (cases "a = nat n"; cases "a = nat n + 1") (auto simp: new_block_def)
    with free_queue_init_rep[OF _ _ _ _ init] that show ?thesis by (auto simp: new_block_def)
  qed
  then have "queue_rep h q (0 # [1..<nat n])"
    using assms by (simp add: upt_rec)
  from popleft_Cons[OF this] obtain h' q' where
      pop: "popleft h q = Inr (0, h', q')" "queue_rep h' q' [1..<nat n]" "same_payload h h'" "same_ends q q'"
    by blast
  let ?h = "h'(0 := (h' 0)\<lparr>is_null := True\<rparr>)"
  let ?p = "\<lparr>num_gpu_blocks = n, enable_caching = caching, hash_block_size = hbs,
     bp_heap = ?h, blocks = ?bs, bp_queue = q', cached_block_hash_to_block = [], null_block = 0,
     enable_kv_cache_events = events, kv_event_queue = []\<rparr>"
  note sel = same_payload_sel[OF pop(3)]
  have "queue_rep ?h q' [1..<nat n]"
    using pop(2) queue_rep_links_cong[of ?h h'] by simp
  moreover have "queue_may_add q' a" if "a < nat n" for a
    using that ends pop(4) by (simp add: queue_may_add_def same_ends_def)
  ultimately have "pool_rep ?p [1..<nat n]"
    using assms pay
    by (auto simp: pool_rep_def pool_blocks_def pool_free_def pool_cache_def sel
        bm.consistent_def map_wf_def map_entries_def)
  moreover have "block_pool_init n caching hbs events = Inr ?p"
    using assms unfolding block_pool_init_def Let_def init by (simp add: pop(1))
  ultimately show ?thesis
    using pay by (simp add: sel)
qed

section \<open>Reachable pools\<close>

inductive pool_step :: "hash_env \<Rightarrow> block_pool \<Rightarrow> block_pool \<Rightarrow> bool" for env where
  step_get_new_blocks:
    "0 \<le> n \<Longrightarrow> get_new_blocks env p n = Inr (bs, p') \<Longrightarrow> pool_step env p p'"
| step_touch:
    "set bs \<subseteq> set (blocks p) \<Longrightarrow> touch p bs = Inr p' \<Longrightarrow> pool_step env p p'"
| step_free_blocks:
    "set bs \<subseteq> set (blocks p) \<Longrightarrow> table_distinct bs \<Longrightarrow> (\<forall>a \<in> set bs. a \<noteq> 0 \<longrightarrow> 1 \<le> rc p a) \<Longrightarrow>
     free_blocks p bs = Inr p' \<Longrightarrow> pool_step env p p'"
| step_cache_full_blocks:
    "enable_caching p \<Longrightarrow> set blks \<subseteq> set (blocks p) \<Longrightarrow> m \<le> length blks \<Longrightarrow>
     table_distinct (py_slice blks k m) \<Longrightarrow> (\<forall>a \<in> set (py_slice blks k m). bh p a = None) \<Longrightarrow>
     hashes_at_block_size (block_hashes r) (hash_block_size p) bsz = Inr l \<Longrightarrow>
     m \<le> length (hashes_list l) \<Longrightarrow> 0 < hash_block_size p \<Longrightarrow> 0 < bsz \<Longrightarrow> group_ok g \<Longrightarrow>
     cache_full_blocks env p r blks (int k) (int m) bsz g = Inr (p', r') \<Longrightarrow> pool_step env p p'"
| step_evict_blocks:
    "(\<forall>i \<in> set ids. 0 \<le> i \<and> i < num_gpu_blocks p) \<Longrightarrow> evict_blocks env p ids = Inr p' \<Longrightarrow> pool_step env p p'"
| step_reset: "pool_reset_prefix_cache p = (b, p') \<Longrightarrow> pool_step env p p'"
| step_take_events: "pool_take_events p = (evs, p') \<Longrightarrow> pool_step env p p'"

inductive pool_reachable :: "hash_env \<Rightarrow> block_pool \<Rightarrow> bool" for env where
  reach_init: "block_pool_init n caching hbs events = Inr p \<Longrightarrow> pool_reachable env p"
| reach_step: "pool_reachable env p \<Longrightarrow> pool_step env p p' \<Longrightarrow> pool_reachable env p'"

lemma pool_step_ok:
  assumes "pool_step env p p'" and "pool_rep p fs"
  shows "\<exists>fs'. pool_rep p' fs' \<and> same_config p p'"
  using assms
proof cases
  case (step_get_new_blocks n bs)
  show ?thesis
  proof (cases "n \<le> int (length fs)")
    case True
    then have "nat n \<le> length fs" by simp
    from get_new_blocks_spec[OF assms(2) this, of env] step_get_new_blocks show ?thesis by auto
  next
    case False
    with step_get_new_blocks get_new_blocks_short[OF assms(2), of n env] show ?thesis by auto
  qed
next
  case (step_touch bs)
  with touch_spec[OF assms(2), of bs] show ?thesis by auto
next
  case (step_free_blocks bs)
  with free_blocks_spec[OF assms(2), of bs] show ?thesis by auto
next
  case (step_cache_full_blocks blks m k r bsz l g r')
  with cache_full_blocks_spec[OF assms(2), of blks m k r bsz l g env] show ?thesis by auto
next
  case (step_evict_blocks ids)
  with evict_blocks_spec[OF assms(2), of ids env] show ?thesis by auto
next
  case (step_reset b)
  with pool_reset_spec[OF assms(2)] show ?thesis by blast
next
  case (step_take_events evs)
  with assms(2) show ?thesis
    by (intro exI[of _ fs])
      (auto simp: pool_take_events_def pool_rep_def pool_blocks_def pool_free_def pool_cache_def same_config_def
        split: if_splits)
qed

lemma pool_reachable_ok: "pool_reachable env p \<Longrightarrow> \<exists>fs. pool_rep p fs"
proof (induction rule: pool_reachable.induct)
  case (reach_init n caching hbs events p)
  have "0 < n"
    using reach_init by (auto simp: block_pool_init_def split: if_splits)
  with reach_init block_pool_init_spec[of n caching hbs events] show ?case by auto
next
  case (reach_step p p')
  then show ?case using pool_step_ok by blast
qed

section \<open>Properties of the free queue\<close>

text \<open>
  C18. The linked-list operations refine a plain list. In a store where the queue holds the blocks
  \<open>xs\<close> in order, the walk over the list returns \<open>xs\<close> (it ends), \<^verbatim>\<open>popleft_n(n)\<close> returns the first
  \<open>n\<close> blocks and gives the same blocks as \<open>n\<close> calls of \<^verbatim>\<open>popleft\<close>, and both leave a queue that holds
  the rest.
\<close>

theorem popleft_n_is_popleft_iterated:
  assumes "queue_rep h q xs" and "n \<le> length xs"
  shows "get_all_free_blocks h q = Inr (Some xs)
    \<and> (\<exists>h1 q1 h2 q2. popleft_n h q (int n) = Inr (take n xs, h1, q1)
         \<and> pop_times popleft n h q = Inr (take n xs, h2, q2)
         \<and> get_all_free_blocks h1 q1 = Inr (Some (drop n xs))
         \<and> get_all_free_blocks h2 q2 = Inr (Some (drop n xs)))"
  using fq.pop_n_as_pops[OF assms] get_all_free_blocks_rep assms(1) by blast

definition sample_queue :: "heap \<times> free_block_queue" where
  "sample_queue = free_queue_init (\<lambda>a. new_block (int a)) [0, 1, 2, 3] 4 5"

lemma sample_queue_rep: "queue_rep (fst sample_queue) (snd sample_queue) [0, 1, 2, 3]"
  using free_queue_init_rep[of "[0, 1, 2, 3]" 4 5 "\<lambda>a. new_block (int a)"]
  by (simp add: sample_queue_def prod_eq_iff[symmetric])

theorem popleft_n_is_popleft_iterated_witness:
  "\<exists>h1 q1 h2 q2. popleft_n (fst sample_queue) (snd sample_queue) (int 2) = Inr ([0, 1], h1, q1)
     \<and> pop_times popleft 2 (fst sample_queue) (snd sample_queue) = Inr ([0, 1], h2, q2)
     \<and> get_all_free_blocks h1 q1 = Inr (Some [2, 3])
     \<and> get_all_free_blocks h2 q2 = Inr (Some [2, 3])"
  using popleft_n_is_popleft_iterated[OF sample_queue_rep, of 2] by (simp add: numeral_2_eq_2)

text \<open>
  C19. Blocks are reused in the order in which they were freed: after the distinct blocks \<open>bs\<close> are
  appended to a queue that holds \<open>xs\<close>, taking \<open>n\<close> blocks takes all of \<open>xs\<close> that fit before any of \<open>bs\<close>,
  and takes those in their order.
\<close>

theorem freed_blocks_reused_last:
  assumes "queue_rep h q xs" and "distinct bs" and "set bs \<inter> set xs = {}"
    and "fake_free_list_head q \<notin> set bs" and "fake_free_list_tail q \<notin> set bs"
    and "n \<le> length xs + length bs"
  shows "\<exists>h1 q1 h2 q2. append_n h q bs = Inr (h1, q1)
     \<and> popleft_n h1 q1 (int n) = Inr (take n xs @ take (n - length xs) bs, h2, q2)"
  using fq.reuse_order[OF assms(1-3) _ assms(6)] assms(4,5) by (auto simp: queue_may_add_def)

theorem freed_blocks_reused_last_witness:
  "\<exists>h0 q0 h1 q1 h2 q2. queue_rep h0 q0 [2, 3] \<and> append_n h0 q0 [1, 0] = Inr (h1, q1)
     \<and> popleft_n h1 q1 (int 3) = Inr ([2, 3, 1], h2, q2)"
proof -
  have "queue_rep (fst sample_queue) (snd sample_queue) [0, 1, 2, 3]" by (rule sample_queue_rep)
  then obtain h q where hq: "popleft_n (fst sample_queue) (snd sample_queue) (int 2) = Inr ([0, 1], h, q)"
      "queue_rep h q [2, 3]" "same_ends (snd sample_queue) q"
    using popleft_n_rep[of "fst sample_queue" "snd sample_queue" "[0, 1, 2, 3]" 2] by (auto simp: numeral_2_eq_2)
  have "fake_free_list_head q = 4" "fake_free_list_tail q = 5"
    using hq(3) by (simp_all add: same_ends_def sample_queue_def free_queue_init_def Let_def)
  then have "\<exists>h1 q1 h2 q2. append_n h q [1, 0] = Inr (h1, q1)
      \<and> popleft_n h1 q1 (int 3) = Inr (take 3 [2, 3] @ take (3 - length [2, 3::nat]) [1, 0], h2, q2)"
    by (intro freed_blocks_reused_last[OF hq(2)]) auto
  then have "\<exists>h1 q1 h2 q2. append_n h q [1, 0] = Inr (h1, q1) \<and> popleft_n h1 q1 (int 3) = Inr ([2, 3, 1], h2, q2)"
    by simp
  with hq(2) show ?thesis by blast
qed

section \<open>Properties of the pool\<close>

text \<open>
  C14. In every pool that the constructor and any sequence of method calls can produce, the free
  queue holds, once each, exactly the blocks other than the null block whose reference count is 0;
  its counter is their number; and a lookup in the hash map never raises, returns only a block that
  carries the key, and misses only when no block of the pool carries it.
\<close>

theorem reachable_pool_consistent:
  assumes "pool_reachable env p"
  shows "\<exists>fs. get_all_free_blocks (bp_heap p) (bp_queue p) = Inr (Some fs) \<and> distinct fs
    \<and> get_num_free_blocks p = int (length fs)
    \<and> (\<forall>a. a \<in> set fs \<longleftrightarrow> a \<in> set (blocks p) \<and> a \<noteq> null_block p \<and> ref_cnt (bp_heap p a) = 0)
    \<and> (\<forall>key. \<exists>res. get_one_block (cached_block_hash_to_block p) key = Inr res
         \<and> (\<forall>a. res = Some a \<longrightarrow> a \<in> set (blocks p) \<and> block_hash (bp_heap p a) = Some key)
         \<and> (res = None \<longleftrightarrow> (\<forall>a \<in> set (blocks p). block_hash (bp_heap p a) \<noteq> Some key)))"
proof -
  obtain fs where rep: "pool_rep p fs"
    using pool_reachable_ok[OF assms] by blast
  note facts = pool_rep_facts[OF rep]
  have q: "get_all_free_blocks (bp_heap p) (bp_queue p) = Inr (Some fs)"
    using rep by (simp add: pool_rep_def pool_free_def get_all_free_blocks_rep)
  have cons: "bm.consistent (bp_ids p) (cached_block_hash_to_block p) (bh p)"
    using rep by (simp add: pool_rep_def pool_cache_def)
  have look: "\<exists>res. get_one_block (cached_block_hash_to_block p) key = Inr res
         \<and> (\<forall>a. res = Some a \<longrightarrow> a \<in> set (blocks p) \<and> bh p a = Some key)
         \<and> (res = None \<longleftrightarrow> (\<forall>a \<in> set (blocks p). bh p a \<noteq> Some key))" for key
    using bm.lookup_total[OF cons, of key] bm.lookup_hit[OF cons, of key] facts(10) by metis
  show ?thesis
    by (intro exI[of _ fs] conjI allI q facts(6,7) look) (simp only: facts(2,8))
qed

definition sample_pool :: block_pool where
  "sample_pool = (case block_pool_init 4 True 2 True of Inr p \<Rightarrow> p)"

lemma sample_pool_init: "block_pool_init 4 True 2 True = Inr sample_pool"
  using block_pool_init_spec[of 4 True 2 True] by (auto simp: sample_pool_def)

lemma sample_pool_rep:
  "pool_rep sample_pool [1, 2, 3]" "num_gpu_blocks sample_pool = 4" "enable_caching sample_pool"
  "hash_block_size sample_pool = 2" "rc sample_pool a = 0" "bh sample_pool a = None"
proof -
  have "[1..<nat 4] = [1, 2, 3]" by (simp add: upt_rec)
  then show "pool_rep sample_pool [1, 2, 3]" "num_gpu_blocks sample_pool = 4" "enable_caching sample_pool"
    "hash_block_size sample_pool = 2" "rc sample_pool a = 0" "bh sample_pool a = None"
    using block_pool_init_spec[of 4 True 2 True] by (auto simp: sample_pool_init)
qed

theorem reachable_pool_consistent_witness:
  "\<exists>p' fs. get_new_blocks counting_env sample_pool 2 = Inr ([1, 2], p')
    \<and> get_all_free_blocks (bp_heap p') (bp_queue p') = Inr (Some fs)
    \<and> get_num_free_blocks p' = int (length fs)"
proof -
  obtain p' where p': "get_new_blocks counting_env sample_pool (int 2) = Inr ([1, 2], p')"
    using get_new_blocks_spec[OF sample_pool_rep(1), of 2] by (auto simp: numeral_2_eq_2)
  have "pool_reachable counting_env sample_pool"
    by (rule reach_init[OF sample_pool_init])
  then have "pool_reachable counting_env p'"
    using p' by (intro reach_step[of counting_env sample_pool p'] step_get_new_blocks[of "int 2"]) auto
  from reachable_pool_consistent[OF this] p' show ?thesis by auto
qed

text \<open>
  C17. \<^verbatim>\<open>get_new_blocks\<close> on a reachable pool: if enough blocks are free it returns the first ones of the
  free queue, each with reference count 1, without a hash, and no longer reachable through the hash
  map; every other block keeps its count and its hash. If not enough are free it raises
  \<^verbatim>\<open>ValueError\<close>.
\<close>

theorem get_new_blocks_correct:
  assumes "pool_reachable env p" and "0 \<le> n"
  shows "if n \<le> get_num_free_blocks p
    then \<exists>p'. get_new_blocks env p n = Inr (take (nat n) (free_list_of p), p')
      \<and> free_list_of p' = drop (nat n) (free_list_of p)
      \<and> (\<forall>a. if a \<in> set (take (nat n) (free_list_of p))
             then ref_cnt (bp_heap p' a) = 1 \<and> block_hash (bp_heap p' a) = None
               \<and> (\<forall>key. get_one_block (cached_block_hash_to_block p') key \<noteq> Inr (Some a))
             else ref_cnt (bp_heap p' a) = ref_cnt (bp_heap p a)
               \<and> block_hash (bp_heap p' a) = block_hash (bp_heap p a))
    else get_new_blocks env p n = Inl ValueError"
proof -
  obtain fs where rep: "pool_rep p fs"
    using pool_reachable_ok[OF assms(1)] by blast
  have free: "free_list_of p = fs" "get_num_free_blocks p = int (length fs)"
    using pool_rep_free_list[OF rep] pool_rep_facts(6)[OF rep] by auto
  show ?thesis
  proof (cases "n \<le> int (length fs)")
    case True
    then have "nat n \<le> length fs" by simp
    from get_new_blocks_spec[OF rep this, of env] assms(2) obtain p' where
        p': "get_new_blocks env p n = Inr (take (nat n) fs, p')" "pool_rep p' (drop (nat n) fs)"
        "\<And>a. rc p' a = (if a \<in> set (take (nat n) fs) then 1 else rc p a)"
        "\<And>a. bh p' a = (if a \<in> set (take (nat n) fs) then None else bh p a)"
      by auto
    have cons: "bm.consistent (bp_ids p') (cached_block_hash_to_block p') (bh p')"
      using p'(2) by (simp add: pool_rep_def pool_cache_def)
    have "get_one_block (cached_block_hash_to_block p') key \<noteq> Inr (Some a)" if "a \<in> set (take (nat n) fs)" for a key
      using bm.lookup_hit[OF cons, of key a] p'(4)[of a] that by auto
    then show ?thesis
      using True p' pool_rep_free_list[OF p'(2)] by (simp add: free)
  next
    case False
    then show ?thesis
      using get_new_blocks_short[OF rep] free by simp
  qed
qed

theorem get_new_blocks_correct_witness:
  "(\<exists>p'. get_new_blocks counting_env sample_pool 2 = Inr ([1, 2], p') \<and> free_list_of p' = [3])
    \<and> get_new_blocks counting_env sample_pool 4 = Inl ValueError"
proof -
  have reach: "pool_reachable counting_env sample_pool"
    by (rule reach_init[OF sample_pool_init])
  have free: "free_list_of sample_pool = [1, 2, 3]" "get_num_free_blocks sample_pool = 3"
    using pool_rep_free_list[OF sample_pool_rep(1)] pool_rep_facts(6)[OF sample_pool_rep(1)] by auto
  show ?thesis
    using get_new_blocks_correct[OF reach, of 2] get_new_blocks_correct[OF reach, of 4]
    by (auto simp: free numeral_2_eq_2)
qed

end
