(* ===== verification/Coordinator_Inv.thy ===== *)
theory Coordinator_Inv
  imports Coordinator Manager_Inv Pool_Machine
begin

text \<open>
  The invariant of all managers together, and operations of the coordinator that keep it. The locale
  \<open>manager_op\<close> is the contract of an operation on one manager: it keeps the invariant of that manager
  against any references of the others, and whatever it does to the shared state keeps the
  preconditions of the managers visited later. The loop over the managers then keeps the invariant of
  all of them; this is proved once and used for every operation.
\<close>

section \<open>The invariant of all managers\<close>

definition all_refs :: "kv_manager list \<Rightarrow> addr multiset" where
  "all_refs ms = sum_list (map refs ms)"

definition managers_inv :: "block_pool \<Rightarrow> addr list \<Rightarrow> kv_manager list \<Rightarrow> addr multiset \<Rightarrow> bool" where
  "managers_inv p fs ms R \<longleftrightarrow>
     pool_rep p fs \<and> (\<forall>m \<in> set ms. manager_ok p m \<and> tails_ok p m) \<and> holds p (all_refs ms + R)"

lemma all_refs_simps [simp]:
  "all_refs [] = {#}" "all_refs (m # ms) = refs m + all_refs ms" "all_refs (ms @ ms') = all_refs ms + all_refs ms'"
  by (simp_all add: all_refs_def)

lemma refs_le_all: "m \<in> set ms \<Longrightarrow> refs m \<subseteq># all_refs ms"
  by (induction ms) (auto simp: subset_mset.add_increasing subset_mset.add_increasing2)

lemma managers_inv_head:
  "managers_inv p fs (m # ms) R \<Longrightarrow> manager_inv p fs m (all_refs ms + R)"
  by (simp add: managers_inv_def manager_inv_def ac_simps)

lemma managers_inv_tail:
  assumes inv: "managers_inv p fs (m # ms) R" and m': "manager_inv p' fs' m' (all_refs ms + R)"
    and frame: "frame (all_refs ms + R) p p'" and cfg: "same_config p p'"
  shows "managers_inv p' fs' ms (refs m' + R)"
proof -
  have "manager_ok p' x \<and> tails_ok p' x" if "x \<in> set ms" for x
  proof
    show "manager_ok p' x" using inv that by (simp add: managers_inv_def manager_ok_cong[OF cfg])
    have "refs x \<subseteq># all_refs ms + R"
      using refs_le_all[OF that] by (simp add: subset_mset.add_increasing2)
    then show "tails_ok p' x"
      using inv that tails_ok_frame[OF _ frame, of x] by (simp add: managers_inv_def)
  qed
  with m' show ?thesis by (simp add: managers_inv_def manager_inv_def ac_simps)
qed

lemma managers_inv_Cons:
  assumes "manager_inv p fs m (all_refs ms + R)" and "managers_inv p fs' ms (refs m + R)"
  shows "managers_inv p fs' (m # ms) R"
  using assms by (simp add: managers_inv_def manager_inv_def ac_simps)

lemma manager_inv_change:
  assumes "manager_inv p fs m R" and "managers_inv p' fs' ms' (refs m + Q)" and "frame (refs m + Q) p p'"
    and cfg: "same_config p p'"
  shows "manager_inv p' fs' m (all_refs ms' + Q)"
proof -
  have "tails_ok p' m"
    using tails_ok_frame[OF _ assms(3)] assms(1) by (simp add: manager_inv_def)
  with assms show ?thesis
    by (simp add: manager_inv_def managers_inv_def manager_ok_cong[OF cfg] ac_simps)
qed

section \<open>The loop over the managers\<close>

locale manager_op =
  fixes oper :: "nat \<Rightarrow> kv_manager \<Rightarrow> 's \<Rightarrow> ('r \<times> kv_manager \<times> 's) res"
    and pool_of :: "'s \<Rightarrow> block_pool"
    and pre :: "nat \<Rightarrow> kv_manager \<Rightarrow> 's \<Rightarrow> bool"
    and env_step :: "'s \<Rightarrow> 's \<Rightarrow> bool"
    and rel :: "kv_manager \<Rightarrow> kv_manager \<Rightarrow> bool"
  assumes keeps: "manager_inv (pool_of s) fs m R \<Longrightarrow> pre i m s \<Longrightarrow> oper i m s = Inr (r, m', s') \<Longrightarrow>
      (\<exists>fs'. manager_inv (pool_of s') fs' m' R) \<and> frame R (pool_of s) (pool_of s')
      \<and> same_config (pool_of s) (pool_of s') \<and> rel m m' \<and> env_step s s'"
    and stable: "pre i m s \<Longrightarrow> env_step s s' \<Longrightarrow> pre i m s'"
    and env_step_refl: "env_step s s"
    and env_step_trans: "env_step s s' \<Longrightarrow> env_step s' s'' \<Longrightarrow> env_step s s''"
begin

lemma over_managers_inv:
  assumes "over_managers oper i ms s = Inr (rs, ms', s')" and "managers_inv (pool_of s) fs ms R"
    and "\<And>k. k < length ms \<Longrightarrow> pre (i + k) (ms ! k) s"
  shows "(\<exists>fs'. managers_inv (pool_of s') fs' ms' R) \<and> frame R (pool_of s) (pool_of s')
    \<and> same_config (pool_of s) (pool_of s') \<and> list_all2 rel ms ms' \<and> env_step s s'"
  using assms
proof (induction ms arbitrary: i s rs ms' fs R)
  case Nil
  then show ?case by (auto simp: env_step_refl)
next
  case (Cons m ms)
  obtain r m1 s1 rs1 ms1 where op: "oper i m s = Inr (r, m1, s1)"
    and rest: "over_managers oper (Suc i) ms s1 = Inr (rs1, ms1, s')" and res: "rs = r # rs1" "ms' = m1 # ms1"
    using Cons.prems(1) by (auto simp: ebind_Inr_iff)
  have "pre i m s" using Cons.prems(3)[of 0] by simp
  from keeps[OF managers_inv_head[OF Cons.prems(2)] this op]
  obtain fs1 where inv1: "manager_inv (pool_of s1) fs1 m1 (all_refs ms + R)"
    and fr1: "frame (all_refs ms + R) (pool_of s) (pool_of s1)" and cfg1: "same_config (pool_of s) (pool_of s1)"
    and same: "rel m m1" and es: "env_step s s1"
    by blast
  have "pre (Suc i + k) (ms ! k) s1" if "k < length ms" for k
    using Cons.prems(3)[of "Suc k"] that stable[OF _ es] by simp
  from Cons.IH[OF rest managers_inv_tail[OF Cons.prems(2) inv1 fr1 cfg1] this]
  obtain fs2 where inv2: "managers_inv (pool_of s') fs2 ms1 (refs m1 + R)"
    and fr2: "frame (refs m1 + R) (pool_of s1) (pool_of s')" and cfg2: "same_config (pool_of s1) (pool_of s')"
    and all: "list_all2 rel ms ms1" and es2: "env_step s1 s'"
    by blast
  have "managers_inv (pool_of s') fs2 (m1 # ms1) R"
    using managers_inv_Cons[OF manager_inv_change[OF inv1 inv2 fr2 cfg2] inv2] .
  moreover have "frame R (pool_of s) (pool_of s')"
    using fr1 fr2 by (auto simp: frame_def)
  ultimately show ?case
    using same all res same_config_trans[OF cfg1 cfg2] env_step_trans[OF es es2] by auto
qed

end

text \<open>Operations that never raise within their precondition.\<close>

locale total_manager_op = manager_op +
  assumes returns: "manager_inv (pool_of s) fs m R \<Longrightarrow> pre i m s \<Longrightarrow> \<exists>x. oper i m s = Inr x"
begin

lemma over_managers_total:
  assumes "managers_inv (pool_of s) fs ms R" and "\<And>k. k < length ms \<Longrightarrow> pre (i + k) (ms ! k) s"
  shows "\<exists>rs ms' s'. over_managers oper i ms s = Inr (rs, ms', s')"
  using assms
proof (induction ms arbitrary: i s fs R)
  case Nil
  then show ?case by simp
next
  case (Cons m ms)
  have pre: "pre i m s" using Cons.prems(2)[of 0] by simp
  obtain r m1 s1 where op: "oper i m s = Inr (r, m1, s1)"
    using returns[OF managers_inv_head[OF Cons.prems(1)] pre] by (metis prod_cases3)
  from keeps[OF managers_inv_head[OF Cons.prems(1)] pre op]
  obtain fs1 where inv1: "manager_inv (pool_of s1) fs1 m1 (all_refs ms + R)"
    and fr1: "frame (all_refs ms + R) (pool_of s) (pool_of s1)" and cfg1: "same_config (pool_of s) (pool_of s1)"
    and es: "env_step s s1"
    by blast
  have "pre (Suc i + k) (ms ! k) s1" if "k < length ms" for k
    using Cons.prems(2)[of "Suc k"] that stable[OF _ es] by simp
  from Cons.IH[OF managers_inv_tail[OF Cons.prems(1) inv1 fr1 cfg1] this] op show ?case by auto
qed

end

section \<open>The operations of the coordinator\<close>

lemma manager_ok_spec: "manager_inv p fs m R \<Longrightarrow> spec_ok m"
  by (simp add: manager_inv_def manager_ok_def)

interpretation free_op: total_manager_op
  "\<lambda>i m p. ebind (free_request m p rid) (\<lambda>(m', p'). Inr ((), m', p'))" "\<lambda>p. p" "\<lambda>i m p. True"
  "\<lambda>p p'. \<forall>a. bh p' a = bh p a"
  "\<lambda>m m'. same_manager m m' \<and> (\<forall>x. req_table m' x = (if x = rid then [] else req_table m x))" for rid
proof (unfold_locales, goal_cases)
  case (1 s fs m R i r m' s')
  from 1(1) show ?case by (rule free_request_inv[of s fs m R rid]) (use 1(3) in auto)
next
  case (5 s fs m R i)
  from 5(1) show ?case by (rule free_request_inv[of s fs m R rid]) auto
qed simp_all

text \<open>Removing skipped blocks keeps the length of every table.\<close>

definition same_shape :: "kv_manager \<Rightarrow> kv_manager \<Rightarrow> bool" where
  "same_shape m m' \<longleftrightarrow> same_manager m m' \<and> num_cached_block m' = num_cached_block m
     \<and> (\<forall>x. length (req_table m' x) = length (req_table m x))"

interpretation remove_op: total_manager_op
  "\<lambda>i m p. ebind (remove_skipped_blocks m p rid computed) (\<lambda>(m', p'). Inr ((), m', p'))"
  "\<lambda>p. p" "\<lambda>i m p. True" "\<lambda>p p'. \<forall>a. bh p' a = bh p a" same_shape for rid computed
proof (unfold_locales, goal_cases)
  case (1 s fs m R i r m' s')
  show ?case
    by (rule base_remove_skipped_blocks_inv[OF 1(1) refl refl, of rid "needed_from m computed"])
       (use 1(3) remove_skipped_blocks_base[OF manager_ok_spec[OF 1(1)]] in \<open>auto simp: same_shape_def removed_count_def\<close>)
next
  case (5 s fs m R i)
  show ?case
    by (rule base_remove_skipped_blocks_inv[OF 5(1) refl refl, of rid "needed_from m computed"])
       (use remove_skipped_blocks_base[OF manager_ok_spec[OF 5(1)]] in \<open>auto simp: same_shape_def removed_count_def\<close>)
qed simp_all

interpretation grow_op: manager_op
  "\<lambda>i m p. allocate_new_blocks env m p rid (ntok m) main" "\<lambda>p. p" "\<lambda>i m p. True" "\<lambda>p p'. True" same_manager
  for env rid ntok main
proof (unfold_locales, goal_cases)
  case (1 p fs m R i r m' p')
  define n where "n = nat (cdiv (slot_tokens m (ntok m)) (m_block_size m) - int (length (req_table m rid)))"
  note base = allocate_new_blocks_base[OF manager_ok_spec[OF 1(1)], of env p rid "ntok m" main]
  show ?case
  proof (cases "n \<le> length fs")
    case True
    show ?thesis
      by (rule base_allocate_new_blocks_inv[OF 1(1) n_def True, of env]) (use 1(3) base in auto)
  next
    case False
    then have "int (length fs) < cdiv (slot_tokens m (ntok m)) (m_block_size m) - int (length (req_table m rid))"
      by (simp add: n_def)
    from base_allocate_new_blocks_short[OF manager_inv_parts(1)[OF 1(1)] this, of env] 1(3) base
    show ?thesis by simp
  qed
qed simp_all

text \<open>The request is only changed in its memo of prompt embedding hashes.\<close>

interpretation cache_op: total_manager_op
  "\<lambda>i m (p, r). ebind (cache_blocks env m p r ntok) (\<lambda>(m', p', r'). Inr ((), m', p', r'))"
  fst "\<lambda>i m (p, r). m_class m \<noteq> CrossAttentionManager \<and> (\<exists>l. can_cache p m r ntok l)"
  "\<lambda>(p, r) (p', r'). same_config p p' \<and> memo_only r r' \<and> (\<forall>a. rc p' a = rc p a)"
  "\<lambda>m m'. same_manager m m' \<and> (\<forall>x. req_table m' x = req_table m x)" for env ntok
proof (unfold_locales, goal_cases)
  case (1 s fs m R i x m' s')
  obtain p r where s: "s = (p, r)" by (cases s)
  with 1 obtain l where l: "can_cache p m r ntok l" "m_class m \<noteq> CrossAttentionManager" "manager_inv p fs m R" by auto
  show ?case
    by (rule cache_blocks_inv[OF l(3,1,2) refl refl refl, of env]) (use 1(3) s in auto)
next
  case (2 i m s s')
  then show ?case
    by (auto simp: can_cache_def same_config_def memo_only_def)
next
  case (4 s s' s'')
  then show ?case by (auto intro: same_config_trans simp: memo_only_def)
next
  case (5 s fs m R i)
  obtain p r where s: "s = (p, r)" by (cases s)
  with 5 obtain l where l: "can_cache p m r ntok l" "m_class m \<noteq> CrossAttentionManager" "manager_inv p fs m R" by auto
  show ?case
    by (rule cache_blocks_inv[OF l(3,1,2) refl refl refl, of env]) (use s in auto)
qed auto

text \<open>
  Taking over computed blocks: without externally computed tokens no hash changes, so the blocks of
  the later managers are still cached when their turn comes.
\<close>

definition share_step :: "hash_env \<Rightarrow> string \<Rightarrow> addr list list \<Rightarrow> int \<Rightarrow> int \<Rightarrow> nat \<Rightarrow> kv_manager \<Rightarrow> block_pool
   \<Rightarrow> (unit \<times> kv_manager \<times> block_pool) res" where
  "share_step env rid new_computed_blocks loc ext i m p =
     ebind (py_nth new_computed_blocks (int i)) (\<lambda>computed.
     ebind (allocate_new_computed_blocks env m p rid computed loc ext) (\<lambda>(m', p'). Inr ((), m', p')))"

lemma share_step_Inr:
  assumes "share_step env rid ncb loc ext i m p = Inr (x, m', p')"
  shows "i < length ncb" "allocate_new_computed_blocks env m p rid (ncb ! i) loc ext = Inr (m', p')"
proof -
  obtain c where c: "py_nth ncb (int i) = Inr c" "allocate_new_computed_blocks env m p rid c loc ext = Inr (m', p')"
    using assms by (auto simp: share_step_def ebind_Inr_iff)
  from c(1) show len: "i < length ncb" by (auto simp: py_nth_def split: if_splits)
  with c py_nth_nat[OF len] show "allocate_new_computed_blocks env m p rid (ncb ! i) loc ext = Inr (m', p')" by simp
qed

interpretation share_op: manager_op
  "share_step env rid ncb loc ext" "\<lambda>p. p" "\<lambda>i m p. ext \<le> 0 \<and> ready p m rid (ncb ! i)"
  "\<lambda>p p'. same_config p p' \<and> (\<forall>a. bh p' a = bh p a)" same_manager for env rid ncb loc ext
proof (unfold_locales, goal_cases)
  case (1 p fs m R i x m' p')
  then show ?case
    using allocate_new_computed_blocks_inv[OF 1(1) _ _ share_step_Inr(2)[OF 1(3)]] by blast
next
  case (2 i m p p')
  then show ?case by (auto simp: ready_def table_ok_cong)
next
  case (4 p p' p'')
  then show ?case by (auto intro: same_config_trans)
qed auto

text \<open>Predicting the demand changes nothing.\<close>

lemma manager_demand_Inr:
  assumes "spec_ok m" and "manager_demand rid ntok ncb enc tot main cap i m p = Inr (k, m', p')"
  shows "m' = m" "p' = p"
  using assms mamba_not_align[OF assms(1)]
  by (auto simp: manager_demand_def num_blocks_to_allocate_def mamba_num_blocks_to_allocate_def ebind_Inr_iff
      Let_def split: if_splits)

lemma demand_unchanged:
  assumes "over_managers (manager_demand rid ntok ncb enc tot main cap) i ms p = Inr (ks, ms', p')"
    and "\<forall>m \<in> set ms. spec_ok m"
  shows "ms' = ms \<and> p' = p"
  using assms
proof (induction ms arbitrary: i p ks ms')
  case Nil
  then show ?case by simp
next
  case (Cons m ms)
  then obtain k m1 p1 ks1 ms1 where "manager_demand rid ntok ncb enc tot main cap i m p = Inr (k, m1, p1)"
    "over_managers (manager_demand rid ntok ncb enc tot main cap) (Suc i) ms p1 = Inr (ks1, ms1, p')" "ms' = m1 # ms1"
    by (auto simp: ebind_Inr_iff)
  with Cons manager_demand_Inr[of m rid ntok ncb enc tot main cap i p k m1 p1] show ?case by auto
qed

section \<open>The invariant of the coordinator\<close>

definition coord_ok :: "kv_coordinator \<Rightarrow> bool" where
  "coord_ok c \<longleftrightarrow> (\<exists>fs. managers_inv (c_pool c) fs (single_type_managers c) {#})"

definition same_managers :: "kv_coordinator \<Rightarrow> kv_coordinator \<Rightarrow> bool" where
  "same_managers c c' \<longleftrightarrow>
     same_config (c_pool c) (c_pool c') \<and> c_kind c' = c_kind c \<and> c_config c' = c_config c
     \<and> list_all2 same_manager (single_type_managers c) (single_type_managers c')"

lemma coord_free_ok:
  assumes "coord_ok c"
  shows "\<exists>c'. coord_free c rid = Inr c' \<and> coord_ok c' \<and> same_managers c c'
    \<and> c' = with_managers c (single_type_managers c') (c_pool c')
    \<and> (\<forall>k<length (single_type_managers c). \<forall>x.
          req_table (single_type_managers c' ! k) x = (if x = rid then [] else req_table (single_type_managers c ! k) x))
    \<and> (\<forall>a. bh (c_pool c') a = bh (c_pool c) a)"
proof -
  obtain fs where inv: "managers_inv (c_pool c) fs (single_type_managers c) {#}" using assms by (auto simp: coord_ok_def)
  obtain rs ms p where run: "over_managers (\<lambda>i m p. ebind (free_request m p rid) (\<lambda>(m', p'). Inr ((), m', p')))
      0 (single_type_managers c) (c_pool c) = Inr (rs, ms, p)"
    using free_op.over_managers_total[OF inv, of rid 0] by auto
  from free_op.over_managers_inv[OF run inv] run show ?thesis
    by (auto simp: coord_free_def coord_ok_def same_managers_def list_all2_conv_all_nth)
qed

lemma coord_remove_skipped_blocks_ok:
  assumes "coord_ok c"
  shows "\<exists>c'. coord_remove_skipped_blocks c rid computed = Inr c' \<and> coord_ok c' \<and> same_managers c c'
    \<and> c' = with_managers c (single_type_managers c') (c_pool c')
    \<and> list_all2 same_shape (single_type_managers c) (single_type_managers c')
    \<and> (\<forall>a. bh (c_pool c') a = bh (c_pool c) a)"
proof -
  obtain fs where inv: "managers_inv (c_pool c) fs (single_type_managers c) {#}" using assms by (auto simp: coord_ok_def)
  obtain rs ms p where run: "over_managers (\<lambda>i m p. ebind (remove_skipped_blocks m p rid computed) (\<lambda>(m', p'). Inr ((), m', p')))
      0 (single_type_managers c) (c_pool c) = Inr (rs, ms, p)"
    using remove_op.over_managers_total[OF inv, of rid computed 0] by auto
  from remove_op.over_managers_inv[OF run inv] run show ?thesis
    by (auto simp: coord_remove_skipped_blocks_def coord_ok_def same_managers_def same_shape_def list_all2_conv_all_nth)
qed

lemma coord_allocate_new_blocks_ok:
  assumes "coord_ok c" and run: "coord_allocate_new_blocks env c rid ntok main enc = Inr (new, c')"
  shows "coord_ok c' \<and> same_managers c c'"
proof -
  obtain fs where inv: "managers_inv (c_pool c) fs (single_type_managers c) {#}" using assms(1) by (auto simp: coord_ok_def)
  obtain ms p where over: "over_managers (\<lambda>i m p. allocate_new_blocks env m p rid
       (if m_class m = CrossAttentionManager then enc else ntok) main) 0 (single_type_managers c) (c_pool c) = Inr (new, ms, p)"
    and c': "c' = with_managers c ms p"
    using run by (auto simp: coord_allocate_new_blocks_def ebind_Inr_iff)
  from grow_op.over_managers_inv[OF over inv] show ?thesis
    by (auto simp: c' coord_ok_def same_managers_def)
qed

lemma coord_cache_blocks_ok:
  assumes "coord_ok c"
    and can: "\<And>m. m \<in> set (single_type_managers c) \<Longrightarrow>
      m_class m \<noteq> CrossAttentionManager \<and> (\<exists>l. can_cache (c_pool c) m r computed l)"
  shows "\<exists>c' r'. coord_cache_blocks env c r computed = Inr (c', r') \<and> coord_ok c' \<and> same_managers c c'
    \<and> c' = with_managers c (single_type_managers c') (c_pool c') \<and> memo_only r r'
    \<and> (\<forall>k<length (single_type_managers c). \<forall>x.
          req_table (single_type_managers c' ! k) x = req_table (single_type_managers c ! k) x)
    \<and> (\<forall>a. rc (c_pool c') a = rc (c_pool c) a)"
proof -
  let ?op = "\<lambda>(i::nat) m (p, r). ebind (cache_blocks env m p r computed) (\<lambda>(m', p', r'). Inr ((), m', p', r'))"
  obtain fs where inv: "managers_inv (fst (c_pool c, r)) fs (single_type_managers c) {#}"
    using assms(1) by (auto simp: coord_ok_def)
  have pre: "(case (c_pool c, r) of (p, r) \<Rightarrow> m_class (single_type_managers c ! k) \<noteq> CrossAttentionManager
      \<and> (\<exists>l. can_cache p (single_type_managers c ! k) r computed l))" if "k < length (single_type_managers c)" for k
    using can[of "single_type_managers c ! k"] that by simp
  obtain rs ms s where run: "over_managers ?op 0 (single_type_managers c) (c_pool c, r) = Inr (rs, ms, s)"
    using cache_op.over_managers_total[OF inv pre, of env 0] by auto
  from cache_op.over_managers_inv[OF run inv pre] run show ?thesis
    by (cases s) (auto simp: coord_cache_blocks_def coord_ok_def same_managers_def list_all2_conv_all_nth)
qed

lemma coord_allocate_new_computed_blocks_alt:
  "coord_allocate_new_computed_blocks env c rid ncb loc ext =
     ebind (over_managers (share_step env rid ncb loc ext) 0 (single_type_managers c) (c_pool c))
       (\<lambda>(_, ms, p). Inr (with_managers c ms p))"
  by (simp add: coord_allocate_new_computed_blocks_def share_step_def[abs_def])

lemma coord_num_blocks_to_allocate_same:
  assumes "coord_ok c" and "coord_num_blocks_to_allocate c rid ntok ncb enc tot main cap = Inr (n, c')"
  shows "c' = c"
proof -
  obtain ks ms p where "over_managers (manager_demand rid ntok ncb enc tot main cap) 0 (single_type_managers c) (c_pool c)
      = Inr (ks, ms, p)" "c' = with_managers c ms p"
    using assms(2) by (auto simp: coord_num_blocks_to_allocate_def ebind_Inr_iff)
  moreover have "\<forall>m \<in> set (single_type_managers c). spec_ok m"
    using assms(1) by (auto simp: coord_ok_def managers_inv_def manager_ok_def)
  ultimately show ?thesis using demand_unchanged by fastforce
qed

end
