(* ===== verification/Allocation.thy ===== *)
theory Allocation
  imports Coordinator_Inv
begin

text \<open>
  Capacity. The number of blocks \<^verbatim>\<open>get_num_blocks_to_allocate\<close> predicts is what the allocation then
  takes out of the free queue: the blocks it touches and the new ones. So when the prediction does
  not exceed the free blocks, taking over computed blocks and growing all tables succeeds.
\<close>

section \<open>What one manager takes\<close>

definition share_need :: "block_pool \<Rightarrow> kv_manager \<Rightarrow> addr list \<Rightarrow> int \<Rightarrow> int \<Rightarrow> int" where
  "share_need p m computed tot ext =
     get_num_evictable_blocks p (kept_blocks m computed tot) + int (external_blocks m computed tot ext)"

definition grow_need :: "kv_manager \<Rightarrow> string \<Rightarrow> int \<Rightarrow> nat" where
  "grow_need m rid ntok = nat (cdiv (slot_tokens m ntok) (m_block_size m) - int (length (req_table m rid)))"

text \<open>The evictable blocks among distinct ones are those that leave the free queue when touched.\<close>

lemma evictable_count:
  assumes rep: "pool_rep p fs" and t: "table_ok p bs"
  shows "int (length (filter (\<lambda>b. b \<notin> set bs) fs)) = int (length fs) - get_num_evictable_blocks p bs"
proof -
  have iff: "rc p a = 0 \<and> \<not> is_null (bp_heap p a) \<longleftrightarrow> a \<in> set fs" if "a \<in> set bs" for a
    using that t pool_rep_facts(5)[OF rep, of a] pool_rep_facts(8)[OF rep, of a] by (auto simp: table_ok_def)
  have "get_num_evictable_blocks p bs = int (length (filter (\<lambda>b. b \<in> set fs) bs))"
    unfolding get_num_evictable_blocks_def using iff by (metis (mono_tags, lifting) filter_cong)
  also have "filter (\<lambda>b. b \<in> set fs) bs = filter (\<lambda>b. b \<in> set fs) (filter (\<lambda>a. a \<noteq> 0) bs)"
    using pool_rep_facts(8)[OF rep, of 0] by (auto intro!: filter_cong) (metis gr0I)
  also have "length \<dots> = card (set bs \<inter> set fs)"
  proof -
    have "distinct (filter (\<lambda>b. b \<in> set fs) (filter (\<lambda>a. a \<noteq> 0) bs))"
      using t distinct_filter[of "filter (\<lambda>a. a \<noteq> 0) bs" "\<lambda>b. b \<in> set fs"]
      unfolding table_ok_def table_distinct_def by blast
    moreover have "set (filter (\<lambda>b. b \<in> set fs) (filter (\<lambda>a. a \<noteq> 0) bs)) = set bs \<inter> set fs"
      using pool_rep_facts(8)[OF rep, of 0] by auto (metis gr0I)
    ultimately show ?thesis by (metis distinct_card)
  qed
  finally have ev: "get_num_evictable_blocks p bs = int (card (set bs \<inter> set fs))" .
  have "card (set fs) = card (set fs - set bs) + card (set bs \<inter> set fs)"
    using card_Int_Diff[of "set fs" "set bs"] by (simp add: Int_commute)
  moreover have "length (filter (\<lambda>b. b \<notin> set bs) fs) = card (set fs - set bs)"
    using distinct_card[of "filter (\<lambda>b. b \<notin> set bs) fs"] pool_rep_facts(7)[OF rep] by (simp add: set_diff_eq)
  ultimately show ?thesis
    using ev distinct_card[OF pool_rep_facts(7)[OF rep]] by simp
qed

lemma evictable_mono:
  assumes "pool_rep p fs" and "table_ok p bs" and "\<And>a. rc p a \<le> rc p' a" and "same_config p p'"
  shows "get_num_evictable_blocks p' bs \<le> get_num_evictable_blocks p bs"
proof -
  have "rc p a = 0 \<and> \<not> is_null (bp_heap p a)" if "a \<in> set bs" "rc p' a = 0 \<and> \<not> is_null (bp_heap p' a)" for a
  proof -
    have "a \<in> set (blocks p)" "\<not> is_null (bp_heap p a)"
      using that assms(2,4) by (auto simp: table_ok_def same_config_def)
    then have "0 \<le> rc p a"
      using pool_rep_facts(5,9)[OF assms(1), of a] by blast
    with assms(3)[of a] that \<open>\<not> is_null (bp_heap p a)\<close> show ?thesis by simp
  qed
  then show ?thesis
    unfolding get_num_evictable_blocks_def by (induction bs) auto
qed

text \<open>
  A manager passes over the computed blocks when it is for cross attention or the request is already
  running there; otherwise the request is new and the blocks are cached ones.
\<close>

definition passes :: "kv_manager \<Rightarrow> string \<Rightarrow> bool" where
  "passes m rid \<longleftrightarrow> m_class m = CrossAttentionManager \<or> dget (num_cached_block m) rid \<noteq> None"

definition share_ok :: "block_pool \<Rightarrow> kv_manager \<Rightarrow> string \<Rightarrow> addr list \<Rightarrow> int \<Rightarrow> bool" where
  "share_ok p m rid computed loc \<longleftrightarrow>
     (if passes m rid then computed = []
      else req_table m rid = [] \<and> table_ok p computed \<and> (\<forall>a \<in> set computed. a \<noteq> 0 \<longrightarrow> bh p a \<noteq> None)
           \<and> (m_enable_caching m \<or> computed = []) \<and> int (length computed) * m_block_size m \<le> loc \<and> 0 \<le> loc)"

definition share_cost :: "block_pool \<Rightarrow> kv_manager \<Rightarrow> string \<Rightarrow> addr list \<Rightarrow> int \<Rightarrow> int \<Rightarrow> int" where
  "share_cost p m rid computed tot ext = (if passes m rid then 0 else share_need p m computed tot ext)"

definition shared_len :: "kv_manager \<Rightarrow> string \<Rightarrow> addr list \<Rightarrow> int \<Rightarrow> int \<Rightarrow> nat" where
  "shared_len m rid computed tot ext =
     (if passes m rid then length (req_table m rid)
      else length (computed_table m computed tot) + external_blocks m computed tot ext)"

lemma share_cost_nonneg: "0 \<le> share_cost p m rid computed tot ext"
  by (simp add: share_cost_def share_need_def get_num_evictable_blocks_def)

lemma share_ok_cong:
  "same_config p p' \<Longrightarrow> (\<And>a. bh p' a = bh p a) \<Longrightarrow> share_ok p' m rid computed loc = share_ok p m rid computed loc"
  by (simp add: share_ok_def table_ok_cong)

lemma share_one:
  assumes inv: "manager_inv p fs m R" and ok: "share_ok p m rid computed loc" and ext: "0 \<le> ext"
    and cost: "share_cost p m rid computed (loc + ext) ext \<le> int (length fs)"
  obtains m' p' fs' where "allocate_new_computed_blocks env m p rid computed loc ext = Inr (m', p')"
    "manager_inv p' fs' m' R" "frame R p p'" "same_config p p'" "same_manager m m'"
    "int (length fs') = int (length fs) - share_cost p m rid computed (loc + ext) ext"
    "length (req_table m' rid) = shared_len m rid computed (loc + ext) ext"
    "\<forall>a. rc p a \<le> rc p' a" "ext = 0 \<longrightarrow> (\<forall>a. bh p' a = bh p a)"
proof (cases "passes m rid")
  case True
  then have "allocate_new_computed_blocks env m p rid computed loc ext = Inr (m, p)"
    using ok by (auto simp: passes_def share_ok_def allocate_new_computed_blocks_def base_allocate_new_computed_blocks_def)
  with True inv show thesis
    by (intro that[of m p fs]) (auto simp: share_cost_def shared_len_def)
next
  case False
  let ?kept = "kept_blocks m computed (loc + ext)" and ?n = "external_blocks m computed (loc + ext) ext"
  let ?fs = "filter (\<lambda>b. b \<notin> set ?kept) fs"
  from False ok have new: "dget (num_cached_block m) rid = None" "req_table m rid = []"
    and comp: "table_ok p computed" "\<And>a. a \<in> set computed \<Longrightarrow> a \<noteq> 0 \<Longrightarrow> bh p a \<noteq> None"
    and caching: "m_enable_caching m \<or> ?kept = []"
    and len: "int (length computed) * m_block_size m \<le> loc" "0 \<le> loc"
    by (auto simp: passes_def share_ok_def kept_blocks_def)
  have fits: "int (length (computed_table m computed (loc + ext))) \<le> cdiv (loc + ext) (m_block_size m)"
    using computed_table_fits[OF manager_ok_spec[OF inv], of computed "loc + ext"] len ext by simp
  have left: "int (length ?fs) = int (length fs) - get_num_evictable_blocks p ?kept"
    using evictable_count[OF manager_inv_parts(1)[OF inv]] table_ok_drop[OF comp(1)] by (simp add: kept_blocks_def)
  then have n: "?n \<le> length ?fs"
    using cost False by (simp add: share_cost_def share_need_def)
  have run: "allocate_new_computed_blocks env m p rid computed loc ext = base_allocate_new_computed_blocks env m p rid computed loc ext"
    using False by (simp add: passes_def allocate_new_computed_blocks_def)
  have ext0: "?n = 0" if "ext = 0"
    using that by (simp add: external_blocks_def external_tokens_def)
  have zero: "rc p a = 0" if "a \<in> set (take ?n ?fs)" for a
    using in_set_takeD[OF that] pool_rep_facts(8)[OF manager_inv_parts(1)[OF inv], of a] by simp
  show thesis
  proof (rule base_allocate_new_computed_blocks_inv[OF inv new comp caching fits refl refl n, of env])
    fix m' p'
    assume res: "base_allocate_new_computed_blocks env m p rid computed loc ext = Inr (m', p')"
      "manager_inv p' (drop ?n ?fs) m' R" "frame R p p'" "same_config p p'" "same_manager m m'"
      and tab: "\<And>x. req_table m' x = (if x = rid then computed_table m computed (loc + ext) @ take ?n ?fs else req_table m x)"
      and rc: "\<And>x. rc p' x = (if x \<in> set (take ?n ?fs) then 1 else rc p x + int (count_list ?kept x))"
      and bh: "\<And>x. bh p' x = (if x \<in> set (take ?n ?fs) then None else bh p x)"
    show thesis
    proof (rule that[of m' p' "drop ?n ?fs"])
      show "int (length (drop ?n ?fs)) = int (length fs) - share_cost p m rid computed (loc + ext) ext"
        using False left n by (simp add: share_cost_def share_need_def of_nat_diff)
      show "length (req_table m' rid) = shared_len m rid computed (loc + ext) ext"
        using False n by (simp add: tab shared_len_def)
      show "\<forall>a. rc p a \<le> rc p' a" using zero by (simp add: rc)
      show "ext = 0 \<longrightarrow> (\<forall>a. bh p' a = bh p a)" using ext0 by (simp add: bh)
    qed (use res run in auto)
  qed
qed

section \<open>All managers\<close>

lemma share_cost_mono:
  assumes "pool_rep p fs" and "share_ok p m rid computed loc" and "\<And>a. rc p a \<le> rc p' a" and "same_config p p'"
  shows "share_cost p' m rid computed tot ext \<le> share_cost p m rid computed tot ext"
proof (cases "passes m rid")
  case False
  then have "table_ok p (kept_blocks m computed tot)"
    using assms(2) table_ok_drop by (simp add: share_ok_def kept_blocks_def)
  from evictable_mono[OF assms(1) this assms(3,4)] False show ?thesis
    by (simp add: share_cost_def share_need_def)
qed (simp add: share_cost_def)

lemma share_all:
  assumes "managers_inv p fs ms R"
    and "\<And>k. k < length ms \<Longrightarrow> i + k < length ncb \<and> share_ok p (ms ! k) rid (ncb ! (i + k)) loc"
    and "0 \<le> ext" and "ext = 0 \<or> length ms \<le> 1"
    and "(\<Sum>k<length ms. share_cost p (ms ! k) rid (ncb ! (i + k)) (loc + ext) ext) \<le> int (length fs)"
  shows "\<exists>rs ms' p' fs'. over_managers (share_step env rid ncb loc ext) i ms p = Inr (rs, ms', p')
    \<and> managers_inv p' fs' ms' R \<and> frame R p p' \<and> same_config p p' \<and> list_all2 same_manager ms ms'
    \<and> int (length fs) - (\<Sum>k<length ms. share_cost p (ms ! k) rid (ncb ! (i + k)) (loc + ext) ext) \<le> int (length fs')
    \<and> (\<forall>k<length ms. length (req_table (ms' ! k) rid) = shared_len (ms ! k) rid (ncb ! (i + k)) (loc + ext) ext)"
  using assms
proof (induction ms arbitrary: i p fs R)
  case Nil
  then show ?case by auto
next
  case (Cons m ms)
  let ?cost = "\<lambda>p k. share_cost p (ms ! k) rid (ncb ! (Suc i + k)) (loc + ext) ext"
  let ?c0 = "share_cost p m rid (ncb ! i) (loc + ext) ext"
  have sum: "(\<Sum>k<length (m # ms). share_cost p ((m # ms) ! k) rid (ncb ! (i + k)) (loc + ext) ext)
      = ?c0 + (\<Sum>k<length ms. ?cost p k)"
    by (simp add: sum.lessThan_Suc_shift del: sum.lessThan_Suc)
  have nonneg: "0 \<le> (\<Sum>k<length ms. ?cost p k)" by (simp add: sum_nonneg share_cost_nonneg)
  have len: "i < length ncb" and ok0: "share_ok p m rid (ncb ! i) loc" using Cons.prems(2)[of 0] by auto
  have ok: "Suc i + k < length ncb \<and> share_ok p (ms ! k) rid (ncb ! (Suc i + k)) loc" if "k < length ms" for k
    using Cons.prems(2)[of "Suc k"] that by simp
  have c0: "?c0 \<le> int (length fs)" using Cons.prems(5) nonneg unfolding sum by linarith
  obtain m1 p1 fs1 where one: "allocate_new_computed_blocks env m p rid (ncb ! i) loc ext = Inr (m1, p1)"
    "manager_inv p1 fs1 m1 (all_refs ms + R)" "frame (all_refs ms + R) p p1" "same_config p p1" "same_manager m m1"
    "int (length fs1) = int (length fs) - ?c0" "length (req_table m1 rid) = shared_len m rid (ncb ! i) (loc + ext) ext"
    "\<forall>a. rc p a \<le> rc p1 a" "ext = 0 \<longrightarrow> (\<forall>a. bh p1 a = bh p a)"
    using share_one[OF managers_inv_head[OF Cons.prems(1)] ok0 Cons.prems(3) c0, of env] by blast
  have step: "share_step env rid ncb loc ext i m p = Inr ((), m1, p1)"
    using one(1) py_nth_nat[OF len] by (simp add: share_step_def)
  have ok1: "Suc i + k < length ncb \<and> share_ok p1 (ms ! k) rid (ncb ! (Suc i + k)) loc" if "k < length ms" for k
  proof -
    have "ext = 0" using that Cons.prems(4) by auto
    with ok[OF that] show ?thesis using share_ok_cong[OF one(4)] one(9) by simp
  qed
  have mono: "?cost p1 k \<le> ?cost p k" if "k < length ms" for k
  proof (rule share_cost_mono[OF _ _ spec[OF one(8)] one(4)])
    show "pool_rep p fs" using Cons.prems(1) by (simp add: managers_inv_def)
    show "share_ok p (ms ! k) rid (ncb ! (Suc i + k)) loc" using ok[OF that] by blast
  qed
  then have sums: "(\<Sum>k<length ms. ?cost p1 k) \<le> (\<Sum>k<length ms. ?cost p k)"
    by (intro sum_mono) simp
  then have bound: "(\<Sum>k<length ms. ?cost p1 k) \<le> int (length fs1)"
    using Cons.prems(5) one(6) unfolding sum by linarith
  have "ext = 0 \<or> length ms \<le> 1" using Cons.prems(4) by auto
  from Cons.IH[OF managers_inv_tail[OF Cons.prems(1) one(2,3,4)] ok1 Cons.prems(3) this bound]
  obtain rs ms1 p2 fs2 where rest: "over_managers (share_step env rid ncb loc ext) (Suc i) ms p1 = Inr (rs, ms1, p2)"
    "managers_inv p2 fs2 ms1 (refs m1 + R)" "frame (refs m1 + R) p1 p2" "same_config p1 p2" "list_all2 same_manager ms ms1"
    "int (length fs1) - (\<Sum>k<length ms. ?cost p1 k) \<le> int (length fs2)"
    "\<forall>k<length ms. length (req_table (ms1 ! k) rid) = shared_len (ms ! k) rid (ncb ! (Suc i + k)) (loc + ext) ext"
    by blast
  have "over_managers (share_step env rid ncb loc ext) i (m # ms) p = Inr (() # rs, m1 # ms1, p2)"
    using step rest(1) by simp
  moreover have "managers_inv p2 fs2 (m1 # ms1) R"
    using managers_inv_Cons[OF manager_inv_change[OF one(2) rest(2,3,4)] rest(2)] .
  moreover have "frame R p p2" using one(3) rest(3) by (auto simp: frame_def)
  moreover have "length (req_table ((m1 # ms1) ! k) rid) = shared_len ((m # ms) ! k) rid (ncb ! (i + k)) (loc + ext) ext"
    if "k < length (m # ms)" for k
    using that one(7) rest(7) by (cases k) auto
  moreover have "int (length fs)
      - (\<Sum>k<length (m # ms). share_cost p ((m # ms) ! k) rid (ncb ! (i + k)) (loc + ext) ext) \<le> int (length fs2)"
    using rest(6) sums one(6) unfolding sum by linarith
  moreover have "list_all2 same_manager (m # ms) (m1 # ms1)" using one(5) rest(5) by simp
  moreover have "same_config p p2" using same_config_trans[OF one(4) rest(4)] .
  ultimately show ?case
    by (intro exI[of _ "() # rs"] exI[of _ "m1 # ms1"] exI[of _ p2] exI[of _ fs2] conjI allI impI)
qed

abbreviation grow_step :: "hash_env \<Rightarrow> string \<Rightarrow> (kv_manager \<Rightarrow> int) \<Rightarrow> int \<Rightarrow> nat \<Rightarrow> kv_manager \<Rightarrow> block_pool
   \<Rightarrow> (addr list \<times> kv_manager \<times> block_pool) res" where
  "grow_step env rid ntok main \<equiv> \<lambda>i m p. allocate_new_blocks env m p rid (ntok m) main"

definition grown :: "string \<Rightarrow> kv_manager \<Rightarrow> addr list \<Rightarrow> kv_manager \<Rightarrow> bool" where
  "grown rid m new m' \<longleftrightarrow>
     (\<forall>x. req_table m' x = (if x = rid then req_table m rid @ new else req_table m x))
     \<and> num_cached_block m' = num_cached_block m \<and> same_manager m m'"

lemma grow_one:
  assumes inv: "manager_inv p fs m R" and n: "n = grow_need m rid ntok" "n \<le> length fs"
  obtains m' p' where "allocate_new_blocks env m p rid ntok main = Inr (take n fs, m', p')"
    "manager_inv p' (drop n fs) m' R" "frame R p p'" "same_config p p'" "grown rid m (take n fs) m'"
    "\<forall>x. rc p' x = (if x \<in> set (take n fs) then 1 else rc p x)"
  by (rule base_allocate_new_blocks_inv[OF inv n[unfolded grow_need_def], of env])
     (auto simp: allocate_new_blocks_base[OF manager_ok_spec[OF inv]] grown_def that)

lemma grow_all:
  assumes "managers_inv p fs ms R"
    and "n = (\<Sum>m\<leftarrow>ms. grow_need m rid (ntok m))" and "n \<le> length fs"
  shows "\<exists>new ms' p'. over_managers (grow_step env rid ntok main) i ms p = Inr (new, ms', p')
    \<and> managers_inv p' (drop n fs) ms' R \<and> frame R p p' \<and> same_config p p' \<and> concat new = take n fs
    \<and> map length new = map (\<lambda>m. grow_need m rid (ntok m)) ms
    \<and> length ms' = length ms \<and> (\<forall>k<length ms. grown rid (ms ! k) (new ! k) (ms' ! k))
    \<and> (\<forall>x. rc p' x = (if x \<in> set (take n fs) then 1 else rc p x))"
  using assms
proof (induction ms arbitrary: i p fs R n)
  case Nil
  then show ?case by auto
next
  case (Cons m ms)
  define a where "a = grow_need m rid (ntok m)"
  define b where "b = (\<Sum>m\<leftarrow>ms. grow_need m rid (ntok m))"
  have n: "n = a + b" "a \<le> length fs" "b \<le> length (drop a fs)"
    using Cons.prems(2,3) by (auto simp: a_def b_def)
  obtain m1 p1 where one: "allocate_new_blocks env m p rid (ntok m) main = Inr (take a fs, m1, p1)"
    "manager_inv p1 (drop a fs) m1 (all_refs ms + R)" "frame (all_refs ms + R) p p1" "same_config p p1"
    "grown rid m (take a fs) m1" "\<forall>x. rc p1 x = (if x \<in> set (take a fs) then 1 else rc p x)"
    using grow_one[OF managers_inv_head[OF Cons.prems(1)] a_def n(2), of env main] by blast
  from Cons.IH[OF managers_inv_tail[OF Cons.prems(1) one(2,3,4)] b_def n(3), of "Suc i"]
  obtain new ms1 p2 where rest: "over_managers (grow_step env rid ntok main) (Suc i) ms p1 = Inr (new, ms1, p2)"
    "managers_inv p2 (drop b (drop a fs)) ms1 (refs m1 + R)" "frame (refs m1 + R) p1 p2" "same_config p1 p2"
    "concat new = take b (drop a fs)" "map length new = map (\<lambda>m. grow_need m rid (ntok m)) ms"
    "length ms1 = length ms" "\<forall>k<length ms. grown rid (ms ! k) (new ! k) (ms1 ! k)"
    "\<forall>x. rc p2 x = (if x \<in> set (take b (drop a fs)) then 1 else rc p1 x)"
    by blast
  have "over_managers (grow_step env rid ntok main) i (m # ms) p = Inr (take a fs # new, m1 # ms1, p2)"
    using one(1) rest(1) by simp
  moreover have "managers_inv p2 (drop n fs) (m1 # ms1) R"
    using managers_inv_Cons[OF manager_inv_change[OF one(2) rest(2,3,4)] rest(2)] by (simp add: n(1) add.commute)
  moreover have "frame R p p2" using one(3) rest(3) by (auto simp: frame_def)
  moreover have "concat (take a fs # new) = take n fs" by (simp add: rest(5) n(1) take_add)
  moreover have "map length (take a fs # new) = map (\<lambda>m. grow_need m rid (ntok m)) (m # ms)"
    using rest(6) n(2) by (simp add: a_def[symmetric])
  moreover have "grown rid ((m # ms) ! k) ((take a fs # new) ! k) ((m1 # ms1) ! k)" if "k < length (m # ms)" for k
    using that one(5) rest(8) by (cases k) auto
  moreover have "length (m1 # ms1) = length (m # ms)" using rest(7) by simp
  moreover have "\<forall>x. rc p2 x = (if x \<in> set (take n fs) then 1 else rc p x)"
    using one(6) rest(9) by (auto simp: n(1) take_add)
  ultimately show ?case using same_config_trans[OF one(4) rest(4)] by blast
qed

section \<open>The prediction\<close>

lemma base_demand_running:
  "dget (num_cached_block m) rid \<noteq> None \<Longrightarrow>
   base_num_blocks_to_allocate m p rid n [] tot False = Inr (int (nat (cdiv n (m_block_size m) - int (length (req_table m rid)))))"
  by (simp add: base_num_blocks_to_allocate_def Let_def split: option.splits)

lemma nat_max_0 [simp]: "nat (max 0 (x::int)) = nat x" "nat (max x 0) = nat x"
  by (auto simp: max_def)

lemma base_demand_waiting:
  assumes "dget (num_cached_block m) rid = None"
  shows "base_num_blocks_to_allocate m p rid n computed tot False =
    Inr (max (cdiv n (m_block_size m)
              - max (skipped_blocks m tot) (int (length computed) + int (length (req_table m rid)))) 0
         + get_num_evictable_blocks p
             (drop (nat (skipped_blocks m tot - int (length (req_table m rid)))) computed))"
  using assms
  by (simp add: base_num_blocks_to_allocate_def Let_def skipped_blocks_def split: option.splits)

text \<open>The prediction of any class is that of the base class, unless Mamba must wait for the next step.\<close>

lemma demand_base:
  assumes ok: "spec_ok m" and rep: "pool_rep p fs"
    and base: "base_num_blocks_to_allocate m p rid (slot_tokens m ntok) computed tot False = Inr k" "0 \<le> k"
  shows "\<exists>k'. num_blocks_to_allocate m p rid ntok computed tot main False = Inr (k', m) \<and> 0 \<le> k'
    \<and> (k' \<le> num_gpu_blocks p \<longrightarrow> k' = k)"
proof (cases "m_class m = MambaManager")
  case True
  obtain s where s: "m_spec m = MambaSpec s" "m_block_size m = mb_block_size s"
    using mamba_spec_of[OF ok True] by blast
  have n: "(if num_speculative_blocks m > 0 then ntok + spec_block_size (m_spec m) * num_speculative_blocks m else ntok)
      = slot_tokens m ntok"
    using True s by (simp add: slot_tokens_def)
  have "0 \<le> num_gpu_blocks p" using rep by (simp add: pool_rep_def pool_blocks_def)
  then show ?thesis
    using True base mamba_not_align[OF ok True]
    unfolding num_blocks_to_allocate_def mamba_num_blocks_to_allocate_def n Let_def by auto
next
  case False
  with base show ?thesis by (simp add: num_blocks_to_allocate_def slot_tokens_def)
qed

lemma skipped_blocks_le:
  assumes ok: "spec_ok m" and "0 \<le> tot" and "tot \<le> n * m_block_size m"
  shows "skipped_blocks m tot \<le> n"
proof -
  have bs: "0 < m_block_size m" using ok by (simp add: spec_ok_def)
  have "skipped_blocks m tot \<le> tot div m_block_size m"
    unfolding skipped_blocks_def using skipped_tokens_le[OF ok assms(2)] bs by (simp add: zdiv_mono1)
  also have "\<dots> \<le> n * m_block_size m div m_block_size m" using assms(3) bs by (intro zdiv_mono1)
  finally show ?thesis using bs by simp
qed

text \<open>No computed blocks are taken over: the request has slots for everything computed.\<close>

lemma demand_not_called:
  assumes ok: "spec_ok m" and rep: "pool_rep p fs" and tot: "0 \<le> tot"
    and len: "dget (num_cached_block m) rid \<noteq> None \<or> m_class m = CrossAttentionManager \<or> tot \<le> int (length (req_table m rid)) * m_block_size m"
  shows "\<exists>k. num_blocks_to_allocate m p rid ntok [] tot main False = Inr (k, m) \<and> 0 \<le> k
    \<and> (k \<le> num_gpu_blocks p \<longrightarrow> k = int (grow_need m rid ntok))"
proof -
  have "base_num_blocks_to_allocate m p rid (slot_tokens m ntok) [] tot False = Inr (int (grow_need m rid ntok))"
  proof (cases "dget (num_cached_block m) rid = None")
    case True
    have "skipped_blocks m tot \<le> int (length (req_table m rid))"
    proof (cases "m_class m = CrossAttentionManager")
      case True
      then show ?thesis by (simp add: skipped_blocks_def get_num_skipped_tokens_def)
    qed (use True len skipped_blocks_le[OF ok tot] in auto)
    then show ?thesis
      using base_demand_waiting[OF True, of p "slot_tokens m ntok" "[]" tot]
      by (simp add: grow_need_def get_num_evictable_blocks_def)
  qed (use base_demand_running[of m rid p] in \<open>simp add: grow_need_def\<close>)
  from demand_base[OF ok rep this] show ?thesis by simp
qed

text \<open>Computed blocks are taken over first.\<close>

lemma demand_called:
  assumes ok: "spec_ok m" and rep: "pool_rep p fs" and share: "share_ok p m rid computed loc"
    and tot: "tot = loc + ext" "0 \<le> tot" "tot \<le> slot_tokens m ntok" and cross: "m_class m \<noteq> CrossAttentionManager"
  shows "\<exists>k. num_blocks_to_allocate m p rid ntok computed tot main False = Inr (k, m) \<and> 0 \<le> k
    \<and> (k \<le> num_gpu_blocks p \<longrightarrow> k = share_cost p m rid computed tot ext
         + int (nat (cdiv (slot_tokens m ntok) (m_block_size m) - int (shared_len m rid computed tot ext))))"
proof (cases "passes m rid")
  case True
  then have "dget (num_cached_block m) rid \<noteq> None" "computed = []" using share cross by (auto simp: passes_def share_ok_def)
  then have base: "base_num_blocks_to_allocate m p rid (slot_tokens m ntok) computed tot False = Inr (int (grow_need m rid ntok))"
    using base_demand_running[of m rid p] by (simp add: grow_need_def)
  have eq: "share_cost p m rid computed tot ext
      + int (nat (cdiv (slot_tokens m ntok) (m_block_size m) - int (shared_len m rid computed tot ext))) = int (grow_need m rid ntok)"
    using True by (simp add: share_cost_def shared_len_def grow_need_def)
  show ?thesis unfolding eq by (rule demand_base[OF ok rep base]) simp
next
  case False
  then have new: "dget (num_cached_block m) rid = None" "req_table m rid = []" and len: "int (length computed) * m_block_size m \<le> loc"
    using share by (auto simp: passes_def share_ok_def)
  let ?L = "length (computed_table m computed tot)" and ?req = "cdiv (slot_tokens m ntok) (m_block_size m)"
  have bs: "0 < m_block_size m" using ok by (simp add: spec_ok_def)
  have L: "max (skipped_blocks m tot) (int (length computed)) = int ?L"
    by (simp add: length_computed_table)
  let ?k = "int (nat (?req - int ?L)) + get_num_evictable_blocks p (kept_blocks m computed tot)"
  have base: "base_num_blocks_to_allocate m p rid (slot_tokens m ntok) computed tot False = Inr ?k"
    using base_demand_waiting[OF new(1), of p "slot_tokens m ntok" computed tot] new(2) L
    by (simp add: kept_blocks_def max_def)
  have nonneg: "0 \<le> ?k" by (simp add: get_num_evictable_blocks_def)
  have "cdiv tot (m_block_size m) \<le> ?req" by (rule cdiv_mono[OF bs tot(3)])
  then have "int (external_blocks m computed tot ext)
      + int (nat (?req - int (?L + external_blocks m computed tot ext))) = int (nat (?req - int ?L))"
    unfolding external_blocks_def by auto
  then have eq: "share_cost p m rid computed tot ext + int (nat (?req - int (shared_len m rid computed tot ext))) = ?k"
    using False by (simp add: share_cost_def shared_len_def share_need_def)
  show ?thesis unfolding eq by (rule demand_base[OF ok rep base nonneg])
qed

section \<open>The coordinator\<close>

definition slots_for :: "int \<Rightarrow> int \<Rightarrow> kv_manager \<Rightarrow> int" where
  "slots_for ntok enc m = (if m_class m = CrossAttentionManager then enc else ntok)"

text \<open>What a manager takes in total, with or without computed blocks taken over first.\<close>

definition slot_need ::
  "bool \<Rightarrow> block_pool \<Rightarrow> string \<Rightarrow> int \<Rightarrow> int \<Rightarrow> int \<Rightarrow> int \<Rightarrow> kv_manager \<Rightarrow> addr list \<Rightarrow> int" where
  "slot_need called p rid tot ext ntok enc m computed =
     (if called
      then share_cost p m rid computed tot ext
           + int (nat (cdiv (slot_tokens m (slots_for ntok enc m)) (m_block_size m) - int (shared_len m rid computed tot ext)))
      else int (grow_need m rid (slots_for ntok enc m)))"

text \<open>
  A call of the allocation the scheduler makes: computed blocks are cached ones and are offered to a
  request without blocks; a running request has slots for all its computed tokens.
\<close>

definition call_ok :: "bool \<Rightarrow> block_pool \<Rightarrow> string \<Rightarrow> int \<Rightarrow> int \<Rightarrow> int \<Rightarrow> kv_manager \<Rightarrow> addr list \<Rightarrow> bool" where
  "call_ok called p rid loc ext ntok m computed \<longleftrightarrow>
     0 \<le> loc \<and> 0 \<le> ext \<and> loc + ext \<le> ntok \<and> (\<not> called \<longrightarrow> ext = 0)
     \<and> (if called then share_ok p m rid computed loc
        else computed = [] \<and> (passes m rid \<or> loc \<le> int (length (req_table m rid)) * m_block_size m))"

lemma slot_tokens_ge: "spec_ok m \<Longrightarrow> ntok \<le> slot_tokens m ntok"
  by (auto simp: slot_tokens_def spec_ok_def)

lemma demand_one:
  assumes inv: "manager_inv p fs m R" and call: "call_ok called p rid loc ext ntok m (ncb ! i)" and i: "i < length ncb"
  shows "\<exists>k. manager_demand rid ntok ncb enc (loc + ext) main False i m p = Inr (k, m, p) \<and> 0 \<le> k
    \<and> (k \<le> num_gpu_blocks p \<longrightarrow> k = slot_need called p rid (loc + ext) ext ntok enc m (ncb ! i))"
proof (cases "m_class m = CrossAttentionManager")
  case True
  then have "passes m rid" by (simp add: passes_def)
  then have need: "slot_need called p rid (loc + ext) ext ntok enc m (ncb ! i) = int (grow_need m rid enc)"
    using True by (simp add: slot_need_def share_cost_def shared_len_def grow_need_def slots_for_def)
  from demand_not_called[OF manager_ok_spec[OF inv] manager_inv_parts(1)[OF inv], of 0 rid enc enc] True
  show ?thesis unfolding need by (auto simp: manager_demand_def)
next
  case False
  note ok = manager_ok_spec[OF inv] and rep = manager_inv_parts(1)[OF inv]
  have "\<exists>k. num_blocks_to_allocate m p rid ntok (ncb ! i) (loc + ext) main False = Inr (k, m) \<and> 0 \<le> k
    \<and> (k \<le> num_gpu_blocks p \<longrightarrow> k = slot_need called p rid (loc + ext) ext ntok enc m (ncb ! i))"
  proof (cases called)
    case True
    then show ?thesis
      using demand_called[OF ok rep _ refl _ _ False, of rid "ncb ! i" loc ext ntok main] call slot_tokens_ge[OF ok, of ntok] False
      by (simp add: call_ok_def slot_need_def slots_for_def)
  next
    case nc: False
    then show ?thesis
      using demand_not_called[OF ok rep, of loc rid ntok main] call False
      by (auto simp: call_ok_def slot_need_def slots_for_def passes_def)
  qed
  with False py_nth_nat[OF i] show ?thesis by (auto simp: manager_demand_def)
qed

lemma demand_all:
  assumes "managers_inv p fs ms R"
    and "\<And>k. k < length ms \<Longrightarrow> i + k < length ncb \<and> call_ok called p rid loc ext ntok (ms ! k) (ncb ! (i + k))"
  shows "\<exists>ks. over_managers (manager_demand rid ntok ncb enc (loc + ext) main False) i ms p = Inr (ks, ms, p)
    \<and> (\<forall>k \<in> set ks. 0 \<le> k) \<and> ((\<forall>k \<in> set ks. k \<le> num_gpu_blocks p) \<longrightarrow>
         sum_list ks = (\<Sum>k<length ms. slot_need called p rid (loc + ext) ext ntok enc (ms ! k) (ncb ! (i + k))))"
  using assms
proof (induction ms arbitrary: i R)
  case Nil
  then show ?case by auto
next
  case (Cons m ms)
  have "managers_inv p fs ms (refs m + R)"
    using Cons.prems(1) by (simp add: managers_inv_def ac_simps)
  moreover have "Suc i + k < length ncb \<and> call_ok called p rid loc ext ntok (ms ! k) (ncb ! (Suc i + k))" if "k < length ms" for k
    using Cons.prems(2)[of "Suc k"] that by simp
  ultimately obtain ks where ks: "over_managers (manager_demand rid ntok ncb enc (loc + ext) main False) (Suc i) ms p = Inr (ks, ms, p)"
    "\<forall>k \<in> set ks. 0 \<le> k" "(\<forall>k \<in> set ks. k \<le> num_gpu_blocks p) \<longrightarrow>
         sum_list ks = (\<Sum>k<length ms. slot_need called p rid (loc + ext) ext ntok enc (ms ! k) (ncb ! (Suc i + k)))"
    using Cons.IH by blast
  have "i < length ncb" "call_ok called p rid loc ext ntok m (ncb ! i)" using Cons.prems(2)[of 0] by auto
  from demand_one[OF managers_inv_head[OF Cons.prems(1)] this(2,1), of enc main] obtain k where
    k: "manager_demand rid ntok ncb enc (loc + ext) main False i m p = Inr (k, m, p)" "0 \<le> k"
      "k \<le> num_gpu_blocks p \<longrightarrow> k = slot_need called p rid (loc + ext) ext ntok enc m (ncb ! i)"
    by blast
  from ks k show ?case
    by (intro exI[of _ "k # ks"]) (simp add: sum.lessThan_Suc_shift del: sum.lessThan_Suc)
qed

text \<open>The free blocks never outnumber the blocks, so a prediction that fits is the exact sum.\<close>

lemma free_le_blocks:
  assumes "pool_rep p fs"
  shows "int (length fs) \<le> num_gpu_blocks p"
proof -
  have "set fs \<subseteq> {0..<length (blocks p)}"
    using pool_rep_facts(8)[OF assms] pool_rep_facts(1)[OF assms] by auto
  then have "card (set fs) \<le> length (blocks p)"
    using card_mono[of "{0..<length (blocks p)}" "set fs"] by simp
  then show ?thesis
    using distinct_card[OF pool_rep_facts(7)[OF assms]] assms by (simp add: pool_rep_def pool_blocks_def)
qed

lemma sum_list_member_le: "\<forall>k \<in> set ks. 0 \<le> (k::int) \<Longrightarrow> x \<in> set ks \<Longrightarrow> x \<le> sum_list ks"
proof (induction ks)
  case (Cons k ks)
  then have "0 \<le> sum_list ks" by (simp add: sum_list_nonneg)
  with Cons show ?case by auto
qed simp

definition take_over ::
  "bool \<Rightarrow> hash_env \<Rightarrow> kv_coordinator \<Rightarrow> string \<Rightarrow> addr list list \<Rightarrow> int \<Rightarrow> int \<Rightarrow> kv_coordinator res" where
  "take_over called env c rid ncb loc ext =
     (if called then coord_allocate_new_computed_blocks env c rid ncb loc ext else Inr c)"

definition coord_call_ok :: "bool \<Rightarrow> kv_coordinator \<Rightarrow> string \<Rightarrow> addr list list \<Rightarrow> int \<Rightarrow> int \<Rightarrow> int \<Rightarrow> bool" where
  "coord_call_ok called c rid ncb loc ext ntok \<longleftrightarrow>
     length (single_type_managers c) \<le> length ncb \<and> (ext = 0 \<or> length (single_type_managers c) \<le> 1)
     \<and> (\<forall>k<length (single_type_managers c).
          call_ok called (c_pool c) rid loc ext ntok (single_type_managers c ! k) (ncb ! k))"

lemma coord_demand:
  assumes ok: "coord_ok c" and call: "coord_call_ok called c rid ncb loc ext ntok"
  obtains n where "coord_num_blocks_to_allocate c rid ntok ncb enc (loc + ext) main False = Inr (n, c)"
    "n \<le> get_num_free_blocks (c_pool c) \<Longrightarrow>
     (\<Sum>k<length (single_type_managers c).
        slot_need called (c_pool c) rid (loc + ext) ext ntok enc (single_type_managers c ! k) (ncb ! k)) = n"
proof -
  obtain fs where inv: "managers_inv (c_pool c) fs (single_type_managers c) {#}" using ok by (auto simp: coord_ok_def)
  have rep: "pool_rep (c_pool c) fs" using inv by (simp add: managers_inv_def)
  have pre: "0 + k < length ncb \<and> call_ok called (c_pool c) rid loc ext ntok (single_type_managers c ! k) (ncb ! (0 + k))"
    if "k < length (single_type_managers c)" for k
    using call that by (simp add: coord_call_ok_def)
  obtain ks where ks: "over_managers (manager_demand rid ntok ncb enc (loc + ext) main False) 0 (single_type_managers c) (c_pool c)
       = Inr (ks, single_type_managers c, c_pool c)"
    "\<forall>k \<in> set ks. 0 \<le> k" "(\<forall>k \<in> set ks. k \<le> num_gpu_blocks (c_pool c)) \<longrightarrow>
       sum_list ks = (\<Sum>k<length (single_type_managers c).
         slot_need called (c_pool c) rid (loc + ext) ext ntok enc (single_type_managers c ! k) (ncb ! (0 + k)))"
    using demand_all[OF inv pre, of enc main] by blast
  show thesis
  proof (rule that)
    show "coord_num_blocks_to_allocate c rid ntok ncb enc (loc + ext) main False = Inr (sum_list ks, c)"
      using ks(1) by (simp add: coord_num_blocks_to_allocate_def)
    assume "sum_list ks \<le> get_num_free_blocks (c_pool c)"
    then have "\<forall>k \<in> set ks. k \<le> num_gpu_blocks (c_pool c)"
      using sum_list_member_le[OF ks(2)] free_le_blocks[OF rep] pool_rep_facts(6)[OF rep] by fastforce
    with ks(3) show "(\<Sum>k<length (single_type_managers c).
        slot_need called (c_pool c) rid (loc + ext) ext ntok enc (single_type_managers c ! k) (ncb ! k)) = sum_list ks" by simp
  qed
qed

text \<open>Taking over the computed blocks leaves enough free blocks to grow all tables.\<close>

lemma take_over_ok:
  assumes inv: "managers_inv (c_pool c) fs (single_type_managers c) {#}"
    and call: "coord_call_ok called c rid ncb loc ext ntok"
    and fits: "(\<Sum>k<length (single_type_managers c).
      slot_need called (c_pool c) rid (loc + ext) ext ntok enc (single_type_managers c ! k) (ncb ! k)) \<le> int (length fs)"
  obtains c1 fs1 where "take_over called env c rid ncb loc ext = Inr c1"
    "managers_inv (c_pool c1) fs1 (single_type_managers c1) {#}" "same_managers c c1"
    "(\<Sum>m\<leftarrow>single_type_managers c1. grow_need m rid (slots_for ntok enc m)) \<le> length fs1"
    "c1 = with_managers c (single_type_managers c1) (c_pool c1)"
proof (cases called)
  case False
  let ?ms = "single_type_managers c"
  have "(\<Sum>k<length ?ms. int (grow_need (?ms ! k) rid (slots_for ntok enc (?ms ! k)))) \<le> int (length fs)"
    using fits False by (simp add: slot_need_def)
  then have "(\<Sum>m\<leftarrow>?ms. grow_need m rid (slots_for ntok enc m)) \<le> length fs"
    by (simp add: sum_list_sum_nth atLeast0LessThan flip: of_nat_sum)
  moreover have "same_managers c c" by (simp add: same_managers_def list_all2_refl)
  ultimately show thesis
    using False inv by (intro that[of c fs]) (simp_all add: take_over_def)
next
  case True
  let ?ms = "single_type_managers c" and ?p = "c_pool c"
  let ?cost = "\<lambda>k. share_cost ?p (?ms ! k) rid (ncb ! k) (loc + ext) ext"
  let ?grow = "\<lambda>k. nat (cdiv (slot_tokens (?ms ! k) (slots_for ntok enc (?ms ! k))) (m_block_size (?ms ! k))
                     - int (shared_len (?ms ! k) rid (ncb ! k) (loc + ext) ext))"
  have sum: "(\<Sum>k<length ?ms. ?cost k) + int (\<Sum>k<length ?ms. ?grow k) \<le> int (length fs)"
    using fits True by (simp add: slot_need_def sum.distrib)
  show thesis
  proof (cases "?ms = []")
    case True
    with \<open>called\<close> inv show thesis
      by (intro that[of c fs])
         (simp_all add: take_over_def coord_allocate_new_computed_blocks_alt same_managers_def)
  next
    case False
    have "0 \<le> ext" using call False by (auto simp: coord_call_ok_def call_ok_def)
    moreover have "ext = 0 \<or> length ?ms \<le> 1" using call by (simp add: coord_call_ok_def)
    moreover have "0 + k < length ncb \<and> share_ok ?p (?ms ! k) rid (ncb ! (0 + k)) loc" if "k < length ?ms" for k
      using call that \<open>called\<close> by (auto simp: coord_call_ok_def call_ok_def)
    moreover have "(\<Sum>k<length ?ms. share_cost ?p (?ms ! k) rid (ncb ! (0 + k)) (loc + ext) ext) \<le> int (length fs)"
    proof -
      have "0 \<le> int (\<Sum>k<length ?ms. ?grow k)" by (rule of_nat_0_le_iff)
      with sum show ?thesis unfolding add_0 by linarith
    qed
    ultimately obtain rs ms p fs1 where res:
      "over_managers (share_step env rid ncb loc ext) 0 ?ms ?p = Inr (rs, ms, p)"
      "managers_inv p fs1 ms {#}" "same_config ?p p" "list_all2 same_manager ?ms ms"
      "int (length fs) - (\<Sum>k<length ?ms. ?cost k) \<le> int (length fs1)"
      "\<forall>k<length ?ms. length (req_table (ms ! k) rid) = shared_len (?ms ! k) rid (ncb ! k) (loc + ext) ext"
      using share_all[OF inv, of 0 ncb rid loc ext env] by auto
    have "grow_need (ms ! k) rid (slots_for ntok enc (ms ! k)) = ?grow k" if "k < length ?ms" for k
    proof -
      have "same_manager (?ms ! k) (ms ! k)" using res(4) that by (simp add: list_all2_conv_all_nth)
      then show ?thesis
        using res(6) that
        by (simp add: grow_need_def slots_for_def slot_tokens_def num_speculative_blocks_def same_manager_def)
    qed
    then have "(\<Sum>m\<leftarrow>ms. grow_need m rid (slots_for ntok enc m)) = (\<Sum>k<length ?ms. ?grow k)"
      using list_all2_lengthD[OF res(4)] by (simp add: sum_list_sum_nth atLeast0LessThan)
    then have "(\<Sum>m\<leftarrow>ms. grow_need m rid (slots_for ntok enc m)) \<le> length fs1"
      using sum res(5) by linarith
    with \<open>called\<close> res show thesis
      by (intro that[of "with_managers c ms p" fs1])
         (simp_all add: take_over_def coord_allocate_new_computed_blocks_alt same_managers_def)
  qed
qed

end
