(* ===== verification/KV_Machine.thy ===== *)
theory KV_Machine
  imports KV_Cache_Manager Allocation
begin

text \<open>
  The KV cache manager as a whole. Its invariant is the one of the coordinator, and with prefix
  caching a configuration in which every group can be hashed. A call of \<^verbatim>\<open>allocate_slots\<close> that the
  scheduler may make never raises: it either reports that the blocks do not suffice, or every table
  covers the requested slots. The state machine collects all methods; its reachable states satisfy
  the invariant.
\<close>

section \<open>The invariant\<close>

definition caching_ok :: "kv_cache_manager \<Rightarrow> bool" where
  "caching_ok k \<longleftrightarrow>
     (k_enable_caching k \<longrightarrow>
        enable_caching (k_pool k) \<and> 0 < hash_block_size (k_pool k)
        \<and> (\<forall>m \<in> set (single_type_managers (coordinator k)).
             m_class m \<noteq> CrossAttentionManager \<and> m_enable_caching m \<and> group_ok (kv_cache_group_id m)
             \<and> m_block_size m mod hash_block_size (k_pool k) = 0))"

text \<open>What the search for a cache hit relies on: the coordinator describes its managers.\<close>

definition group_describes :: "kv_manager list \<Rightarrow> int \<Rightarrow> attention_group \<Rightarrow> bool" where
  "group_describes ms lcm_bs g \<longleftrightarrow>
     ag_ids g \<noteq> [] \<and> spec_block_size (ag_spec g) dvd lcm_bs
     \<and> (\<forall>i \<in> set (ag_ids g). 0 \<le> i \<and> nat i < length ms \<and> m_spec (ms ! nat i) = ag_spec g \<and> m_class (ms ! nat i) = ag_class g
          \<and> kv_cache_group_id (ms ! nat i) = i \<and> m_block_size (ms ! nat i) = spec_block_size (ag_spec g))"

definition kind_ok :: "kv_coordinator \<Rightarrow> bool" where
  "kind_ok c \<longleftrightarrow>
     (case c_kind c of
        KVCacheCoordinatorNoPrefixCache \<Rightarrow> True
      | UnitaryKVCacheCoordinator u \<Rightarrow>
          (\<exists>m. single_type_managers c = [m] \<and> m_spec m = u_spec u \<and> m_block_size m = u_block_size u
             \<and> kv_cache_group_id m = 0
             \<and> m_block_size m = spec_block_size (m_spec m) * (u_dcp_world_size u * u_pcp_world_size u)
             \<and> 1 \<le> u_dcp_world_size u \<and> 1 \<le> u_pcp_world_size u \<and> hash_block_size (c_pool c) = u_block_size u)
      | HybridKVCacheCoordinator h \<Rightarrow>
          h_hash_block_size h = hash_block_size (c_pool c)
          \<and> length (kv_cache_groups (c_config c)) = length (single_type_managers c)
          \<and> (\<forall>g \<in> set (attention_groups h). group_describes (single_type_managers c) (lcm_block_size h) g))"

definition kv_ok :: "kv_cache_manager \<Rightarrow> bool" where
  "kv_ok k \<longleftrightarrow> coord_ok (coordinator k) \<and> caching_ok k \<and> (k_log_stats k \<longrightarrow> k_prefix_cache_stats k \<noteq> None)
     \<and> kind_ok (coordinator k) \<and> num_kv_cache_groups k = length (single_type_managers (coordinator k))"

lemma group_describes_cong:
  "list_all2 same_manager ms ms' \<Longrightarrow> group_describes ms n g \<Longrightarrow> group_describes ms' n g"
  by (auto simp: group_describes_def list_all2_conv_all_nth same_manager_def)

lemma kind_ok_cong:
  assumes "kind_ok c" and "same_managers c c'"
  shows "kind_ok c'"
proof (cases "c_kind c")
  case KVCacheCoordinatorNoPrefixCache
  with assms show ?thesis by (simp add: kind_ok_def same_managers_def)
next
  case (UnitaryKVCacheCoordinator u)
  with assms show ?thesis
    by (auto simp: kind_ok_def same_managers_def same_config_def list_all2_Cons1 same_manager_def)
next
  case (HybridKVCacheCoordinator h)
  have "length (single_type_managers c') = length (single_type_managers c)"
    using assms(2) by (auto simp: same_managers_def dest: list_all2_lengthD)
  with HybridKVCacheCoordinator assms group_describes_cong show ?thesis
    by (auto simp: kind_ok_def same_managers_def same_config_def)
qed

lemma caching_ok_cong:
  assumes "caching_ok k" and "same_managers (coordinator k) c"
  shows "caching_ok (k\<lparr>coordinator := c\<rparr>)"
proof -
  have "\<exists>m \<in> set (single_type_managers (coordinator k)). same_manager m m'" if "m' \<in> set (single_type_managers c)" for m'
    using assms(2) that unfolding same_managers_def list_all2_conv_all_nth by (metis in_set_conv_nth)
  with assms show ?thesis
    unfolding caching_ok_def same_managers_def same_config_def same_manager_def by fastforce
qed

lemma kv_okI: "kv_ok k \<Longrightarrow> coord_ok c \<Longrightarrow> same_managers (coordinator k) c \<Longrightarrow> kv_ok (k\<lparr>coordinator := c\<rparr>)"
  using caching_ok_cong[of k c] kind_ok_cong[of "coordinator k" c]
  by (auto simp: kv_ok_def same_managers_def dest: list_all2_lengthD)

lemma same_managers_trans: "same_managers c c' \<Longrightarrow> same_managers c' c'' \<Longrightarrow> same_managers c c''"
  unfolding same_managers_def
  using same_config_trans list_all2_trans[of same_manager same_manager same_manager] same_manager_trans by metis

section \<open>Hashes for all full blocks\<close>

text \<open>Scaling the hashes to a larger block size keeps one hash per full block.\<close>

lemma hashes_at_block_size_length:
  assumes "0 < hbs" and "0 < bsz" and "bsz mod hbs = 0"
  obtains l where "hashes_at_block_size hs hbs bsz = Inr l" "int (length (hashes_list l)) = int (length hs) div (bsz div hbs)"
proof (cases "bsz = hbs")
  case True
  with assms show thesis
    by (intro that[of "PlainHashes hs"]) (simp_all add: hashes_at_block_size_def hashes_list_def hashes_from_def)
next
  case False
  let ?s = "\<lparr>bhl_hashes = hs, scale_factor = bsz div hbs\<rparr>"
  have "0 \<le> bhl_len ?s"
    using assms by (simp add: bhl_len_def pos_imp_zdiv_nonneg_iff zdiv_int div_int_pos_iff)
  then show thesis
    using assms False
    by (intro that[of "ScaledHashes ?s"])
       (simp_all add: hashes_at_block_size_def make_block_hash_list_def hashes_list_def hashes_from_def bhl_from_def bhl_len_def)
qed

lemma full_blocks_hashed:
  assumes "0 < hbs" and "0 < bsz" and dvd: "bsz mod hbs = 0" and "ntok \<le> tot" and "tot div hbs \<le> int (length hs)"
  obtains l where "hashes_at_block_size hs hbs bsz = Inr l" "ntok div bsz \<le> int (length (hashes_list l))"
proof -
  obtain l where l: "hashes_at_block_size hs hbs bsz = Inr l" "int (length (hashes_list l)) = int (length hs) div (bsz div hbs)"
    using hashes_at_block_size_length[OF assms(1,2) dvd] by blast
  have eq: "bsz = hbs * (bsz div hbs)" and pos: "0 < bsz div hbs"
    using dvd assms(1,2) by (auto simp: pos_imp_zdiv_pos_iff dvd_imp_le zdvd_imp_le mod_eq_0_iff_dvd)
  have "ntok div bsz \<le> tot div bsz" using assms(2,4) by (simp add: zdiv_mono1)
  also have "\<dots> = tot div hbs div (bsz div hbs)"
    by (subst eq) (simp add: zdiv_zmult2_eq[OF less_imp_le[OF pos]])
  also have "\<dots> \<le> int (length hs) div (bsz div hbs)" using assms(5) pos by (simp add: zdiv_mono1)
  finally show thesis using l that by simp
qed

section \<open>Allocating slots\<close>

lemma call_ok_shape:
  assumes "call_ok called p rid loc ext ntok m computed" and "same_shape m m'" and "same_config p p'" and "\<And>a. bh p' a = bh p a"
  shows "call_ok called p' rid loc ext ntok m' computed"
proof -
  have "passes m' rid = passes m rid" "length (req_table m' rid) = length (req_table m rid)"
    using assms(2) by (simp_all add: passes_def same_shape_def same_manager_def)
  moreover from this have "req_table m' rid = [] \<longleftrightarrow> req_table m rid = []" by (metis length_0_conv)
  moreover have "m_block_size m' = m_block_size m" "m_enable_caching m' = m_enable_caching m"
    using assms(2) by (simp_all add: same_shape_def same_manager_def)
  ultimately show ?thesis
    using assms(1,4) by (cases called) (auto simp: call_ok_def share_ok_def table_ok_cong[OF assms(3)] split: if_splits)
qed

lemma coord_call_ok_shape:
  assumes "coord_call_ok called c rid ncb loc ext ntok" and "list_all2 same_shape (single_type_managers c) (single_type_managers c')"
    and "same_config (c_pool c) (c_pool c')" and "\<And>a. bh (c_pool c') a = bh (c_pool c) a"
  shows "coord_call_ok called c' rid ncb loc ext ntok"
  using assms(1,2) call_ok_shape[OF _ _ assms(3,4)] unfolding coord_call_ok_def list_all2_conv_all_nth by auto

definition slots_called :: "alloc_blocks \<Rightarrow> int \<Rightarrow> bool" where
  "slots_called b ext = (case b of EmptyKVCacheBlocks _ \<Rightarrow> ext > 0 | KVCacheBlocks _ \<Rightarrow> True)"

lemma take_over_case:
  "(case (b, ext > 0) of (EmptyKVCacheBlocks _, False) \<Rightarrow> Inr c
    | _ \<Rightarrow> coord_allocate_new_computed_blocks env c rid (alloc_groups b) loc ext)
   = take_over (slots_called b ext) env c rid (alloc_groups b) loc ext"
  by (cases b) (simp_all add: take_over_def slots_called_def)

text \<open>Every manager has a block for every requested slot.\<close>

definition covered :: "kv_coordinator \<Rightarrow> string \<Rightarrow> int \<Rightarrow> int \<Rightarrow> bool" where
  "covered c rid ntok enc \<longleftrightarrow>
     (\<forall>m \<in> set (single_type_managers c).
        cdiv (slot_tokens m (slots_for ntok enc m)) (m_block_size m) \<le> int (length (req_table m rid)))"

lemma grow_coordinator:
  assumes inv: "managers_inv (c_pool c) fs (single_type_managers c) {#}"
    and n: "n = (\<Sum>m\<leftarrow>single_type_managers c. grow_need m rid (slots_for ntok enc m))" "n \<le> length fs"
  obtains new c' where "coord_allocate_new_blocks env c rid ntok main enc = Inr (new, c')"
    "managers_inv (c_pool c') (drop n fs) (single_type_managers c') {#}" "same_managers c c'" "covered c' rid ntok enc"
    "concat new = take n fs" "c' = with_managers c (single_type_managers c') (c_pool c')"
    "\<forall>x. rc (c_pool c') x = (if x \<in> set (take n fs) then 1 else rc (c_pool c) x)"
proof -
  let ?ms = "single_type_managers c"
  obtain new ms p where res: "over_managers (grow_step env rid (slots_for ntok enc) main) 0 ?ms (c_pool c) = Inr (new, ms, p)"
    "managers_inv p (drop n fs) ms {#}" "same_config (c_pool c) p" "concat new = take n fs"
    "map length new = map (\<lambda>m. grow_need m rid (slots_for ntok enc m)) ?ms" "length ms = length ?ms"
    "\<forall>k<length ?ms. grown rid (?ms ! k) (new ! k) (ms ! k)"
    "\<forall>x. rc p x = (if x \<in> set (take n fs) then 1 else rc (c_pool c) x)"
    using grow_all[OF inv n, of env main 0] by blast
  have same: "same_manager (?ms ! k) (ms ! k)" if "k < length ?ms" for k
    using res(7) that by (simp add: grown_def)
  have "covered (with_managers c ms p) rid ntok enc"
    unfolding covered_def
  proof
    fix m' assume "m' \<in> set (single_type_managers (with_managers c ms p))"
    then obtain k where k: "k < length ?ms" "m' = ms ! k" using res(6) by (auto simp: in_set_conv_nth)
    have "length (new ! k) = grow_need (?ms ! k) rid (slots_for ntok enc (?ms ! k))"
    proof -
      have "length new = length ?ms" using arg_cong[OF res(5), of length] by simp
      then show ?thesis using arg_cong[OF res(5), of "\<lambda>xs. xs ! k"] k(1) by simp
    qed
    moreover have "req_table m' rid = req_table (?ms ! k) rid @ new ! k"
      using res(7) k by (simp add: grown_def)
    moreover have "slot_tokens m' (slots_for ntok enc m') = slot_tokens (?ms ! k) (slots_for ntok enc (?ms ! k))"
      "m_block_size m' = m_block_size (?ms ! k)"
      using same[OF k(1)] k(2) by (simp_all add: slot_tokens_def slots_for_def num_speculative_blocks_def same_manager_def)
    ultimately show "cdiv (slot_tokens m' (slots_for ntok enc m')) (m_block_size m') \<le> int (length (req_table m' rid))"
      by (simp add: grow_need_def)
  qed
  with res same show thesis
    by (intro that[of new "with_managers c ms p"])
       (simp_all add: coord_allocate_new_blocks_def slots_for_def[abs_def] same_managers_def list_all2_conv_all_nth)
qed

lemma covered_caches:
  assumes ok: "kv_ok k" "k_enable_caching k" and cov: "covered (coordinator k) (request_id r) ntok enc"
    and m: "m \<in> set (single_type_managers (coordinator k))" and le: "to_cache \<le> ntok" "to_cache \<le> num_tokens r"
    and hash: "num_tokens r div hash_block_size (k_pool k) \<le> int (length (block_hashes r))"
  shows "m_class m \<noteq> CrossAttentionManager \<and> (\<exists>l. can_cache (k_pool k) m r to_cache l)"
proof -
  have sp: "spec_ok m" and c: "m_class m \<noteq> CrossAttentionManager" "group_ok (kv_cache_group_id m)"
      "m_block_size m mod hash_block_size (k_pool k) = 0" "enable_caching (k_pool k)" "0 < hash_block_size (k_pool k)"
    using ok m by (auto simp: kv_ok_def coord_ok_def managers_inv_def manager_ok_def caching_ok_def)
  have bs: "0 < m_block_size m" using sp by (simp add: spec_ok_def)
  obtain l where l: "hashes_at_block_size (block_hashes r) (hash_block_size (k_pool k)) (m_block_size m) = Inr l"
    "to_cache div m_block_size m \<le> int (length (hashes_list l))"
    using full_blocks_hashed[OF c(5) bs c(3) le(2) hash] by blast
  have "to_cache div m_block_size m \<le> cdiv to_cache (m_block_size m)" by (rule div_le_cdiv[OF bs])
  also have "\<dots> \<le> cdiv (slot_tokens m ntok) (m_block_size m)"
    using le(1) slot_tokens_ge[OF sp, of ntok] by (intro cdiv_mono[OF bs]) simp
  also have "\<dots> \<le> int (length (req_table m (request_id r)))"
    using cov m c(1) by (auto simp: covered_def slots_for_def)
  finally show ?thesis using l c by (auto simp: can_cache_def)
qed

text \<open>The blocks an allocation reports are new: the request holds the only reference.\<close>

definition sole :: "block_pool \<Rightarrow> addr list list \<Rightarrow> bool" where
  "sole p gs \<longleftrightarrow> (\<forall>a \<in> set (concat gs). rc p a = 1)"

lemma alloc_groups_create: "concat (alloc_groups (create_kv_cache_blocks k gs)) = concat gs"
  by (induction gs) (auto simp: create_kv_cache_blocks_def)

lemma allocate_checked_ok:
  assumes ok: "kv_ok k" and call: "coord_call_ok (slots_called b ext) (coordinator k) (request_id r) (alloc_groups b) loc ext ntok"
    and fits: "(\<Sum>i<length (single_type_managers (coordinator k)). slot_need (slots_called b ext) (k_pool k) (request_id r)
        (loc + ext) ext ntok enc (single_type_managers (coordinator k) ! i) (alloc_groups b ! i)) \<le> get_num_free_blocks (k_pool k)"
    and cache: "to_cache \<le> ntok" "to_cache \<le> num_tokens r"
    and hash: "k_enable_caching k \<longrightarrow> num_tokens r div hash_block_size (k_pool k) \<le> int (length (block_hashes r))"
  shows "\<exists>out k' r'. allocate_checked env k r b loc ext main ntok enc to_cache delay = Inr (Some out, k', r')
    \<and> kv_ok k' \<and> memo_only r r' \<and> covered (coordinator k') (request_id r) ntok enc
    \<and> sole (k_pool k') (alloc_groups out)"
proof -
  let ?rid = "request_id r" and ?c = "coordinator k"
  obtain fs where inv: "managers_inv (c_pool ?c) fs (single_type_managers ?c) {#}" using ok by (auto simp: kv_ok_def coord_ok_def)
  have "get_num_free_blocks (k_pool k) = int (length fs)" using inv by (simp add: managers_inv_def pool_rep_facts(6))
  note fits' = fits[unfolded this]
  obtain c1 fs1 where c1: "take_over (slots_called b ext) env ?c ?rid (alloc_groups b) loc ext = Inr c1"
    "managers_inv (c_pool c1) fs1 (single_type_managers c1) {#}" "same_managers ?c c1"
    "(\<Sum>m\<leftarrow>single_type_managers c1. grow_need m ?rid (slots_for ntok enc m)) \<le> length fs1"
    using take_over_ok[OF inv call fits', of env] by blast
  define n where "n = (\<Sum>m\<leftarrow>single_type_managers c1. grow_need m ?rid (slots_for ntok enc m))"
  obtain new c2 where c2: "coord_allocate_new_blocks env c1 ?rid ntok main enc = Inr (new, c2)"
    "managers_inv (c_pool c2) (drop n fs1) (single_type_managers c2) {#}" "same_managers c1 c2" "covered c2 ?rid ntok enc"
    "concat new = take n fs1" "\<forall>x. rc (c_pool c2) x = (if x \<in> set (take n fs1) then 1 else rc (c_pool c1) x)"
    using grow_coordinator[OF c1(2) n_def c1(4)[folded n_def], of env main] by blast
  let ?k2 = "k\<lparr>coordinator := c2\<rparr>" and ?out = "create_kv_cache_blocks k new"
  have same2: "same_managers ?c c2" using same_managers_trans[OF c1(3) c2(3)] .
  have ok2: "kv_ok ?k2" using kv_okI[OF ok _ same2] c2(2) by (auto simp: coord_ok_def)
  have sole2: "sole (c_pool c2) (alloc_groups ?out)"
    using c2(5,6) unfolding sole_def by (simp add: alloc_groups_create)
  have unf: "allocate_checked env k r b loc ext main ntok enc to_cache delay =
      (if \<not> k_enable_caching k \<or> delay then Inr (Some ?out, ?k2, r)
       else ebind (coord_cache_blocks env c2 r to_cache) (\<lambda>(c3, r'). Inr (Some ?out, k\<lparr>coordinator := c3\<rparr>, r')))"
    unfolding allocate_checked_def take_over_case c1(1) using c2(1) by simp
  show ?thesis
  proof (cases "\<not> k_enable_caching k \<or> delay")
    case True
    with unf ok2 c2(4) sole2 show ?thesis by auto
  next
    case False
    have "hash_block_size (k_pool ?k2) = hash_block_size (k_pool k)"
      using same2 by (simp add: same_managers_def same_config_def)
    then have "m_class m \<noteq> CrossAttentionManager \<and> (\<exists>l. can_cache (c_pool c2) m r to_cache l)"
      if "m \<in> set (single_type_managers c2)" for m
      using covered_caches[OF ok2 _ _ _ cache, of enc m] c2(4) hash False that by simp
    then obtain c3 r' where c3: "coord_cache_blocks env c2 r to_cache = Inr (c3, r')" "coord_ok c3" "same_managers c2 c3"
      "memo_only r r'" "\<forall>k<length (single_type_managers c2). \<forall>x.
          req_table (single_type_managers c3 ! k) x = req_table (single_type_managers c2 ! k) x"
      "\<forall>a. rc (c_pool c3) a = rc (c_pool c2) a"
      using coord_cache_blocks_ok[of c2 r to_cache env] ok2 by (auto simp: kv_ok_def)
    have "covered c3 ?rid ntok enc"
      unfolding covered_def
    proof
      fix m assume "m \<in> set (single_type_managers c3)"
      then obtain i where i: "i < length (single_type_managers c2)" "m = single_type_managers c3 ! i"
        using c3(3) by (auto simp: same_managers_def in_set_conv_nth dest: list_all2_lengthD)
      then have "same_manager (single_type_managers c2 ! i) m" "req_table m ?rid = req_table (single_type_managers c2 ! i) ?rid"
        using c3(3,5) by (auto simp: same_managers_def list_all2_conv_all_nth)
      with c2(4) i(1) show "cdiv (slot_tokens m (slots_for ntok enc m)) (m_block_size m) \<le> int (length (req_table m ?rid))"
        unfolding covered_def
        by (auto simp: slot_tokens_def slots_for_def num_speculative_blocks_def same_manager_def dest: bspec[OF _ nth_mem])
    qed
    moreover have "kv_ok (k\<lparr>coordinator := c3\<rparr>)"
      using kv_okI[OF ok c3(2) same_managers_trans[OF same2 c3(3)]] .
    moreover have "sole (c_pool c3) (alloc_groups ?out)" using sole2 c3(6) by (simp add: sole_def)
    ultimately show ?thesis using unf False c3 by auto
  qed
qed

lemma call_ok_empty:
  "call_ok called p rid loc ext ntok m computed \<Longrightarrow> dget (num_cached_block m) rid \<noteq> None \<Longrightarrow> computed = []"
  by (auto simp: call_ok_def share_ok_def passes_def split: if_splits)

lemma base_demand_total:
  "dget (num_cached_block m) rid \<noteq> None \<longrightarrow> computed = [] \<Longrightarrow> \<exists>k. base_num_blocks_to_allocate m p rid n computed tot cap = Inr k"
  by (auto simp: base_num_blocks_to_allocate_def Let_def)

text \<open>Predicting never raises for a valid call, whatever the number of tokens and with or without the cap.\<close>

lemma demand_total:
  assumes "\<forall>m \<in> set ms. spec_ok m"
    and "\<And>k. k < length ms \<Longrightarrow> i + k < length ncb \<and> (dget (num_cached_block (ms ! k)) rid \<noteq> None \<longrightarrow> ncb ! (i + k) = [])"
  shows "\<exists>ks. over_managers (manager_demand rid n ncb enc tot main cap) i ms p = Inr (ks, ms, p)"
  using assms
proof (induction ms arbitrary: i)
  case Nil
  then show ?case by simp
next
  case (Cons m ms)
  have sp: "spec_ok m" and i: "i < length ncb" "dget (num_cached_block m) rid \<noteq> None \<longrightarrow> ncb ! i = []"
    using Cons.prems(1) Cons.prems(2)[of 0] by auto
  have one: "\<exists>k. num_blocks_to_allocate m p rid n' computed tot' main' cap = Inr (k, m)"
    if emp: "dget (num_cached_block m) rid \<noteq> None \<longrightarrow> computed = []" for n' computed tot' main'
  proof -
    have "\<forall>n. \<exists>k. base_num_blocks_to_allocate m p rid n computed tot' cap = Inr k"
      using base_demand_total[OF emp] by blast
    from choice[OF this] obtain f where "\<forall>n. base_num_blocks_to_allocate m p rid n computed tot' cap = Inr (f n)"
      by blast
    then show ?thesis
      using mamba_not_align[OF sp] by (auto simp: num_blocks_to_allocate_def mamba_num_blocks_to_allocate_def Let_def)
  qed
  have "\<exists>k. manager_demand rid n ncb enc tot main cap i m p = Inr (k, m, p)"
  proof (cases "m_class m = CrossAttentionManager")
    case True
    then show ?thesis using one[of "[]" enc 0 enc] by (auto simp: manager_demand_def)
  next
    case False
    then show ?thesis using one[OF i(2), of n tot main] py_nth_nat[OF i(1)] by (auto simp: manager_demand_def)
  qed
  then obtain k where "manager_demand rid n ncb enc tot main cap i m p = Inr (k, m, p)"
    by blast
  moreover have "Suc i + k < length ncb \<and> (dget (num_cached_block (ms ! k)) rid \<noteq> None \<longrightarrow> ncb ! (Suc i + k) = [])"
    if "k < length ms" for k
    using Cons.prems(2)[of "Suc k"] that by simp
  ultimately show ?case using Cons.IH[of "Suc i"] Cons.prems(1) by auto
qed

lemma admission_gate_total:
  assumes ok: "kv_ok k" and call: "coord_call_ok called (coordinator k) (request_id r) ncb loc ext ntok"
  shows "\<exists>f. admission_gate k r ncb enc tot = Inr (f, k)"
proof -
  let ?c = "coordinator k"
  have "\<forall>m \<in> set (single_type_managers ?c). spec_ok m"
    using ok by (auto simp: kv_ok_def coord_ok_def managers_inv_def manager_ok_def)
  moreover have "0 + i < length ncb \<and> (dget (num_cached_block (single_type_managers ?c ! i)) (request_id r) \<noteq> None
      \<longrightarrow> ncb ! (0 + i) = [])" if "i < length (single_type_managers ?c)" for i
    using call that call_ok_empty by (auto simp: coord_call_ok_def)
  ultimately obtain ks where "over_managers (manager_demand (request_id r) (min (num_tokens r) (k_max_model_len k)) ncb enc tot
      (min (num_tokens r) (k_max_model_len k)) True) 0 (single_type_managers ?c) (c_pool ?c)
    = Inr (ks, single_type_managers ?c, c_pool ?c)"
    using demand_total by blast
  then show ?thesis
    by (simp add: admission_gate_def Let_def coord_num_blocks_to_allocate_def)
qed

definition computed_arg :: "kv_cache_manager \<Rightarrow> alloc_blocks option \<Rightarrow> alloc_blocks" where
  "computed_arg k arg = (case arg of Some b \<Rightarrow> b | None \<Rightarrow> EmptyKVCacheBlocks (num_kv_cache_groups k))"

definition need_slots :: "kv_cache_manager \<Rightarrow> int \<Rightarrow> int \<Rightarrow> int \<Rightarrow> int" where
  "need_slots k tot new look = min (tot + new + look) (k_max_model_len k)"

definition slots_pre :: "kv_cache_manager \<Rightarrow> request \<Rightarrow> int \<Rightarrow> int \<Rightarrow> alloc_blocks \<Rightarrow> int \<Rightarrow> int \<Rightarrow> bool" where
  "slots_pre k r new ncomp b look ext \<longleftrightarrow>
     (let loc = num_computed_tokens r + ncomp
      in 0 \<le> new \<and> (new \<noteq> 0 \<or> ext \<noteq> 0) \<and> 0 \<le> look \<and> loc + ext \<le> k_max_model_len k \<and> num_tokens r \<le> k_max_model_len k
         \<and> coord_call_ok (slots_called b ext) (coordinator k) (request_id r) (alloc_groups b) loc ext
             (need_slots k (loc + ext) new look)
         \<and> (k_enable_caching k \<longrightarrow> num_tokens r div hash_block_size (k_pool k) \<le> int (length (block_hashes r))))"

lemma allocate_slots_ok:
  assumes ok: "kv_ok k" and pre: "slots_pre k r new ncomp (computed_arg k arg) look ext"
  shows "\<exists>res k' r'. allocate_slots env k r new ncomp arg look ext delay enc must_fit = Inr (res, k', r')
    \<and> kv_ok k' \<and> memo_only r r'
    \<and> (res = None \<longrightarrow> r' = r \<and> list_all2 same_shape (single_type_managers (coordinator k)) (single_type_managers (coordinator k')))
    \<and> (\<forall>out. res = Some out \<longrightarrow>
         covered (coordinator k') (request_id r) (need_slots k (num_computed_tokens r + ncomp + ext) new look) enc
         \<and> sole (k_pool k') (alloc_groups out))"
proof -
  let ?b = "computed_arg k arg" and ?rid = "request_id r" and ?loc = "num_computed_tokens r + ncomp"
  let ?tot = "?loc + ext" and ?need = "need_slots k (?loc + ext) new look" and ?ncb = "alloc_groups (computed_arg k arg)"
  let ?called = "slots_called ?b ext"
  from pre have nn: "0 \<le> new" "new \<noteq> 0 \<or> ext \<noteq> 0" "0 \<le> look" "?tot \<le> k_max_model_len k" "num_tokens r \<le> k_max_model_len k"
    and call: "coord_call_ok ?called (coordinator k) ?rid ?ncb ?loc ext ?need"
    and hash: "k_enable_caching k \<longrightarrow> num_tokens r div hash_block_size (k_pool k) \<le> int (length (block_hashes r))"
    by (simp_all add: slots_pre_def Let_def)
  have tot: "min ?tot (k_max_model_len k) = ?tot" and calls: "\<not> (new = 0 \<and> ext = 0)"
    using nn(2,4) by auto
  obtain f where gate: "(if must_fit then admission_gate k r ?ncb enc ?tot else Inr (True, k)) = Inr (f, k)"
    using admission_gate_total[OF ok call, of enc ?tot] by (cases must_fit) auto
  obtain c2 where c2: "coord_remove_skipped_blocks (coordinator k) ?rid ?tot = Inr c2" "coord_ok c2" "same_managers (coordinator k) c2"
    "list_all2 same_shape (single_type_managers (coordinator k)) (single_type_managers c2)" "\<forall>a. bh (c_pool c2) a = bh (k_pool k) a"
    using coord_remove_skipped_blocks_ok[of "coordinator k" ?rid ?tot] ok by (auto simp: kv_ok_def)
  let ?k2 = "k\<lparr>coordinator := c2\<rparr>"
  have ok2: "kv_ok ?k2" using kv_okI[OF ok c2(2,3)] .
  have call2: "coord_call_ok ?called c2 ?rid ?ncb ?loc ext ?need"
    using coord_call_ok_shape[OF call c2(4)] c2(3,5) by (simp add: same_managers_def)
  obtain n where n: "coord_num_blocks_to_allocate c2 ?rid ?need ?ncb enc ?tot (?tot + new) False = Inr (n, c2)"
    "n \<le> get_num_free_blocks (c_pool c2) \<Longrightarrow> (\<Sum>k<length (single_type_managers c2).
        slot_need ?called (c_pool c2) ?rid ?tot ext ?need enc (single_type_managers c2 ! k) (?ncb ! k)) = n"
    using coord_demand[OF c2(2) call2, of enc "?tot + new"] by blast
  let ?cache = "min (?tot + new) (num_tokens r)"
  have unf: "allocate_slots env k r new ncomp arg look ext delay enc must_fit =
      (if \<not> f then Inr (None, k, r)
       else if n > get_num_free_blocks (c_pool c2) then Inr (None, ?k2, r)
       else allocate_checked env ?k2 r ?b ?loc ext (?tot + new) ?need enc ?cache delay)"
    by (simp only: allocate_slots_def Let_def computed_arg_def[symmetric] if_not_P[OF calls] tot gate ebind_simps
        prod.case c2(1) n(1)[unfolded need_slots_def] need_slots_def)
  show ?thesis
  proof (cases "f \<and> n \<le> get_num_free_blocks (c_pool c2)")
    case False
    with unf ok ok2 c2(4) show ?thesis by (auto simp: list_all2_same same_shape_def)
  next
    case True
    have "(\<Sum>i<length (single_type_managers (coordinator ?k2)). slot_need ?called (k_pool ?k2) ?rid ?tot ext ?need enc
        (single_type_managers (coordinator ?k2) ! i) (?ncb ! i)) \<le> get_num_free_blocks (k_pool ?k2)"
      using n(2) True by simp
    moreover have "?cache \<le> ?need" "?cache \<le> num_tokens r"
      using nn by (auto simp: need_slots_def)
    moreover have "k_enable_caching ?k2 \<longrightarrow> num_tokens r div hash_block_size (k_pool ?k2) \<le> int (length (block_hashes r))"
      using hash c2(3) by (simp add: same_managers_def same_config_def)
    ultimately show ?thesis
      using allocate_checked_ok[OF ok2, of ?b ext r ?loc ?need enc ?cache env "?tot + new" delay] call2 True unf by auto
  qed
qed

end
