(* ===== verification/KV_Samples.thy ===== *)
theory KV_Samples
  imports KV_Cache_Manager
begin

text \<open>
  Concrete configurations, requests and managers on which the witnesses evaluate the model: block
  size 2, a full attention spec, a sliding window spec, a chunked spec, and a hash environment
  that is never asked for a hash.
\<close>

declare walk_free.simps [code] hybrid_loop.simps [code]

definition demo_attn :: attention_spec where
  "demo_attn = sample_attn\<lparr>a_block_size := 2\<rparr>"

definition demo_full :: kv_cache_spec where
  "demo_full = FullAttentionSpec demo_attn
     \<lparr>head_size_v = 64, f_sliding_window = None, f_attention_chunk_size = None\<rparr>"

definition demo_window :: "int \<Rightarrow> kv_cache_spec" where
  "demo_window w = SlidingWindowSpec demo_attn w 64"

definition demo_chunk :: "int \<Rightarrow> kv_cache_spec" where
  "demo_chunk c = ChunkedLocalAttentionSpec demo_attn c"

definition demo_config :: "int \<Rightarrow> kv_cache_spec list \<Rightarrow> kv_cache_config" where
  "demo_config n ss = \<lparr>num_blocks = n, kv_cache_tensors = [],
     kv_cache_groups = map (\<lambda>s. \<lparr>layer_names = [], g_kv_cache_spec = s, is_eagle_group = False\<rparr>) ss\<rparr>"

definition demo_init :: "int \<Rightarrow> kv_cache_spec list \<Rightarrow> kv_cache_manager res" where
  "demo_init n ss = kv_cache_manager_init (demo_config n ss) 16 2 None True False False False 1 1"

definition demo_env :: hash_env where
  "demo_env = \<lparr>hash_fn = (\<lambda>_. []), none_hash = [0], sha256_digest = id, use_int_block_hashes = False\<rparr>"

definition demo_request :: "string \<Rightarrow> bytes list \<Rightarrow> int list \<Rightarrow> request" where
  "demo_request rid hs toks =
     \<lparr>request_id = rid, priority = 0, arrival_time = 0, lora_request = None, sampling_params = None,
      pooling_params = None, structured_output_request = False, status = WAITING, stop_reason = None,
      max_tokens = 16, prompt_token_ids = Some toks, prompt_embeds = None, prompt_embeds_per_block_hashes = [],
      num_prompt_tokens = int (length toks), output_token_ids = [], all_token_ids = toks,
      num_output_placeholders = 0, spec_token_ids = [], num_computed_tokens = 0, cache_salt = None,
      mm_features = [], is_prefill_chunk = False, num_preemptions = 0, block_hashes = hs,
      skip_reading_prefix_cache = False, resumable = False\<rparr>"

text \<open>A request with five tokens, so two full blocks; the manager that holds it.\<close>

definition demo_a :: request where
  "demo_a = demo_request ''a'' [[1], [2]] [1, 2, 3, 4, 5]"

definition demo_alloc :: "kv_cache_manager \<Rightarrow> request \<Rightarrow> (alloc_blocks option \<times> kv_cache_manager \<times> request) res" where
  "demo_alloc k r = allocate_slots demo_env k r (num_tokens r) 0 None 0 0 False 0 True"

definition after_init :: "int \<Rightarrow> kv_cache_spec list \<Rightarrow> kv_cache_manager" where
  "after_init n ss = (case demo_init n ss of Inr k \<Rightarrow> k)"

definition after_alloc :: "int \<Rightarrow> kv_cache_spec list \<Rightarrow> kv_cache_manager" where
  "after_alloc n ss = (case demo_alloc (after_init n ss) demo_a of Inr (_, k, _) \<Rightarrow> k)"

end
