(* ===== verification/KV_System.thy ===== *)
theory KV_System
  imports KV_Machine KV_Samples
begin

text \<open>
  The state machine of the KV cache manager: its construction establishes the invariant, every
  method keeps it, and the properties of the reachable states follow.
\<close>

section \<open>Construction\<close>

text \<open>
  The configurations considered: positive block sizes, windows and chunks, no attention sinks, no
  align mode of Mamba, and Mamba only without context parallelism. With prefix caching, every group
  is hashed (there is no cross attention) and its number fits the four bytes of a block key.
\<close>

definition spec_valid :: "int \<Rightarrow> kv_cache_spec \<Rightarrow> bool" where
  "spec_valid ranks s \<longleftrightarrow>
     spec_manager_map s \<noteq> Inr SinkFullAttentionManager \<and> 0 < spec_block_size s
     \<and> (case window_of s of Some w \<Rightarrow> 0 < w | None \<Rightarrow> True) \<and> (case chunk_of s of Some c \<Rightarrow> 0 < c | None \<Rightarrow> True)
     \<and> (case mamba_of s of Some mb \<Rightarrow> 0 \<le> mb_num_speculative_blocks mb \<and> mb_cache_mode mb \<noteq> ''align'' \<and> ranks \<le> 1
        | None \<Rightarrow> True)"

definition config_valid :: "kv_cache_config \<Rightarrow> bool \<Rightarrow> int \<Rightarrow> int \<Rightarrow> int \<Rightarrow> bool" where
  "config_valid cfg caching dcp pcp hbs \<longleftrightarrow>
     1 \<le> dcp \<and> 1 \<le> pcp \<and> list_all (\<lambda>g. spec_valid (dcp * pcp) (g_kv_cache_spec g)) (kv_cache_groups cfg)
     \<and> (caching \<longrightarrow> 0 < hbs \<and> int (length (kv_cache_groups cfg)) \<le> 256 ^ 4
          \<and> list_all (\<lambda>g. \<not> is_cross (g_kv_cache_spec g)) (kv_cache_groups cfg))"

lemma spec_manager_map_cross: "spec_manager_map s = Inr CrossAttentionManager \<Longrightarrow> is_cross s"
  by (cases s) auto

lemma mamba_block_size: "mamba_of s = Some mb \<Longrightarrow> spec_block_size s = mb_block_size mb"
  by (cases s) (auto simp: spec_block_size.simps)

text \<open>A manager without requests.\<close>

definition fresh_manager :: "block_pool \<Rightarrow> bool \<Rightarrow> kv_cache_spec \<Rightarrow> int \<Rightarrow> int \<Rightarrow> kv_manager \<Rightarrow> bool" where
  "fresh_manager p caching s ranks gid m \<longleftrightarrow>
     spec_ok m \<and> m_enable_caching m = caching \<and> m_spec m = s \<and> m_null_block m = null_block p \<and> req_to_blocks m = [] \<and> num_cached_block m = []
     \<and> kv_cache_group_id m = gid \<and> m_block_size m = spec_block_size s * ranks"

lemma make_manager_fresh:
  assumes "make_manager s batched max_len p caching gid dcp pcp = Inr (m, p')" and "spec_valid (dcp * pcp) s"
    and "1 \<le> dcp" "1 \<le> pcp"
  shows "p' = p \<and> fresh_manager p caching s (dcp * pcp) gid m"
proof -
  have pos: "0 < dcp * pcp" using assms(3,4) by (simp add: zero_less_mult_iff)
  then have ranks: "(if dcp * pcp > 1 then dcp * pcp else 1) = dcp * pcp" by auto
  from assms(1,2) show ?thesis
    using pos mamba_block_size[of s] unfolding make_manager_def ranks
    by (auto simp: ebind_Inr_iff Let_def spec_valid_def fresh_manager_def spec_ok_def split: if_splits option.splits)
qed

lemma make_managers_fresh:
  assumes "make_managers batched max_len caching dcp pcp i gs p = Inr (ms, p')"
    and "\<forall>g \<in> set gs. spec_valid (dcp * pcp) (g_kv_cache_spec g)" and "1 \<le> dcp" "1 \<le> pcp"
  shows "p' = p \<and> length ms = length gs
    \<and> (\<forall>k < length gs. fresh_manager p caching (g_kv_cache_spec (gs ! k)) (dcp * pcp) (int (i + k)) (ms ! k))"
  using assms(1,2)
proof (induction gs arbitrary: i p ms)
  case Nil
  then show ?case by simp
next
  case (Cons g gs)
  from Cons.prems(1) obtain m p1 ms' where m: "make_manager (g_kv_cache_spec g) batched max_len p caching (int i) dcp pcp = Inr (m, p1)"
    and ms': "make_managers batched max_len caching dcp pcp (Suc i) gs p1 = Inr (ms', p')" and ms: "ms = m # ms'"
    by (auto simp: ebind_Inr_iff)
  have "p1 = p \<and> fresh_manager p caching (g_kv_cache_spec g) (dcp * pcp) (int i) m"
    using make_manager_fresh[OF m _ assms(3,4)] Cons.prems(2) by simp
  with Cons.IH[OF ms'] Cons.prems(2) show ?case
    by (auto simp: ms nth_Cons algebra_simps split: nat.splits)
qed

lemma base_coordinator_ok:
  assumes "base_coordinator kind cfg max_len batched eagle caching events dcp pcp hbs = Inr c"
    and "config_valid cfg caching dcp pcp hbs"
  shows "coord_ok c \<and> length (single_type_managers c) = length (kv_cache_groups cfg)
    \<and> enable_caching (c_pool c) = caching \<and> hash_block_size (c_pool c) = hbs
    \<and> (\<forall>k < length (kv_cache_groups cfg). fresh_manager (c_pool c) caching (g_kv_cache_spec (kv_cache_groups cfg ! k))
         (dcp * pcp) (int k) (single_type_managers c ! k))"
proof -
  from assms(1) obtain p ms p' where p: "block_pool_init (num_blocks cfg) caching hbs events = Inr p"
    and ms: "make_managers batched max_len caching dcp pcp 0 (kv_cache_groups cfg) p = Inr (ms, p')"
    and c: "c_pool c = p'" "single_type_managers c = ms"
    by (auto simp: base_coordinator_def ebind_Inr_iff)
  have "0 < num_blocks cfg" using p by (auto simp: block_pool_init_def split: if_splits)
  from block_pool_init_spec[OF this, of caching hbs events] p obtain fs where
    pool: "pool_rep p fs" "enable_caching p = caching" "hash_block_size p = hbs" "\<forall>a. rc p a = 0" by auto
  have fr: "p' = p" "length ms = length (kv_cache_groups cfg)"
    "\<forall>k < length (kv_cache_groups cfg). fresh_manager p caching (g_kv_cache_spec (kv_cache_groups cfg ! k)) (dcp * pcp) (int k) (ms ! k)"
    using make_managers_fresh[OF ms] assms(2) by (auto simp: config_valid_def list_all_iff)
  have each: "\<exists>s g. fresh_manager p caching s (dcp * pcp) g m" if "m \<in> set ms" for m
    using fr(2,3) that by (auto simp: in_set_conv_nth)
  have "manager_ok p m \<and> tails_ok p m \<and> refs m = {#}" if "m \<in> set ms" for m
    using each[OF that] pool_rep_facts(2)[OF pool(1)]
    by (auto simp: fresh_manager_def manager_ok_def tails_ok_def tail_of_def num_cached_def req_table_def dget_or_def
        table_ok_def table_distinct_def)
  moreover from this have "all_refs ms = {#}" by (induction ms) auto
  ultimately have "managers_inv p fs ms {#}"
    using pool by (auto simp: managers_inv_def holds_def)
  with c fr pool show ?thesis by (auto simp: coord_ok_def)
qed


section \<open>Changes that move no reference\<close>

text \<open>A manager with the same tables, and a pool with the same counts and at most fewer hashes.\<close>

definition quiet :: "kv_manager \<Rightarrow> kv_manager \<Rightarrow> bool" where
  "quiet m m' \<longleftrightarrow> same_manager m m' \<and> (\<forall>x. req_table m' x = req_table m x)
     \<and> num_cached_block m' = num_cached_block m \<and> refs m' = refs m \<and> dict_ok (req_to_blocks m')"

lemma quiet_fields:
  assumes "dict_ok (req_to_blocks m)"
  shows "quiet m m" "quiet m (set_table m rid (req_table m rid))" "quiet m (m\<lparr>new_block_ids := ids\<rparr>)"
    "quiet m (m\<lparr>cached_blocks_this_step := ks\<rparr>)"
  using assms refs_set_table[OF assms, of rid "req_table m rid"]
  by (auto simp: quiet_def req_table_def)

lemma managers_inv_quiet:
  assumes "managers_inv p fs ms R" and "list_all2 quiet ms ms'"
  shows "managers_inv p fs ms' R"
proof -
  have "all_refs ms' = all_refs ms"
    using assms(2) by (induction rule: list_all2_induct) (simp_all add: quiet_def)
  moreover have "manager_ok p m' \<and> tails_ok p m'" if m': "m' \<in> set ms'" for m'
  proof -
    from m' assms(2) obtain m where m: "m \<in> set ms" "quiet m m'"
      by (metis in_set_conv_nth list_all2_conv_all_nth)
    with assms(1) have "manager_ok p m" "tails_ok p m" by (auto simp: managers_inv_def)
    with m(2) show ?thesis
      using same_manager_spec[of m m']
      by (auto simp: quiet_def manager_ok_def tails_ok_def tail_of_def num_cached_def same_manager_def)
  qed
  ultimately show ?thesis using assms(1) by (simp add: managers_inv_def)
qed

lemma kv_ok_quiet:
  assumes "kv_ok k" and "list_all2 quiet (single_type_managers (coordinator k)) ms"
    and "single_type_managers c = ms" "c_pool c = k_pool k" "c_kind c = c_kind (coordinator k)" "c_config c = c_config (coordinator k)"
  shows "kv_ok (k\<lparr>coordinator := c\<rparr>)"
proof (rule kv_okI[OF assms(1)])
  show "coord_ok c"
    using assms(1,3,4) managers_inv_quiet[OF _ assms(2)] unfolding kv_ok_def coord_ok_def by fastforce
  show "same_managers (coordinator k) c"
    using assms(2-6) by (auto simp: same_managers_def quiet_def intro: list_all2_mono)
qed

lemma kv_ok_pool:
  assumes ok: "kv_ok k" and rep: "\<And>fs. pool_rep (k_pool k) fs \<Longrightarrow> pool_rep p fs"
    and cfg: "same_config (k_pool k) p" and rc: "\<forall>x. rc p x = rc (k_pool k) x"
    and bh: "\<forall>x. bh p x = None \<or> bh p x = bh (k_pool k) x"
  shows "kv_ok (k_set_pool k p)"
proof (rule kv_okI[OF ok])
  let ?ms = "single_type_managers (coordinator k)"
  obtain fs where inv: "managers_inv (k_pool k) fs ?ms {#}" using ok by (auto simp: kv_ok_def coord_ok_def)
  have frame: "frame (refs m) (k_pool k) p" for m
    using rc bh by (auto simp: frame_def exclusive_def)
  have "tails_ok p m" if "tails_ok (k_pool k) m" for m
    using tails_ok_frame[OF that frame, of m] by simp
  then have "managers_inv p fs ?ms {#}"
    using inv rep rc cfg by (simp add: managers_inv_def manager_ok_cong[OF cfg] holds_def same_config_sel(4))
  then show "coord_ok ((coordinator k)\<lparr>c_pool := p\<rparr>)" by (auto simp: coord_ok_def)
  show "same_managers (coordinator k) ((coordinator k)\<lparr>c_pool := p\<rparr>)"
    using cfg by (simp add: same_managers_def list_all2_refl)
qed

text \<open>The groups of the hybrid coordinator describe their managers.\<close>

lemma add_to_groups_all:
  assumes "add_to_groups spec i cls gs = Inr gs'" and "\<forall>g \<in> set gs. ag_ids g \<noteq> [] \<and> (\<forall>j \<in> set (ag_ids g). P j (ag_spec g) (ag_class g))"
    and "P i spec cls"
  shows "\<forall>g \<in> set gs'. ag_ids g \<noteq> [] \<and> (\<forall>j \<in> set (ag_ids g). P j (ag_spec g) (ag_class g))"
  using assms
proof (induction gs arbitrary: gs')
  case Nil
  then show ?case by auto
next
  case (Cons g gs)
  show ?case
  proof (cases "ag_spec g = spec")
    case True
    with Cons.prems show ?thesis by (auto split: if_splits)
  next
    case False
    with Cons.prems(1) obtain gs1 where "add_to_groups spec i cls gs = Inr gs1" "gs' = g # gs1" by (auto simp: ebind_Inr_iff)
    with Cons.IH[of gs1] Cons.prems(2,3) show ?thesis by simp
  qed
qed

lemma fold_lcm_dvd: "a dvd fold lcm xs a \<and> (x \<in> set xs \<longrightarrow> x dvd fold lcm xs (a :: int))"
proof (induction xs arbitrary: a)
  case Nil
  then show ?case by simp
next
  case (Cons y xs)
  have "lcm y a dvd fold lcm xs (lcm y a)" using Cons.IH by blast
  then have "y dvd fold lcm xs (lcm y a)" "a dvd fold lcm xs (lcm y a)" by (auto intro: dvd_trans[of _ "lcm y a"])
  with Cons.IH[of "lcm y a"] show ?case by auto
qed

lemma verify_and_split_ok:
  assumes "verify_and_split_kv_cache_groups gs ms eagle hbs = Inr h" and "length ms = length gs"
    and "\<And>i. i < length gs \<Longrightarrow> m_spec (ms ! i) = g_kv_cache_spec (gs ! i) \<and> kv_cache_group_id (ms ! i) = int i
      \<and> m_block_size (ms ! i) = spec_block_size (m_spec (ms ! i))"
  shows "h_hash_block_size h = hbs \<and> (\<forall>g \<in> set (attention_groups h). group_describes ms (lcm_block_size h) g)"
proof -
  let ?P = "\<lambda>j s c. 0 \<le> j \<and> nat j < length ms \<and> m_spec (ms ! nat j) = s \<and> m_class (ms ! nat j) = c
      \<and> kv_cache_group_id (ms ! nat j) = j \<and> m_block_size (ms ! nat j) = spec_block_size s"
  let ?Q = "\<lambda>groups. \<forall>g \<in> set groups. ag_ids g \<noteq> [] \<and> (\<forall>j \<in> set (ag_ids g). ?P j (ag_spec g) (ag_class g))"
  obtain groups where groups: "efold (\<lambda>(i, g, m). add_to_groups (g_kv_cache_spec g) (int i) (m_class m))
      (enumerate 0 (zip gs ms)) [] = Inr groups"
    and h: "h_hash_block_size h = hbs" "attention_groups h = full_first groups"
      "lcm_block_size h = fold lcm (map (\<lambda>g. spec_block_size (ag_spec g)) groups) 1"
    using assms(1) by (auto simp: verify_and_split_kv_cache_groups_def ebind_Inr_iff Let_def split: if_splits)
  have "?Q groups"
  proof (rule efold_invariant[where P = ?Q, OF groups])
    fix x s s' assume x: "x \<in> set (enumerate 0 (zip gs ms))" "?Q s"
      "(\<lambda>(i, g, m). add_to_groups (g_kv_cache_spec g) (int i) (m_class m)) x s = Inr s'"
    obtain i g m where i: "x = (i, g, m)" by (cases x)
    with x(1) assms(2) have "i < length gs" "g = gs ! i" "m = ms ! i" by (auto simp: in_set_enumerate_eq)
    with assms(2,3) have "?P (int i) (g_kv_cache_spec g) (m_class m)" by simp
    with x i show "?Q s'" by (intro add_to_groups_all[of "g_kv_cache_spec g" "int i" "m_class m" s s']) auto
  qed simp
  moreover have "set (full_first groups) = set groups" by (auto simp: full_first_def)
  moreover have "spec_block_size (ag_spec g) dvd lcm_block_size h" if "g \<in> set groups" for g
    using fold_lcm_dvd[of 1 "map (\<lambda>g. spec_block_size (ag_spec g)) groups" "spec_block_size (ag_spec g)"] that h(3) by auto
  ultimately show ?thesis using h by (auto simp: group_describes_def)
qed

lemma base_coordinator_kind:
  "base_coordinator kind cfg max_len b eagle caching events dcp pcp hbs = Inr c \<Longrightarrow> c_kind c = kind \<and> c_config c = cfg"
  by (auto simp: base_coordinator_def ebind_Inr_iff)

lemma unitary_init_ok:
  assumes run: "unitary_init cfg max_len b eagle True events dcp pcp hbs = Inr c"
    and valid: "config_valid cfg True dcp pcp hbs"
  shows "\<exists>c0. base_coordinator KVCacheCoordinatorNoPrefixCache cfg max_len b eagle True events dcp pcp hbs = Inr c0
    \<and> c_pool c = c_pool c0 \<and> single_type_managers c = single_type_managers c0 \<and> kind_ok c
    \<and> (\<forall>g \<in> set (kv_cache_groups cfg). spec_block_size (g_kv_cache_spec g) * (dcp * pcp) mod hbs = 0)"
proof -
  obtain c0 where c0: "base_coordinator KVCacheCoordinatorNoPrefixCache cfg max_len b eagle True events dcp pcp hbs = Inr c0"
    using run by (auto simp: unitary_init_def ebind_Inr_iff)
  obtain g where g: "kv_cache_groups cfg = [g]"
    using run c0 by (auto simp: unitary_init_def Let_def split: list.splits if_splits)
  define bs where "bs = spec_block_size (g_kv_cache_spec g) * (dcp * pcp)"
  have ranks: "1 \<le> dcp" "1 \<le> pcp" using valid by (simp_all add: config_valid_def)
  then have bs: "(if pcp > 1 then (if dcp > 1 then x * dcp else x) * pcp else if dcp > 1 then x * dcp else x) = x * (dcp * pcp)"
    for x :: int by auto
  have hbs: "hbs = bs" and c: "c = c0\<lparr>c_kind := UnitaryKVCacheCoordinator \<lparr>u_spec = g_kv_cache_spec g, u_block_size = bs,
      u_dcp_world_size = dcp, u_pcp_world_size = pcp\<rparr>\<rparr>"
    using run c0 bs[of "spec_block_size (g_kv_cache_spec g)"] by (auto simp: unitary_init_def g Let_def bs_def split: if_splits)
  note base = base_coordinator_ok[OF c0 valid]
  then obtain m where m: "single_type_managers c0 = [m]" using g by (auto simp: length_Suc_conv)
  moreover have "fresh_manager (c_pool c0) True (g_kv_cache_spec g) (dcp * pcp) 0 m" using base g m by auto
  ultimately have "kind_ok c" using base ranks hbs by (simp add: kind_ok_def c fresh_manager_def bs_def)
  with c0 c hbs show ?thesis by (auto simp: g bs_def)
qed

lemma hybrid_init_ok:
  assumes run: "hybrid_init cfg max_len b eagle True events dcp pcp hbs = Inr c"
    and valid: "config_valid cfg True dcp pcp hbs"
  shows "\<exists>c0. base_coordinator KVCacheCoordinatorNoPrefixCache cfg max_len b eagle True events dcp pcp hbs = Inr c0
    \<and> c_pool c = c_pool c0 \<and> single_type_managers c = single_type_managers c0 \<and> kind_ok c
    \<and> (\<forall>g \<in> set (kv_cache_groups cfg). spec_block_size (g_kv_cache_spec g) * (dcp * pcp) mod hbs = 0)"
proof -
  obtain c0 h where c0: "base_coordinator KVCacheCoordinatorNoPrefixCache cfg max_len b eagle True events dcp pcp hbs = Inr c0"
    and dvd: "list_all (\<lambda>g. spec_block_size (g_kv_cache_spec g) mod hbs = 0) (kv_cache_groups cfg)" and one: "dcp = 1" "pcp = 1"
    and h: "verify_and_split_kv_cache_groups (kv_cache_groups cfg) (single_type_managers c0) (eagle_group_ids c0) hbs = Inr h"
    and c: "c = c0\<lparr>c_kind := HybridKVCacheCoordinator h\<rparr>"
    using run by (auto simp: hybrid_init_def ebind_Inr_iff split: if_splits)
  note base = base_coordinator_ok[OF c0 valid]
  have "h_hash_block_size h = hbs \<and> (\<forall>g \<in> set (attention_groups h). group_describes (single_type_managers c0) (lcm_block_size h) g)"
    by (rule verify_and_split_ok[OF h]) (use base one in \<open>auto simp: fresh_manager_def\<close>)
  then have "kind_ok c"
    using base base_coordinator_kind[OF c0] by (simp add: kind_ok_def c)
  with c0 c dvd one show ?thesis by (auto simp: list_all_iff)
qed

lemma kv_cache_manager_init_ok:
  assumes init: "kv_cache_manager_init cfg max_len hbs batched caching eagle stats events dcp pcp = Inr k"
    and valid: "config_valid cfg caching dcp pcp hbs"
  shows "kv_ok k"
proof -
  define b where "b = (case batched of Some n \<Rightarrow> n | None \<Rightarrow> max_len)"
  from init obtain c where c: "get_kv_cache_coordinator cfg max_len b eagle caching events dcp pcp hbs = Inr c"
    and k: "coordinator k = c" "k_enable_caching k = caching" "k_log_stats k \<longrightarrow> k_prefix_cache_stats k \<noteq> None"
      "num_kv_cache_groups k = length (kv_cache_groups cfg)"
    by (auto simp: kv_cache_manager_init_def Let_def b_def ebind_Inr_iff)
  obtain kind c0 where c0: "base_coordinator kind cfg max_len b eagle caching events dcp pcp hbs = Inr c0"
      "c_pool c = c_pool c0" "single_type_managers c = single_type_managers c0" "kind_ok c"
    and bsz: "caching \<longrightarrow> (\<forall>g \<in> set (kv_cache_groups cfg). spec_block_size (g_kv_cache_spec g) * (dcp * pcp) mod hbs = 0)"
  proof (cases "caching")
    case False
    with c that[of KVCacheCoordinatorNoPrefixCache c] base_coordinator_kind show thesis
      by (auto simp: get_kv_cache_coordinator_def kind_ok_def)
  next
    case True
    with c have "unitary_init cfg max_len b eagle True events dcp pcp hbs = Inr c \<or> hybrid_init cfg max_len b eagle True events dcp pcp hbs = Inr c"
      by (auto simp: get_kv_cache_coordinator_def split: if_splits)
    with True valid unitary_init_ok[of cfg max_len b eagle events dcp pcp hbs c] hybrid_init_ok[of cfg max_len b eagle events dcp pcp hbs c]
    obtain c0 where "base_coordinator KVCacheCoordinatorNoPrefixCache cfg max_len b eagle caching events dcp pcp hbs = Inr c0
      \<and> c_pool c = c_pool c0 \<and> single_type_managers c = single_type_managers c0 \<and> kind_ok c
      \<and> (\<forall>g \<in> set (kv_cache_groups cfg). spec_block_size (g_kv_cache_spec g) * (dcp * pcp) mod hbs = 0)" by auto
    with that show thesis by blast
  qed
  note base = base_coordinator_ok[OF c0(1) valid]
  have "m_class m \<noteq> CrossAttentionManager \<and> m_enable_caching m \<and> group_ok (kv_cache_group_id m) \<and> m_block_size m mod hbs = 0"
    if on: "caching" and mem: "m \<in> set (single_type_managers c)" for m
  proof -
    obtain i where i: "i < length (kv_cache_groups cfg)" "m = single_type_managers c ! i"
      using mem base c0 by (auto simp: in_set_conv_nth)
    with base c0 have "fresh_manager (c_pool c) caching (g_kv_cache_spec (kv_cache_groups cfg ! i)) (dcp * pcp) (int i) m" by simp
    then have m: "spec_manager_map (g_kv_cache_spec (kv_cache_groups cfg ! i)) = Inr (m_class m)" "kv_cache_group_id m = int i"
      "m_enable_caching m = caching"
      "m_block_size m = spec_block_size (g_kv_cache_spec (kv_cache_groups cfg ! i)) * (dcp * pcp)"
      by (auto simp: fresh_manager_def spec_ok_def)
    have "\<not> is_cross (g_kv_cache_spec (kv_cache_groups cfg ! i))"
      using valid on nth_mem[OF i(1)] by (auto simp: config_valid_def list_all_iff)
    then have "m_class m \<noteq> CrossAttentionManager" using spec_manager_map_cross m(1) by auto
    moreover have "int i < 256 ^ 4" using valid on i(1) by (simp add: config_valid_def)
    ultimately show ?thesis using bsz on nth_mem[OF i(1)] m(2-4) by (simp add: group_ok_def)
  qed
  with base c0 k valid show ?thesis
    by (auto simp: kv_ok_def coord_ok_def caching_ok_def config_valid_def)
qed

section \<open>The steps\<close>

text \<open>
  A request whose full blocks within \<open>n\<close> tokens are all in its tables may be cached up to \<open>n\<close>.
\<close>

definition cache_pre :: "kv_cache_manager \<Rightarrow> request \<Rightarrow> int \<Rightarrow> bool" where
  "cache_pre k r n \<longleftrightarrow> n \<le> num_tokens r
     \<and> (k_enable_caching k \<longrightarrow> num_tokens r div hash_block_size (k_pool k) \<le> int (length (block_hashes r))
          \<and> covered (coordinator k) (request_id r) n 0)"

inductive kv_step :: "hash_env \<Rightarrow> kv_cache_manager \<Rightarrow> kv_cache_manager \<Rightarrow> bool" for env where
  kv_allocate: "slots_pre k r new ncomp (computed_arg k arg) look ext \<Longrightarrow>
     allocate_slots env k r new ncomp arg look ext delay enc must_fit = Inr (res, k', r') \<Longrightarrow> kv_step env k k'"
| kv_get_computed: "get_computed_blocks k r = Some (Inr (b, n, k')) \<Longrightarrow> kv_step env k k'"
| kv_free: "k_free k r = Inr k' \<Longrightarrow> kv_step env k k'"
| kv_skip: "k_remove_skipped_blocks k rid n = Inr k' \<Longrightarrow> kv_step env k k'"
| kv_evict: "(\<forall>i \<in> set ids. 0 \<le> i \<and> i < num_gpu_blocks (k_pool k)) \<Longrightarrow>
     k_evict_blocks env k ids = Inr k' \<Longrightarrow> kv_step env k k'"
| kv_reset: "k_reset_prefix_cache k = Inr (b, k') \<Longrightarrow> kv_step env k k'"
| kv_common: "k_num_common_prefix_blocks k rid = Inr (ns, k') \<Longrightarrow> kv_step env k k'"
| kv_events: "k_take_events k = (evs, k') \<Longrightarrow> kv_step env k k'"
| kv_cache: "cache_pre k r n \<Longrightarrow> k_cache_blocks env k r n = Inr (k', r') \<Longrightarrow> kv_step env k k'"
| kv_new_ids: "k_take_new_block_ids k = (ids, k') \<Longrightarrow> kv_step env k k'"
| kv_stats: "make_prefix_cache_stats k = (st, k') \<Longrightarrow> kv_step env k k'"
| kv_new_step: "kv_step env k (k_new_step_starts k)"

inductive kv_reachable :: "hash_env \<Rightarrow> kv_cache_manager \<Rightarrow> bool" for env where
  kv_start: "config_valid cfg caching dcp pcp hbs \<Longrightarrow>
     kv_cache_manager_init cfg max_len hbs batched caching eagle stats events dcp pcp = Inr k \<Longrightarrow> kv_reachable env k"
| kv_next: "kv_reachable env k \<Longrightarrow> kv_step env k k' \<Longrightarrow> kv_reachable env k'"

lemma kv_ok_stats [simp]: "kv_ok k \<Longrightarrow> kv_ok (k\<lparr>k_prefix_cache_stats := Some st\<rparr>)"
  by (simp add: kv_ok_def caching_ok_def)

lemma dicts_ok: "kv_ok k \<Longrightarrow> m \<in> set (single_type_managers (coordinator k)) \<Longrightarrow> dict_ok (req_to_blocks m)"
  by (auto simp: kv_ok_def coord_ok_def managers_inv_def manager_ok_def)

lemma map_quiet:
  "kv_ok k \<Longrightarrow> (\<And>m. dict_ok (req_to_blocks m) \<Longrightarrow> quiet m (f m)) \<Longrightarrow>
   list_all2 quiet (single_type_managers (coordinator k)) (map f (single_type_managers (coordinator k)))"
  using dicts_ok by (simp add: list_all2_map2 list_all2_same)

lemma num_common_over:
  "over_managers (\<lambda>i m p. let (k, m') = num_common_prefix_blocks m p rid in Inr (k, m', p)) i ms p
   = Inr (map (\<lambda>m. fst (num_common_prefix_blocks m p rid)) ms, map (\<lambda>m. snd (num_common_prefix_blocks m p rid)) ms, p)"
  by (induction ms arbitrary: i) (auto simp: case_prod_beta)

lemma k_num_common_ok:
  assumes "kv_ok k" and "k_num_common_prefix_blocks k rid = Inr (ns, k')"
  shows "kv_ok k'"
proof (cases "c_kind (coordinator k) = KVCacheCoordinatorNoPrefixCache")
  case True
  with assms show ?thesis by (auto simp: k_num_common_prefix_blocks_def coord_num_common_prefix_blocks_def)
next
  case False
  let ?f = "\<lambda>m. snd (num_common_prefix_blocks m (k_pool k) rid)"
  have "k' = k\<lparr>coordinator := with_managers (coordinator k) (map ?f (single_type_managers (coordinator k))) (k_pool k)\<rparr>"
    using assms(2) False
    by (auto simp: k_num_common_prefix_blocks_def coord_num_common_prefix_blocks_def num_common_over[unfolded Let_def])
  moreover have "quiet m (?f m)" if "dict_ok (req_to_blocks m)" for m
    using quiet_fields[OF that] by (simp add: num_common_prefix_blocks_def Let_def)
  ultimately show ?thesis
    using kv_ok_quiet[OF assms(1) map_quiet[OF assms(1), of ?f], of "coordinator k'"] by simp
qed

lemma pool_take_events_spec:
  assumes "pool_take_events p = (evs, p')"
  shows "pool_rep p fs \<Longrightarrow> pool_rep p' fs" "same_config p p'" "rc p' x = rc p x" "bh p' x = bh p x"
  using assms by (auto simp: pool_take_events_def pool_rep_def pool_blocks_def pool_free_def pool_cache_def same_config_def
      split: if_splits)



lemma k_reset_ok:
  assumes ok: "kv_ok k" and run: "k_reset_prefix_cache k = Inr (b, k')"
  shows "kv_ok k'"
proof -
  obtain b' p where p: "pool_reset_prefix_cache (k_pool k) = (b', p)" by (cases "pool_reset_prefix_cache (k_pool k)")
  obtain fs where "pool_rep (k_pool k) fs" using ok by (auto simp: kv_ok_def coord_ok_def managers_inv_def)
  note facts = pool_reset_spec[OF this p]
  have "kv_ok (k_set_pool k p)"
    using facts pool_reset_spec[OF _ p] by (intro kv_ok_pool[OF ok]) auto
  then show ?thesis
    using run p by (auto simp: k_reset_prefix_cache_def Let_def split: if_splits option.splits)
qed

lemma k_evict_ok:
  assumes ok: "kv_ok k" and ids: "\<forall>i \<in> set ids. 0 \<le> i \<and> i < num_gpu_blocks (k_pool k)"
    and run: "k_evict_blocks env k ids = Inr k'"
  shows "kv_ok k'"
proof -
  obtain p where p: "evict_blocks env (k_pool k) ids = Inr p" "k' = k_set_pool k p"
    using run by (auto simp: k_evict_blocks_def ebind_Inr_iff)
  have spec: "pool_rep p fs \<and> same_config (k_pool k) p \<and> (\<forall>x. rc p x = rc (k_pool k) x)
      \<and> (\<forall>x. bh p x = (if int x \<in> set ids then None else bh (k_pool k) x))" if "pool_rep (k_pool k) fs" for fs
    using evict_blocks_spec[OF that ids, of env] p(1) by auto
  obtain fs where "pool_rep (k_pool k) fs" using ok by (auto simp: kv_ok_def coord_ok_def managers_inv_def)
  from spec[OF this] have "kv_ok (k_set_pool k p)"
    using spec by (intro kv_ok_pool[OF ok]) auto
  with p(2) show ?thesis by simp
qed

lemma k_cache_ok:
  assumes ok: "kv_ok k" and pre: "cache_pre k r n"
  shows "\<exists>k' r'. k_cache_blocks env k r n = Inr (k', r') \<and> kv_ok k' \<and> memo_only r r'"
proof (cases "k_enable_caching k")
  case False
  with ok show ?thesis by (simp add: k_cache_blocks_def)
next
  case True
  have "m_class m \<noteq> CrossAttentionManager \<and> (\<exists>l. can_cache (k_pool k) m r n l)"
    if "m \<in> set (single_type_managers (coordinator k))" for m
    using covered_caches[OF ok True _ that, of r n 0 n] pre True by (simp add: cache_pre_def)
  then obtain c r' where c: "coord_cache_blocks env (coordinator k) r n = Inr (c, r')" "coord_ok c"
    "same_managers (coordinator k) c" "memo_only r r'"
    using coord_cache_blocks_ok[of "coordinator k" r n env] ok by (auto simp: kv_ok_def)
  with True kv_okI[OF ok c(2,3)] show ?thesis by (simp add: k_cache_blocks_def)
qed

lemma kv_step_ok:
  assumes "kv_step env k k'" and "kv_ok k"
  shows "kv_ok k'"
  using assms
proof cases
  case (kv_allocate r new ncomp arg look ext delay enc must_fit res r')
  with allocate_slots_ok[OF assms(2) kv_allocate(1), of env delay enc must_fit] show ?thesis by auto
next
  case (kv_get_computed r b n)
  with assms(2) show ?thesis
    by (auto simp: get_computed_blocks_def ebind_Inr_iff split: if_splits option.splits)
next
  case (kv_free r)
  with coord_free_ok[of "coordinator k" "request_id r"] kv_okI[OF assms(2)] assms(2) show ?thesis
    by (auto simp: k_free_def kv_ok_def)
next
  case (kv_skip rid n)
  with coord_remove_skipped_blocks_ok[of "coordinator k" rid n] kv_okI[OF assms(2)] assms(2) show ?thesis
    by (auto simp: k_remove_skipped_blocks_def kv_ok_def)
next
  case (kv_evict ids)
  with k_evict_ok[OF assms(2)] show ?thesis by blast
next
  case (kv_reset b)
  with k_reset_ok[OF assms(2)] show ?thesis by blast
next
  case (kv_common rid ns)
  with k_num_common_ok[OF assms(2)] show ?thesis by blast
next
  case (kv_events evs)
  obtain e p where p: "pool_take_events (k_pool k) = (e, p)" by (cases "pool_take_events (k_pool k)")
  with kv_events have "k' = k_set_pool k p" by (simp add: k_take_events_def)
  moreover have "kv_ok (k_set_pool k p)" using pool_take_events_spec[OF p] by (intro kv_ok_pool[OF assms(2)]) auto
  ultimately show ?thesis by simp
next
  case (kv_cache r n r')
  with k_cache_ok[OF assms(2) kv_cache(1), of env] show ?thesis by auto
next
  case (kv_new_ids ids)
  with quiet_fields kv_ok_quiet[OF assms(2) map_quiet[OF assms(2), of "\<lambda>m. m\<lparr>new_block_ids := []\<rparr>"]] show ?thesis
    by (auto simp: k_take_new_block_ids_def Let_def take_new_block_ids_def comp_def)
next
  case (kv_stats st)
  with assms(2) show ?thesis by (auto simp: make_prefix_cache_stats_def split: if_splits)
next
  case kv_new_step
  have "quiet m (new_step_starts m)" if "dict_ok (req_to_blocks m)" for m
    using quiet_fields[OF that] by (simp add: new_step_starts_def)
  with kv_new_step kv_ok_quiet[OF assms(2) map_quiet[OF assms(2), of new_step_starts]] show ?thesis
    by (simp add: k_new_step_starts_def coord_new_step_starts_def)
qed

lemma kv_reachable_ok: "kv_reachable env k \<Longrightarrow> kv_ok k"
  by (induction rule: kv_reachable.induct) (auto intro: kv_cache_manager_init_ok kv_step_ok)

end
