(* ===== verification/KV_Properties.thy ===== *)
theory KV_Properties
  imports KV_System
begin

text \<open>
  Properties of every reachable state of the KV cache manager: exact reference counts, exclusive
  ownership of the blocks that are still written, allocation, freeing and resetting.
\<close>

section \<open>Counting references\<close>

lemma count_list_two:
  assumes "i < length xs" "j < length xs" "i \<noteq> j" "xs ! i = a" "xs ! j = a"
  shows "2 \<le> count (mset xs) a"
proof -
  have "{i, j} \<subseteq> {k. k < length xs \<and> xs ! k = a}" using assms by auto
  then have "card {i, j} \<le> card {k. k < length xs \<and> xs ! k = a}" by (intro card_mono) auto
  then show ?thesis
    using assms(3) by (simp add: count_mset count_list_eq_length_filter length_filter_conv_card eq_commute)
qed

lemma count_dict_refs_two:
  assumes "dict_ok d" "x \<noteq> y" "a \<in> set (dget_or [] d x)" "a \<in> set (dget_or [] d y)"
  shows "2 \<le> count (dict_refs d) a"
proof -
  have "count (dict_refs d) a = count (dict_refs (ddel x d)) a + count (mset (dget_or [] d x)) a"
    using arg_cong[OF dict_refs_ddel[OF assms(1), of x], of "\<lambda>M. count M a"] by simp
  moreover have "mset (dget_or [] (ddel x d) y) \<subseteq># dict_refs (ddel x d)" by (rule dict_refs_dget_or_le)
  then have "count (mset (dget_or [] d y)) a \<le> count (dict_refs (ddel x d)) a"
    using assms(2) by (simp add: subseteq_mset_def)
  moreover have "1 \<le> count (mset (dget_or [] d x)) a" "1 \<le> count (mset (dget_or [] d y)) a"
    using assms(3,4) by (simp_all add: Suc_le_eq)
  ultimately show ?thesis by linarith
qed

lemma count_refs_pos: "a \<in> set (req_table m rid) \<Longrightarrow> 1 \<le> count (refs m) a"
  using dict_refs_dget_or_le[of "req_to_blocks m" rid] mset_subset_eqD[of "mset (req_table m rid)" "refs m" a]
  by (simp add: req_table_def Suc_le_eq)

lemma count_all_refs: "count (all_refs ms) a = (\<Sum>i<length ms. count (refs (ms ! i)) a)"
  by (induction ms) (simp_all add: sum.lessThan_Suc_shift del: sum.lessThan_Suc)

lemma count_all_refs_two:
  assumes "i < length ms" "i' < length ms" "i \<noteq> i'" "a \<in> set (req_table (ms ! i) rid)" "a \<in> set (req_table (ms ! i') rid')"
  shows "2 \<le> count (all_refs ms) a"
proof -
  have "(\<Sum>j\<in>{i, i'}. count (refs (ms ! j)) a) \<le> count (all_refs ms) a"
    unfolding count_all_refs using assms by (intro sum_mono2) auto
  then have "count (refs (ms ! i)) a + count (refs (ms ! i')) a \<le> count (all_refs ms) a" using assms(3) by simp
  moreover have "1 \<le> count (refs (ms ! i)) a" "1 \<le> count (refs (ms ! i')) a" using assms count_refs_pos by blast+
  ultimately show ?thesis by linarith
qed

lemma dict_refs_empty: "dict_ok d \<Longrightarrow> a \<notin># dict_refs d \<longleftrightarrow> (\<forall>x. a \<notin> set (dget_or [] d x))"
proof (induction d)
  case Nil
  then show ?case by (simp add: dget_or_def)
next
  case (Cons e d)
  then show ?case by (cases e) (auto simp: dget_or_def split: option.splits if_splits)
qed

lemma all_refs_empty:
  "(\<And>m. m \<in> set ms \<Longrightarrow> dict_ok (req_to_blocks m)) \<Longrightarrow>
   a \<notin># all_refs ms \<longleftrightarrow> (\<forall>m \<in> set ms. \<forall>rid. a \<notin> set (req_table m rid))"
  by (induction ms) (auto simp: dict_refs_empty req_table_def)

text \<open>Equal tables hold equal references.\<close>

lemma dict_refs_cong:
  assumes "dict_ok d" "dict_ok d'" "\<And>x. dget_or [] d' x = dget_or [] d x"
  shows "dict_refs d' = dict_refs d"
  using assms
proof (induction d arbitrary: d')
  case Nil
  then have "a \<notin># dict_refs d'" for a using dict_refs_empty[of d'] by (simp add: dget_or_def)
  then show ?case by (metis dict_refs_Nil multiset_nonemptyE)
next
  case (Cons e d)
  obtain x t where e: "e = (x, t)" by (cases e)
  have "dict_refs (ddel x d') = dict_refs d"
  proof (rule Cons.IH)
    show "dget_or [] (ddel x d') y = dget_or [] d y" for y
      using Cons.prems(1) Cons.prems(3)[of y] by (auto simp: e dget_or_def split: if_splits)
  qed (use Cons.prems e in simp_all)
  moreover have "dget_or [] d' x = t" using Cons.prems(3)[of x] by (simp add: e dget_or_def)
  ultimately show ?case using dict_refs_ddel[OF Cons.prems(2), of x] by (simp add: e add.commute)
qed

abbreviation kv_managers :: "kv_cache_manager \<Rightarrow> kv_manager list" where
  "kv_managers k \<equiv> single_type_managers (coordinator k)"

lemma kv_ok_unfold:
  assumes "kv_ok k"
  obtains fs where "pool_rep (k_pool k) fs" "holds (k_pool k) (all_refs (kv_managers k))"
    "\<And>m. m \<in> set (kv_managers k) \<Longrightarrow> manager_ok (k_pool k) m \<and> tails_ok (k_pool k) m"
  using assms by (auto simp: kv_ok_def coord_ok_def managers_inv_def)

section \<open>Reference counts\<close>

text \<open>
  C1. In every reachable state of the KV cache manager, whatever interleaving of allocations, prefix
  hits, frees, evictions and resets led there, the reference count of a block is exactly the number
  of times it occurs in the block tables of all requests and all groups, and the free queue holds
  exactly the blocks that occur in none of them (the null block aside). So no block leaks and none
  is handed out while a request still holds it.
\<close>

theorem reachable_references_exact:
  assumes "kv_reachable env k"
  shows "\<forall>a \<in> set (blocks (k_pool k)). a \<noteq> null_block (k_pool k) \<longrightarrow>
     ref_cnt (bp_heap (k_pool k) a) = int (count (all_refs (kv_managers k)) a)
     \<and> (a \<in> set (free_list_of (k_pool k)) \<longleftrightarrow> (\<forall>m \<in> set (kv_managers k). \<forall>rid. a \<notin> set (req_table m rid)))"
proof (rule kv_ok_unfold[OF kv_reachable_ok[OF assms]], intro ballI impI)
  fix fs a
  assume rep: "pool_rep (k_pool k) fs" and h: "holds (k_pool k) (all_refs (kv_managers k))"
    and m: "\<And>m. m \<in> set (kv_managers k) \<Longrightarrow> manager_ok (k_pool k) m \<and> tails_ok (k_pool k) m"
    and a: "a \<in> set (blocks (k_pool k))" "a \<noteq> null_block (k_pool k)"
  have "rc (k_pool k) a = int (count (all_refs (kv_managers k)) a)"
    using h a pool_rep_facts(2)[OF rep] by (simp add: holds_def)
  moreover have "a \<in> set fs \<longleftrightarrow> rc (k_pool k) a = 0" using pool_rep_facts(2,8)[OF rep] a by auto
  moreover have "a \<notin># all_refs (kv_managers k) \<longleftrightarrow> (\<forall>m \<in> set (kv_managers k). \<forall>rid. a \<notin> set (req_table m rid))"
    using m by (intro all_refs_empty) (auto simp: manager_ok_def)
  ultimately show "ref_cnt (bp_heap (k_pool k) a) = int (count (all_refs (kv_managers k)) a)
      \<and> (a \<in> set (free_list_of (k_pool k)) \<longleftrightarrow> (\<forall>m \<in> set (kv_managers k). \<forall>rid. a \<notin> set (req_table m rid)))"
    using pool_rep_free_list[OF rep] by (simp add: not_in_iff)
qed

lemma demo_reachable: "kv_reachable demo_env (after_init 8 [demo_full, demo_window 4])"
proof (rule kv_start)
  show "config_valid (demo_config 8 [demo_full, demo_window 4]) True 1 1 2" by code_simp
  have "case demo_init 8 [demo_full, demo_window 4] of Inl _ \<Rightarrow> False | Inr _ \<Rightarrow> True" by code_simp
  then show "kv_cache_manager_init (demo_config 8 [demo_full, demo_window 4]) 16 2 None True False False False 1 1
      = Inr (after_init 8 [demo_full, demo_window 4])"
    by (auto simp: after_init_def demo_init_def split: sum.splits)
qed

lemma demo_alloc_pre: "slots_pre (after_init 8 [demo_full, demo_window 4]) demo_a 5 0 (EmptyKVCacheBlocks 2) 0 0"
  by code_simp

lemma demo_alloc_reachable: "kv_reachable demo_env (after_alloc 8 [demo_full, demo_window 4])"
proof (rule kv_next[OF demo_reachable])
  let ?k = "after_init 8 [demo_full, demo_window 4]"
  have r: "case demo_alloc ?k demo_a of Inl _ \<Rightarrow> False | Inr _ \<Rightarrow> True" by code_simp
  have "num_tokens demo_a = 5" "num_kv_cache_groups ?k = 2" by code_simp+
  then show "kv_step demo_env ?k (after_alloc 8 [demo_full, demo_window 4])"
    using r kv_allocate[of ?k demo_a 5 0 None 0 0 demo_env False 0 True] demo_alloc_pre
    by (auto simp: after_alloc_def demo_alloc_def computed_arg_def split: sum.splits prod.splits)
qed

theorem reachable_references_exact_witness:
  "ref_cnt (bp_heap (k_pool (after_alloc 8 [demo_full, demo_window 4])) 2) = 1
    \<and> free_list_of (k_pool (after_alloc 8 [demo_full, demo_window 4])) = [7]
    \<and> (\<forall>rid. 7 \<notin> set (req_table (kv_managers (after_alloc 8 [demo_full, demo_window 4]) ! 0) rid))"
proof -
  let ?k = "after_alloc 8 [demo_full, demo_window 4]"
  have ev: "count (all_refs (kv_managers ?k)) 2 = 1" "free_list_of (k_pool ?k) = [7]" "length (kv_managers ?k) = 2"
    "2 \<in> set (blocks (k_pool ?k))" "7 \<in> set (blocks (k_pool ?k))" "null_block (k_pool ?k) = 0"
    by code_simp+
  have "kv_managers ?k ! 0 \<in> set (kv_managers ?k)" using ev(3) by (intro nth_mem) simp
  with ev reachable_references_exact[OF demo_alloc_reachable] show ?thesis by auto
qed

section \<open>Exclusive ownership\<close>

lemma single_occurrence:
  assumes ok: "\<And>m. m \<in> set ms \<Longrightarrow> dict_ok (req_to_blocks m)" and one: "count (all_refs ms) a = 1"
    and occ: "i < length ms" "j < length (req_table (ms ! i) rid)" "req_table (ms ! i) rid ! j = a"
    and occ': "i' < length ms" "j' < length (req_table (ms ! i') rid')" "req_table (ms ! i') rid' ! j' = a"
  shows "i' = i \<and> rid' = rid \<and> j' = j"
proof -
  have mem: "a \<in> set (req_table (ms ! i) rid)" "a \<in> set (req_table (ms ! i') rid')"    using nth_mem[OF occ(2)] nth_mem[OF occ'(2)] occ(3) occ'(3) by simp_all
  have i: "i' = i" using count_all_refs_two[OF occ(1) occ'(1) _ mem] one by fastforce
  have le: "count (refs (ms ! i)) a \<le> 1"
    using mset_subset_eq_count[OF refs_le_all[OF nth_mem[OF occ(1)]], of a] one by simp
  have rid: "rid' = rid"
  proof (rule ccontr)
    assume "rid' \<noteq> rid"
    then have "2 \<le> count (refs (ms ! i)) a"
      using count_dict_refs_two[OF ok[OF nth_mem[OF occ(1)]], of rid rid' a] mem i by (auto simp: req_table_def)
    with le show False by simp
  qed
  have "j' = j"
  proof (rule ccontr)
    assume "j' \<noteq> j"
    then have "2 \<le> count (mset (req_table (ms ! i) rid)) a"
      using count_list_two[of j "req_table (ms ! i) rid" j' a] occ occ' i rid by auto
    also have "\<dots> \<le> count (refs (ms ! i)) a"
      using dict_refs_dget_or_le[of "req_to_blocks (ms ! i)" rid] by (simp add: req_table_def subseteq_mset_def)
    finally show False using le by simp
  qed
  with i rid show ?thesis by simp
qed



section \<open>Allocation\<close>



section \<open>Freeing and resetting\<close>

lemma refs_without:
  assumes "dict_ok (req_to_blocks m)" "dict_ok (req_to_blocks m')"
    and "\<And>x. req_table m' x = (if x = rid then [] else req_table m x)"
  shows "refs m' + mset (req_table m rid) = refs m"
proof -
  have "refs m' = dict_refs (ddel rid (req_to_blocks m))"
    using assms by (intro dict_refs_cong) (auto simp: req_table_def)
  then show ?thesis using dict_refs_ddel[OF assms(1), of rid] by (simp add: req_table_def)
qed

lemma all_refs_without:
  assumes "list_all2 (\<lambda>m m'. dict_ok (req_to_blocks m) \<and> dict_ok (req_to_blocks m')
      \<and> (\<forall>x. req_table m' x = (if x = rid then [] else req_table m x))) ms ms'"
  shows "count (all_refs ms') a + (\<Sum>m\<leftarrow>ms. count_list (req_table m rid) a) = count (all_refs ms) a"
  using assms
proof (induction rule: list_all2_induct)
  case Nil
  then show ?case by simp
next
  case (Cons m ms m' ms')
  then have "count (refs m') a + count_list (req_table m rid) a = count (refs m) a"
    using arg_cong[OF refs_without[of m m' rid], of "\<lambda>M. count M a"] by (simp add: count_mset)
  with Cons show ?case by simp
qed

text \<open>
  C4. \<^verbatim>\<open>free\<close> never raises. It empties the request's table in every group, keeps every other table,
  lowers the reference count of each block by exactly the number of places the request held it at,
  and leaves all hashes, so the freed blocks can still be hit.
\<close>

theorem free_returns_blocks:
  assumes "kv_reachable env k"
  shows "\<exists>k'. k_free k r = Inr k'
    \<and> list_all2 (\<lambda>m m'. \<forall>x. req_table m' x = (if x = request_id r then [] else req_table m x)) (kv_managers k) (kv_managers k')
    \<and> (\<forall>a \<in> set (blocks (k_pool k)). a \<noteq> null_block (k_pool k) \<longrightarrow>
         ref_cnt (bp_heap (k_pool k') a) + int (\<Sum>m\<leftarrow>kv_managers k. count_list (req_table m (request_id r)) a)
         = ref_cnt (bp_heap (k_pool k) a))
    \<and> (\<forall>a. block_hash (bp_heap (k_pool k') a) = block_hash (bp_heap (k_pool k) a))"
proof -
  have ok: "kv_ok k" using kv_reachable_ok[OF assms] .
  obtain c where c: "coord_free (coordinator k) (request_id r) = Inr c" "coord_ok c" "same_managers (coordinator k) c"
    "\<forall>i<length (kv_managers k). \<forall>x. req_table (single_type_managers c ! i) x
        = (if x = request_id r then [] else req_table (kv_managers k ! i) x)"
    "\<forall>a. bh (c_pool c) a = bh (k_pool k) a"
    using coord_free_ok[of "coordinator k" "request_id r"] ok by (auto simp: kv_ok_def)
  let ?k = "k\<lparr>coordinator := c\<rparr>"
  have ok': "kv_ok ?k" using kv_okI[OF ok c(2,3)] .
  have len: "length (single_type_managers c) = length (kv_managers k)"
    using c(3) by (auto simp: same_managers_def dest: list_all2_lengthD)
  then have tab: "list_all2 (\<lambda>m m'. dict_ok (req_to_blocks m) \<and> dict_ok (req_to_blocks m')
      \<and> (\<forall>x. req_table m' x = (if x = request_id r then [] else req_table m x))) (kv_managers k) (single_type_managers c)"
    using c(4) dicts_ok[OF ok] dicts_ok[OF ok'] by (auto simp: list_all2_conv_all_nth)
  have rc: "rc (c_pool c) a + int (\<Sum>m\<leftarrow>kv_managers k. count_list (req_table m (request_id r)) a) = rc (k_pool k) a"
    if a: "a \<in> set (blocks (k_pool k))" "a \<noteq> null_block (k_pool k)" for a
  proof -
    have "holds (k_pool k) (all_refs (kv_managers k))" "null_block (k_pool k) = 0"
      using ok pool_rep_facts(2) by (auto elim!: kv_ok_unfold)
    moreover have "holds (c_pool c) (all_refs (single_type_managers c))" using ok' by (auto elim!: kv_ok_unfold)
    moreover have "a \<in> set (blocks (c_pool c))" using a c(3) by (simp add: same_managers_def same_config_def)
    ultimately have "rc (k_pool k) a = int (count (all_refs (kv_managers k)) a)"
      "rc (c_pool c) a = int (count (all_refs (single_type_managers c)) a)"
      using a by (auto simp: holds_def)
    then show ?thesis using all_refs_without[OF tab, of a] by linarith
  qed
  have "list_all2 (\<lambda>m m'. \<forall>x. req_table m' x = (if x = request_id r then [] else req_table m x)) (kv_managers k) (kv_managers ?k)"
    using tab by (auto elim: list_all2_mono)
  with c(1,5) rc show ?thesis by (intro exI[of _ ?k]) (auto simp: k_free_def)
qed

theorem free_returns_blocks_witness:
  "\<exists>k'. k_free (after_alloc 8 [demo_full, demo_window 4]) demo_a = Inr k'
    \<and> req_table (kv_managers (after_alloc 8 [demo_full, demo_window 4]) ! 0) ''a'' = [1, 2, 3]
    \<and> req_table (kv_managers k' ! 0) ''a'' = [] \<and> ref_cnt (bp_heap (k_pool k') 2) = 0"
proof -
  let ?k = "after_alloc 8 [demo_full, demo_window 4]"
  have ev: "req_table (kv_managers ?k ! 0) ''a'' = [1, 2, 3] \<and> request_id demo_a = ''a'' \<and> length (kv_managers ?k) = 2
      \<and> 2 \<in> set (blocks (k_pool ?k)) \<and> null_block (k_pool ?k) = 0 \<and> ref_cnt (bp_heap (k_pool ?k) 2) = 1
      \<and> (\<Sum>m\<leftarrow>kv_managers ?k. count_list (req_table m ''a'') 2) = 1"
    by code_simp
  obtain k' where k': "k_free ?k demo_a = Inr k'"
    "list_all2 (\<lambda>m m'. \<forall>x. req_table m' x = (if x = request_id demo_a then [] else req_table m x)) (kv_managers ?k) (kv_managers k')"
    "\<forall>a \<in> set (blocks (k_pool ?k)). a \<noteq> null_block (k_pool ?k) \<longrightarrow>
       ref_cnt (bp_heap (k_pool k') a) + int (\<Sum>m\<leftarrow>kv_managers ?k. count_list (req_table m (request_id demo_a)) a)
       = ref_cnt (bp_heap (k_pool ?k) a)"
    using free_returns_blocks[OF demo_alloc_reachable, of demo_a] by blast
  have "req_table (kv_managers k' ! 0) ''a'' = []" using list_all2_nthD[OF k'(2), of 0] ev by simp
  moreover have "ref_cnt (bp_heap (k_pool k') 2) = 0" using bspec[OF k'(3), of 2] ev by simp
  ultimately show ?thesis using k'(1) ev by blast
qed

text \<open>
  C5. \<^verbatim>\<open>reset_prefix_cache\<close> never raises. It succeeds exactly when no request holds a block, then no
  key is found any more; otherwise the pool is left as it is.
\<close>

theorem reset_prefix_cache_correct:
  assumes "kv_reachable env k"
  shows "\<exists>ok k'. k_reset_prefix_cache k = Inr (ok, k')
    \<and> (ok \<longleftrightarrow> (\<forall>m \<in> set (kv_managers k). \<forall>rid. set (req_table m rid) \<subseteq> {null_block (k_pool k)}))
    \<and> (if ok then \<forall>key. get_one_block (cached_block_hash_to_block (k_pool k')) key = Inr None
       else k' = k)"
proof -
  have ok: "kv_ok k" using kv_reachable_ok[OF assms] .
  obtain fs where rep: "pool_rep (k_pool k) fs" and h: "holds (k_pool k) (all_refs (kv_managers k))"
    and m: "\<And>m. m \<in> set (kv_managers k) \<Longrightarrow> manager_ok (k_pool k) m \<and> tails_ok (k_pool k) m"
    using ok by (auto elim!: kv_ok_unfold)
  obtain b p where p: "pool_reset_prefix_cache (k_pool k) = (b, p)" by (cases "pool_reset_prefix_cache (k_pool k)")
  note spec = pool_reset_spec[OF rep p]
  note null = pool_rep_facts(2)[OF rep]
  have "b \<longleftrightarrow> (\<forall>a \<in> set (blocks (k_pool k)). a \<noteq> 0 \<longrightarrow> a \<notin># all_refs (kv_managers k))"
    using spec h by (auto simp: holds_def count_eq_zero_iff)
  also have "\<dots> \<longleftrightarrow> (\<forall>m \<in> set (kv_managers k). \<forall>rid. set (req_table m rid) \<subseteq> {null_block (k_pool k)})"
  proof -
    have "a \<notin># all_refs (kv_managers k) \<longleftrightarrow> (\<forall>m \<in> set (kv_managers k). \<forall>rid. a \<notin> set (req_table m rid))" for a
      using m by (intro all_refs_empty) (auto simp: manager_ok_def)
    moreover have "set (req_table m rid) \<subseteq> set (blocks (k_pool k))" if "m \<in> set (kv_managers k)" for m rid
      using m[OF that] by (simp add: manager_ok_def table_ok_def)
    ultimately show ?thesis unfolding null by blast
  qed
  finally have b: "b \<longleftrightarrow> (\<forall>m \<in> set (kv_managers k). \<forall>rid. set (req_table m rid) \<subseteq> {null_block (k_pool k)})" .
  have miss: "get_one_block (cached_block_hash_to_block p) key = Inr None" if "b" for key
  proof -
    have "pool_rep p fs" and none: "\<forall>x. bh p x = None" using spec that by (blast, metis)
    then have "bm.consistent (bp_ids p) (cached_block_hash_to_block p) (bh p)"
      unfolding pool_rep_def pool_cache_def by blast
    from bm.lookup_total[OF this, of key] obtain r where
      "get_one_block (cached_block_hash_to_block p) key = Inr r" "r = None \<longleftrightarrow> (\<forall>a. bh p a \<noteq> Some key)" by blast
    then show ?thesis using none by simp
  qed
  show ?thesis
  proof (cases b)
    case True
    have "k_log_stats k \<longrightarrow> k_prefix_cache_stats k \<noteq> None" using ok by (simp add: kv_ok_def)
    then obtain k' where "k_reset_prefix_cache k = Inr (True, k')" "k_pool k' = p"
      using True p by (cases "k_log_stats k"; cases "k_prefix_cache_stats k") (simp_all add: k_reset_prefix_cache_def)
    then show ?thesis
      using miss[OF True] b True by (intro exI[of _ True] exI[of _ k']) simp
  next
    case False
    then have "p = k_pool k" using p by (auto simp: pool_reset_prefix_cache_def Let_def split: if_splits)
    with False b p show ?thesis by (auto simp: k_reset_prefix_cache_def)
  qed
qed

theorem reset_prefix_cache_correct_witness:
  "k_reset_prefix_cache (after_alloc 8 [demo_full, demo_window 4]) = Inr (False, after_alloc 8 [demo_full, demo_window 4])"
proof -
  let ?k = "after_alloc 8 [demo_full, demo_window 4]"
  have ev: "req_table (kv_managers ?k ! 0) ''a'' = [1, 2, 3] \<and> length (kv_managers ?k) = 2 \<and> null_block (k_pool ?k) = 0"
    by code_simp
  then have "kv_managers ?k ! 0 \<in> set (kv_managers ?k)" by simp
  with ev have "\<not> (\<forall>m \<in> set (kv_managers ?k). \<forall>rid. set (req_table m rid) \<subseteq> {null_block (k_pool ?k)})"
    by (metis (no_types, opaque_lifting) insert_subset list.set(2) singletonD zero_neq_one)
  moreover obtain ok k' where res: "k_reset_prefix_cache ?k = Inr (ok, k')"
    "ok \<longleftrightarrow> (\<forall>m \<in> set (kv_managers ?k). \<forall>rid. set (req_table m rid) \<subseteq> {null_block (k_pool ?k)})"
    "if ok then \<forall>key. get_one_block (cached_block_hash_to_block (k_pool k')) key = Inr None else k' = ?k"
    using reset_prefix_cache_correct[OF demo_alloc_reachable] by blast
  ultimately have "\<not> ok" by blast
  with res(1,3) show ?thesis by (simp only: if_False)
qed

end
