(* ===== verification/Cache_Hits.thy ===== *)
theory Cache_Hits
  imports Coordinator Manager_Inv
begin

text \<open>
  The longest cache hit. Every manager returns, for each of its groups, a list of blocks in which
  the blocks the next token still attends to carry the hash of their position; blocks before may be
  the null block. The hit never exceeds the requested length and is aligned. Full attention returns
  the longest such prefix. The fixed point search of the hybrid coordinator ends.
\<close>

declare pop_until_aligned.simps [simp del]

section \<open>Looking one hash up\<close>

definition all_cached :: "block_pool \<Rightarrow> int list \<Rightarrow> bytes \<Rightarrow> bool" where
  "all_cached p gs x \<longleftrightarrow> (\<forall>g \<in> set gs. \<exists>a. bh p a = Some (block_key g x))"

definition keyed :: "block_pool \<Rightarrow> int list \<Rightarrow> bytes \<Rightarrow> addr list \<Rightarrow> bool" where
  "keyed p gs x bs \<longleftrightarrow> list_all2 (\<lambda>g a. bh p a = Some (block_key g x)) gs bs"

definition searchable :: "block_pool \<Rightarrow> int list \<Rightarrow> bool" where
  "searchable p gs \<longleftrightarrow> (\<exists>fs. pool_rep p fs) \<and> (\<forall>g \<in> set gs. group_ok g) \<and> gs \<noteq> []"

lemma keyed_all: "keyed p gs x bs \<Longrightarrow> all_cached p gs x"
  unfolding keyed_def all_cached_def list_all2_conv_all_nth by (metis in_set_conv_nth)

lemma cached_at_spec:
  assumes "searchable p gs"
  obtains (miss) "cached_at p gs x = Inr None" "\<not> all_cached p gs x"
    | (hit) bs where "cached_at p gs x = Inr (Some bs)" "keyed p gs x bs"
proof -
  from assms obtain fs where rep: "pool_rep p fs" and gs: "\<forall>g \<in> set gs. group_ok g" "gs \<noteq> []"
    by (auto simp: searchable_def)
  obtain res where res: "get_cached_block p x gs = Inr res"
    "case res of None \<Rightarrow> \<exists>g \<in> set gs. \<forall>a. bh p a \<noteq> Some (block_key g x)
     | Some bs \<Rightarrow> list_all2 (\<lambda>g a. bh p a = Some (block_key g x)) gs bs"
    using get_cached_block_spec[OF rep gs(1), of x] by blast
  show thesis
  proof (cases res)
    case None
    with res show thesis by (intro miss) (auto simp: cached_at_def all_cached_def)
  next
    case (Some bs)
    with res(2) gs(2) have "bs \<noteq> []" by auto
    with Some res show thesis by (intro hit[of bs]) (auto simp: cached_at_def keyed_def split: list.splits)
  qed
qed

lemma hashes_nth_list: "i < length (hashes_list l) \<Longrightarrow> hashes_nth l (int i) = Inr (hashes_list l ! i)"
  by (cases l) (auto simp: hashes_list_def hashes_from_def hashes_nth_def py_nth_nat bhl_from_def)

section \<open>Hit lists\<close>

text \<open>
  \<open>hit_ok p g hs s n h\<close>: a list of \<open>n\<close> blocks in which block \<open>j\<close> carries the hash of position \<open>j\<close> for
  group \<open>g\<close>, or is the null block before position \<open>s\<close>. \<open>hits_ok\<close> says so of every group.
\<close>

definition hit_ok :: "block_pool \<Rightarrow> bytes list \<Rightarrow> nat \<Rightarrow> nat \<Rightarrow> int \<Rightarrow> addr list \<Rightarrow> bool" where
  "hit_ok p hs s n g h \<longleftrightarrow> length h = n
     \<and> (\<forall>j < n. h ! j = null_block p \<and> j < s \<or> bh p (h ! j) = Some (block_key g (hs ! j)))"

definition hits_ok :: "block_pool \<Rightarrow> int list \<Rightarrow> bytes list \<Rightarrow> nat \<Rightarrow> nat \<Rightarrow> hits \<Rightarrow> bool" where
  "hits_ok p gs hs s n hits \<longleftrightarrow> n \<le> length hs \<and> list_all2 (hit_ok p hs s n) gs hits"

lemma hit_ok_take: "hit_ok p hs s n g h \<Longrightarrow> k \<le> n \<Longrightarrow> hit_ok p hs s k g (take k h)"
  by (simp add: hit_ok_def)

lemma hit_ok_mono: "hit_ok p hs s n g h \<Longrightarrow> s \<le> s' \<Longrightarrow> hit_ok p hs s' n g h"
  unfolding hit_ok_def by (meson order_less_le_trans)

lemma hit_ok_snoc:
  "hit_ok p hs s n g h \<Longrightarrow> bh p a = Some (block_key g (hs ! n)) \<Longrightarrow> hit_ok p hs s (Suc n) g (h @ [a])"
  by (simp add: hit_ok_def nth_append less_Suc_eq)

lemma hits_ok_take:
  assumes "hits_ok p gs hs s n hits" and "k \<le> n"
  shows "hits_ok p gs hs s k (map (take k) hits)"
  using assms hit_ok_take[OF _ assms(2)] by (auto simp: hits_ok_def list_all2_map2 elim!: list_all2_mono)

lemma hits_ok_mono: "hits_ok p gs hs s n hits \<Longrightarrow> s \<le> s' \<Longrightarrow> hits_ok p gs hs s' n hits"
  using hit_ok_mono by (auto simp: hits_ok_def elim!: list_all2_mono)

lemma hits_ok_length:
  assumes "hits_ok p gs hs s n hits"
  shows "length hits = length gs" "h \<in> set hits \<Longrightarrow> length h = n"
  using assms by (auto simp: hits_ok_def hit_ok_def list_all2_conv_all_nth in_set_conv_nth)

lemma hits_ok_butlast: "hits_ok p gs hs s n hits \<Longrightarrow> map butlast hits = map (take (n - 1)) hits"
  using hits_ok_length(2) by (auto simp: butlast_conv_take)

lemma hits_ok_replicate: "s \<le> length hs \<Longrightarrow> hits_ok p gs hs s s (replicate (length gs) (replicate s (null_block p)))"
  by (simp add: hits_ok_def hit_ok_def list_all2_conv_all_nth)

lemma append_hit_ok:
  assumes hits: "hits_ok p gs hs s n hits" and n: "n < length hs" and key: "keyed p gs (hs ! n) bs"
  shows "hits_ok p gs hs s (Suc n) (append_hit hits bs)"
proof -
  have len: "length hits = length gs" "length bs = length gs"
    using hits key by (auto simp: hits_ok_def keyed_def dest: list_all2_lengthD)
  have "list_all2 (hit_ok p hs s (Suc n)) gs (append_hit hits bs)"
  proof (rule list_all2_all_nthI)
    fix i assume i: "i < length gs"
    have "append_hit hits bs ! i = hits ! i @ [bs ! i]" using i len by (simp add: append_hit_def)
    then show "hit_ok p hs s (Suc n) (gs ! i) (append_hit hits bs ! i)"
      using hits key i by (simp add: hits_ok_def keyed_def list_all2_conv_all_nth hit_ok_snoc)
  qed (simp add: append_hit_def len)
  with n show ?thesis by (simp add: hits_ok_def)
qed

text \<open>The length after dropping blocks until it is aligned.\<close>

fun aligned_len :: "int \<Rightarrow> int \<Rightarrow> nat \<Rightarrow> nat" where
  "aligned_len bs al 0 = 0"
| "aligned_len bs al (Suc n) =
     (if bs = al \<or> int (Suc n) * bs mod al = 0 then Suc n else aligned_len bs al n)"

lemma aligned_len_le: "aligned_len bs al n \<le> n"
  by (induction n) auto

lemma aligned_len_aligned: "bs = al \<or> int (aligned_len bs al n) * bs mod al = 0"
  by (induction n) auto

lemma aligned_len_greatest:
  "k \<le> n \<Longrightarrow> bs = al \<or> int k * bs mod al = 0 \<Longrightarrow> k \<le> aligned_len bs al n"
  by (induction n) (auto simp: le_Suc_eq)

lemma aligned_len_same: "bs = al \<or> int n * bs mod al = 0 \<Longrightarrow> aligned_len bs al n = n"
  by (cases n) auto

lemma pop_until_aligned_spec:
  assumes "hits \<noteq> []" and "\<And>h. h \<in> set hits \<Longrightarrow> length h = n"
  shows "pop_until_aligned bs al hits = Inr (map (take (aligned_len bs al n)) hits)"
  using assms
proof (induction n arbitrary: hits)
  case 0
  then obtain c cs where c: "hits = c # cs" by (cases hits) auto
  with 0 have "c = []" by simp
  moreover have "map (take 0) hits = hits" using 0(2) by (intro map_idI) force
  ultimately show ?case by (simp add: c pop_until_aligned.simps)
next
  case (Suc n)
  then obtain c cs where c: "hits = c # cs" by (cases hits) auto
  have b: "butlast h = take n h" if "h \<in> set hits" for h using Suc.prems(2)[OF that] by (simp add: butlast_conv_take)
  show ?case
  proof (cases "bs = al \<or> int (Suc n) * bs mod al = 0")
    case True
    have "take (Suc n) h = h" if "h \<in> set hits" for h using Suc.prems(2)[OF that] by simp
    then have "map (take (Suc n)) hits = hits" by (simp add: map_idI)
    with True Suc.prems(2)[of c] show ?thesis
      unfolding c by (subst pop_until_aligned.simps) auto
  next
    case False
    have "pop_until_aligned bs al hits = pop_until_aligned bs al (map (take n) hits)"
      using False Suc.prems(2)[of c] b unfolding c
      by (subst pop_until_aligned.simps) (simp cong: map_cong)
    also have "\<dots> = Inr (map (take (aligned_len bs al n)) (map (take n) hits))"
      using c Suc.prems(2) by (intro Suc.IH) auto
    also have "\<dots> = Inr (map (take (aligned_len bs al (Suc n))) hits)"
      using False aligned_len_le[of bs al n] by (simp add: min_absorb1)
    finally show ?thesis .
  qed
qed

section \<open>Full attention\<close>

lemma full_scan_spec:
  assumes "searchable p gs" and "hits_ok p gs (pre @ hs) s (length pre) acc"
  shows "\<exists>hits. full_scan p gs hs acc = Inr hits
    \<and> hits_ok p gs (pre @ hs) s (length pre + length (takeWhile (all_cached p gs) hs)) hits"
  using assms(2)
proof (induction hs arbitrary: pre acc)
  case Nil
  then show ?case by simp
next
  case (Cons x hs)
  show ?case
  proof (cases rule: cached_at_spec[OF assms(1), of x, case_names miss hit])
    case miss
    with Cons.prems show ?thesis by simp
  next
    case (hit bs)
    have "hits_ok p gs ((pre @ [x]) @ hs) s (length (pre @ [x])) (append_hit acc bs)"
      using append_hit_ok[OF Cons.prems, of bs] hit(2) by simp
    from Cons.IH[OF this] hit keyed_all[OF hit(2)] show ?thesis by simp
  qed
qed

definition full_hit_len :: "block_pool \<Rightarrow> int list \<Rightarrow> bytes list \<Rightarrow> nat \<Rightarrow> bool \<Rightarrow> int \<Rightarrow> int \<Rightarrow> nat" where
  "full_hit_len p gs hs max_blocks use_eagle bs al =
     aligned_len bs al (length (takeWhile (all_cached p gs) (take max_blocks hs)) - (if use_eagle then 1 else 0))"

lemma full_find_spec:
  assumes "searchable p gs" and "is_full spec \<or> chunk_of spec \<noteq> None" and "0 \<le> max_len" and "0 < bs"
    and "bs = spec_block_size spec * (if dcp * pcp > 1 then dcp * pcp else 1)" and "hs = hashes_list l"
    and "n = full_hit_len p gs hs (nat (max_len div bs)) use_eagle bs al"
  shows "\<exists>hits. full_find_longest_cache_hit l max_len gs p spec use_eagle al dcp pcp = Inr hits \<and> hits_ok p gs hs 0 n hits
    \<and> int n * bs \<le> max_len - (if use_eagle \<and> n > 0 then bs else 0)"
proof -
  let ?N = "nat (max_len div bs)" and ?w = "takeWhile (all_cached p gs) (take (nat (max_len div bs)) hs)"
  have N: "0 \<le> max_len div bs" using assms(3,4) by (simp add: pos_imp_zdiv_nonneg_iff)
  have ne: "gs \<noteq> []" using assms(1) by (simp add: searchable_def)
  obtain c1 where c1: "full_scan p gs (take ?N hs) (replicate (length gs) []) = Inr c1" "hits_ok p gs (take ?N hs) 0 (length ?w) c1"
    using full_scan_spec[OF assms(1), of "[]" "take ?N hs" 0 "replicate (length gs) []"] hits_ok_replicate[of 0 "take ?N hs" p gs]
    by auto
  have wl: "length ?w \<le> ?N" using length_takeWhile_le[of "all_cached p gs" "take ?N hs"] by simp
  have c1': "hits_ok p gs hs 0 (length ?w) c1"
    using c1(2) wl length_takeWhile_le[of "all_cached p gs" "take ?N hs"]
    by (auto simp: hits_ok_def hit_ok_def elim!: list_all2_mono)
  define k where "k = length ?w - (if use_eagle then 1 else 0)"
  have len1: "length c1 = length gs" "\<And>h. h \<in> set c1 \<Longrightarrow> length h = length ?w" using hits_ok_length[OF c1'] by auto
  have c2: "eagle_pop use_eagle c1 = Inr (map (take k) c1)"
  proof -
    obtain c cs where c: "c1 = c # cs" using len1(1) ne by (cases c1) auto
    have "map (take k) c1 = c1" if "k = length ?w" using len1(2) that by (intro map_idI) simp
    moreover have "c = [] \<longleftrightarrow> length ?w = 0" using len1(2)[of c] by (auto simp: c)
    ultimately show ?thesis
      using hits_ok_butlast[OF c1'] c by (auto simp: eagle_pop_def k_def)
  qed
  have k: "hits_ok p gs hs 0 k (map (take k) c1)" using hits_ok_take[OF c1'] by (simp add: k_def)
  have n: "n = aligned_len bs al k" by (simp only: assms(7) full_hit_len_def k_def)
  have pop: "pop_until_aligned bs al (map (take k) c1) = Inr (map (take n) (map (take k) c1))"
    unfolding n by (rule pop_until_aligned_spec) (use len1(1) ne hits_ok_length(2)[OF k] in auto)
  have nk: "n \<le> k" unfolding n by (rule aligned_len_le)
  have "int n \<le> max_len div bs - (if use_eagle \<and> n > 0 then 1 else 0)"
    using nk wl N by (auto simp: k_def split: if_splits)
  then have "int n * bs \<le> (max_len div bs - (if use_eagle \<and> n > 0 then 1 else 0)) * bs"
    using assms(4) by (intro mult_right_mono) auto
  also have "\<dots> \<le> max_len - (if use_eagle \<and> n > 0 then bs else 0)"
    using mult_le_iff_le_div[OF assms(4), of "max_len div bs" max_len] by (simp add: algebra_simps)
  finally have bound: "int n * bs \<le> max_len - (if use_eagle \<and> n > 0 then bs else 0)" .
  have "full_find_longest_cache_hit l max_len gs p spec use_eagle al dcp pcp = Inr (map (take n) (map (take k) c1))"
    using assms(2) N c1(1) c2 pop unfolding full_find_longest_cache_hit_def assms(5)[symmetric] Let_def
    by (simp add: hashes_list_def[symmetric] assms(6)[symmetric])
  with hits_ok_take[OF k nk] bound show ?thesis by blast
qed

section \<open>Sliding window\<close>

text \<open>The lists during the scan: untouched before \<open>i\<close>, a run of \<open>c\<close> hits from \<open>i\<close> on.\<close>

definition run_ok :: "block_pool \<Rightarrow> bytes list \<Rightarrow> nat \<Rightarrow> nat \<Rightarrow> nat \<Rightarrow> int \<Rightarrow> addr list \<Rightarrow> bool" where
  "run_ok p hs N i c g h \<longleftrightarrow> length h = N \<and> (\<forall>j < i. h ! j = null_block p)
     \<and> (\<forall>j. i \<le> j \<and> j < i + c \<longrightarrow> bh p (h ! j) = Some (block_key g (hs ! j)))"

lemma run_ok_restart: "run_ok p hs N (Suc i) c g h \<Longrightarrow> run_ok p hs N i 0 g h"
  by (auto simp: run_ok_def)

lemma run_ok_extend:
  assumes "run_ok p hs N (Suc i) c g h" and "i < N" and "bh p a = Some (block_key g (hs ! i))"
  shows "run_ok p hs N i (Suc c) g (h[i := a])"
  using assms unfolding run_ok_def by (auto simp: nth_list_update)

lemma run_ok_hit: "run_ok p hs N i c g h \<Longrightarrow> i + c \<le> N \<Longrightarrow> hit_ok p hs i (i + c) g (take (i + c) h)"
  unfolding run_ok_def hit_ok_def by simp (metis not_less)

lemma runs_hit:
  "list_all2 (run_ok p hs N i c) gs xs \<Longrightarrow> i + c \<le> N \<Longrightarrow> list_all2 (hit_ok p hs i (i + c)) gs (map (take (i + c)) xs)"
  unfolding list_all2_conv_all_nth by (auto intro: run_ok_hit)

definition run_aligned :: "int \<Rightarrow> int \<Rightarrow> bool \<Rightarrow> nat \<Rightarrow> bool" where
  "run_aligned bs al use_eagle e \<longleftrightarrow> bs = al \<or> (if use_eagle then int e - 1 else int e) * bs mod al = 0"

lemma zip_update_runs:
  assumes "list_all2 (run_ok p hs N (Suc i) c) gs acc" and "i < N" and "keyed p gs (hs ! i) bs"
  shows "list_all2 (run_ok p hs N i (Suc c)) gs (map (\<lambda>(h, b). h[i := b]) (zip acc bs))"
proof (rule list_all2_all_nthI)
  have len: "length acc = length gs" "length bs = length gs"
    using assms by (auto simp: keyed_def dest: list_all2_lengthD)
  show "length gs = length (map (\<lambda>(h, b). h[i := b]) (zip acc bs))" by (simp add: len)
  fix k assume k: "k < length gs"
  have "run_ok p hs N (Suc i) c (gs ! k) (acc ! k)" "bh p (bs ! k) = Some (block_key (gs ! k) (hs ! i))"
    using assms(1,3) k by (simp_all add: keyed_def list_all2_conv_all_nth)
  from run_ok_extend[OF this(1) assms(2) this(2)] k len
  show "run_ok p hs N i (Suc c) (gs ! k) (map (\<lambda>(h, b). h[i := b]) (zip acc bs) ! k)" by simp
qed

lemma window_scan_spec:
  assumes "searchable p gs" and "hs = hashes_list l" and "N \<le> length hs"
    and "i + c \<le> N" and "list_all2 (run_ok p hs N i c) gs acc" and "0 < c \<Longrightarrow> run_aligned bs al use_eagle (i + c)"
  shows "\<exists>found c' res. window_scan l gs p needed bs al use_eagle i c acc = Inr (found, c', res)
    \<and> (if found then \<exists>i'. i' + c' \<le> N \<and> 0 < c' \<and> needed \<le> int c' \<and> run_aligned bs al use_eagle (i' + c')
           \<and> list_all2 (hit_ok p hs i' (i' + c')) gs res
       else c' \<le> N \<and> list_all2 (run_ok p hs N 0 c') gs res)"
  using assms(4-6)
proof (induction i arbitrary: c acc)
  case 0
  then show ?case by (intro exI[of _ False] exI[of _ c] exI[of _ acc]) simp
next
  case (Suc i)
  have i: "i < N" "hashes_nth l (int i) = Inr (hs ! i)" using Suc.prems(1) assms(2,3) hashes_nth_list[of i l] by auto
  have restart: "list_all2 (run_ok p hs N i 0) gs acc"
    using Suc.prems(2) run_ok_restart by (auto elim!: list_all2_mono)
  note again = Suc.IH[of 0, OF _ restart]
  show ?case
  proof (cases rule: cached_at_spec[OF assms(1), of "hs ! i", case_names miss hit])
    case miss
    with again i show ?thesis by simp
  next
    case (hit blks)
    let ?skip = "c = 0 \<and> bs \<noteq> al \<and> (if use_eagle then int i else int i + 1) * bs mod al \<noteq> 0"
    let ?acc = "map (\<lambda>(h, b). h[i := b]) (zip acc blks)"
    show ?thesis
    proof (cases ?skip)
      case True
      have "window_scan l gs p needed bs al use_eagle (Suc i) c acc = window_scan l gs p needed bs al use_eagle i 0 acc"
        using hit(1) i(2) True by simp
      with again i show ?thesis by simp
    next
      case False
      have runs: "list_all2 (run_ok p hs N i (Suc c)) gs ?acc" by (rule zip_update_runs[OF Suc.prems(2) i(1) hit(2)])
      have al: "run_aligned bs al use_eagle (i + Suc c)"
      proof (cases "c = 0")
        case True
        with False show ?thesis by (auto simp: run_aligned_def add.commute)
      next
        case False
        with Suc.prems(3) show ?thesis by simp
      qed
      have step: "window_scan l gs p needed bs al use_eagle (Suc i) c acc =
          (if needed \<le> int (Suc c) then Inr (True, Suc c, map (take (i + Suc c)) ?acc)
           else window_scan l gs p needed bs al use_eagle i (Suc c) ?acc)"
        by (simp only: window_scan.simps hit(1) i(2) ebind_simps option.case if_not_P[OF False] Let_def)
      show ?thesis
      proof (cases "needed \<le> int (Suc c)")
        case True
        have "list_all2 (hit_ok p hs i (i + Suc c)) gs (map (take (i + Suc c)) ?acc)"
          using Suc.prems(1) by (intro runs_hit[OF runs]) simp
        with True step al Suc.prems(1) show ?thesis by (intro exI[of _ True] exI[of _ "Suc c"]) auto
      next
        case False
        with step Suc.IH[OF _ runs al] Suc.prems(1) show ?thesis by simp
      qed
    qed
  qed
qed

lemma hits_okI: "list_all2 (hit_ok p hs s n) gs hits \<Longrightarrow> n \<le> length hs \<Longrightarrow> hits_ok p gs hs s n hits"
  by (simp add: hits_ok_def)

lemma pop_hits:
  assumes "hits_ok p gs hs s n hits" and "gs \<noteq> []"
  shows "pop_until_aligned bs al hits = Inr (map (take (aligned_len bs al n)) hits)
    \<and> hits_ok p gs hs s (aligned_len bs al n) (map (take (aligned_len bs al n)) hits)"
proof
  have "hits \<noteq> []" using hits_ok_length(1)[OF assms(1)] assms(2) by auto
  then show "pop_until_aligned bs al hits = Inr (map (take (aligned_len bs al n)) hits)"
    using hits_ok_length(2)[OF assms(1)] by (rule pop_until_aligned_spec)
qed (rule hits_ok_take[OF assms(1) aligned_len_le])

text \<open>Dropping the block for EAGLE and aligning again, as the window manager does.\<close>

definition eagle_realign :: "bool \<Rightarrow> int \<Rightarrow> int \<Rightarrow> nat \<Rightarrow> nat" where
  "eagle_realign use_eagle bs al n = (if use_eagle then aligned_len bs al (n - 1) else n)"

lemma eagle_realign_spec:
  assumes hits: "hits_ok p gs hs s n hits" and ne: "gs \<noteq> []"
  shows "\<exists>hits'. (case hits of [] \<Rightarrow> if use_eagle then Inl IndexError else Inr hits
        | c # _ \<Rightarrow> if use_eagle \<and> c \<noteq> [] then pop_until_aligned bs al (map butlast hits) else Inr hits) = Inr hits'
    \<and> hits_ok p gs hs s (eagle_realign use_eagle bs al n) hits'"
proof -
  obtain c cs where c: "hits = c # cs" using hits_ok_length(1)[OF hits] ne by (cases hits) auto
  then have len: "length c = n" using hits_ok_length(2)[OF hits] by simp
  show ?thesis
  proof (cases "use_eagle \<and> n \<noteq> 0")
    case True
    then have "c \<noteq> []" using len by auto
    with True pop_hits[OF hits_ok_take[OF hits, of "n - 1"] ne, of bs al] show ?thesis
      unfolding hits_ok_butlast[OF hits] by (auto simp: c eagle_realign_def)
  next
    case False
    then have "eagle_realign use_eagle bs al n = n" by (auto simp: eagle_realign_def)
    with False hits len show ?thesis by (auto simp: c)
  qed
qed

lemma window_find_spec:
  assumes "searchable p gs" and w: "window_of spec = Some w" and bs: "bs = spec_block_size spec" "0 < bs"
    and hs: "hs = hashes_list l" and N: "nat (max_len div bs) \<le> length hs"
  shows "\<exists>hits n. window_find_longest_cache_hit l max_len gs p spec use_eagle al 1 1 = Inr hits
    \<and> hits_ok p gs hs (n - nat (cdiv (w - 1) bs)) n hits \<and> (bs = al \<or> int n * bs mod al = 0)
    \<and> n \<le> nat (max_len div bs) - (if use_eagle then 1 else 0)"
proof -
  let ?N = "nat (max_len div bs)" and ?wnd = "cdiv (w - 1) bs" and ?start = "replicate (length gs) (replicate (nat (max_len div bs)) (null_block p))"
  let ?need = "?wnd + (if use_eagle then 1 else 0)"
  have ne: "gs \<noteq> []" using assms(1) by (simp add: searchable_def)
  have "list_all2 (run_ok p hs ?N ?N 0) gs ?start" by (auto simp: list_all2_conv_all_nth run_ok_def)
  with window_scan_spec[OF assms(1) hs N, of ?N 0 ?start bs al use_eagle ?need] obtain found c res where
    scan: "window_scan l gs p ?need bs al use_eagle ?N 0 ?start = Inr (found, c, res)"
    and cases: "if found then \<exists>i'. i' + c \<le> ?N \<and> 0 < c \<and> ?need \<le> int c \<and> run_aligned bs al use_eagle (i' + c)
         \<and> list_all2 (hit_ok p hs i' (i' + c)) gs res else c \<le> ?N \<and> list_all2 (run_ok p hs ?N 0 c) gs res"
    by auto
  define k where "k = (if found then Inr res else pop_until_aligned bs al (map (take c) res))"
  have unf: "window_find_longest_cache_hit l max_len gs p spec use_eagle al 1 1 = ebind k (\<lambda>hits.
      case hits of [] \<Rightarrow> if use_eagle then Inl IndexError else Inr hits
      | c # _ \<Rightarrow> if use_eagle \<and> c \<noteq> [] then pop_until_aligned bs al (map butlast hits) else Inr hits)"
    using scan unfolding window_find_longest_cache_hit_def w bs(1)[symmetric] k_def by (simp add: Let_def)
  show ?thesis
  proof (cases found)
    case True
    then obtain i' where i': "i' + c \<le> ?N" "0 < c" "?need \<le> int c" "run_aligned bs al use_eagle (i' + c)"
      "list_all2 (hit_ok p hs i' (i' + c)) gs res"
      using cases by auto
    have hits: "hits_ok p gs hs i' (i' + c) res" using hits_okI[OF i'(5)] i'(1) N by simp
    have n: "eagle_realign use_eagle bs al (i' + c) = i' + c - (if use_eagle then 1 else 0)"
      using i'(2,4) by (auto simp: eagle_realign_def run_aligned_def of_nat_diff intro!: aligned_len_same)
    define n where "n = i' + c - (if use_eagle then 1 else 0)"
    obtain hits' where res': "window_find_longest_cache_hit l max_len gs p spec use_eagle al 1 1 = Inr hits'" "hits_ok p gs hs i' n hits'"
      using eagle_realign_spec[OF hits ne, of use_eagle bs al] True unfolding unf n n_def[symmetric] by (auto simp: k_def)
    have "i' \<le> n - nat ?wnd" using i'(2,3) by (auto simp: n_def split: if_splits)
    then have "hits_ok p gs hs (n - nat ?wnd) n hits'" using hits_ok_mono[OF res'(2)] by simp
    moreover have "bs = al \<or> int n * bs mod al = 0" using i'(2,4) by (auto simp: n_def run_aligned_def of_nat_diff)
    moreover have "n \<le> ?N - (if use_eagle then 1 else 0)" using i'(1) by (auto simp: n_def)
    ultimately show ?thesis using res'(1) by (intro exI[of _ hits'] exI[of _ n]) simp
  next
    case False
    then have c: "c \<le> ?N" "list_all2 (run_ok p hs ?N 0 c) gs res" using cases by auto
    have "list_all2 (hit_ok p hs 0 c) gs (map (take c) res)" using runs_hit[OF c(2)] c(1) by simp
    then have "hits_ok p gs hs 0 c (map (take c) res)" using c(1) N by (auto intro: hits_okI)
    from pop_hits[OF this ne, of bs al] False obtain res' where
      k: "k = Inr res'" "hits_ok p gs hs 0 (aligned_len bs al c) res'" by (auto simp: k_def)
    define n where "n = eagle_realign use_eagle bs al (aligned_len bs al c)"
    obtain hits where res': "window_find_longest_cache_hit l max_len gs p spec use_eagle al 1 1 = Inr hits" "hits_ok p gs hs 0 n hits"
      using eagle_realign_spec[OF k(2) ne, of use_eagle bs al] unfolding unf k(1) n_def by auto
    have "hits_ok p gs hs (n - nat ?wnd) n hits" using hits_ok_mono[OF res'(2)] by simp
    moreover have "bs = al \<or> int n * bs mod al = 0" using aligned_len_aligned by (simp add: n_def eagle_realign_def)
    moreover have "n \<le> ?N - (if use_eagle then 1 else 0)"
      using c(1) aligned_len_le[of bs al c] aligned_len_le[of bs al "aligned_len bs al c - 1"] by (auto simp: n_def eagle_realign_def)
    ultimately show ?thesis using res'(1) by (intro exI[of _ hits] exI[of _ n]) simp
  qed
qed

section \<open>Mamba and chunked local attention\<close>

lemma mamba_scan_spec:
  assumes "searchable p gs" and "hs = hashes_list l" and "i \<le> length hs"
  shows "\<exists>hits n. mamba_scan l gs p bs al i (replicate (length gs) []) = Inr hits \<and> n \<le> i
    \<and> hits_ok p gs hs (n - 1) n hits \<and> (bs = al \<or> int n * bs mod al = 0)"
  using assms(3)
proof (induction i)
  case 0
  then show ?case using hits_ok_replicate[of 0 hs p gs] by (intro exI[of _ "replicate (length gs) []"] exI[of _ 0]) simp
next
  case (Suc i)
  have i: "hashes_nth l (int i) = Inr (hs ! i)" using Suc.prems assms(2) hashes_nth_list[of i l] by simp
  from Suc obtain hits n where IH: "mamba_scan l gs p bs al i (replicate (length gs) []) = Inr hits" "n \<le> i"
    "hits_ok p gs hs (n - 1) n hits" "bs = al \<or> int n * bs mod al = 0" by auto
  then have again: "\<exists>hits n. mamba_scan l gs p bs al i (replicate (length gs) []) = Inr hits \<and> n \<le> Suc i
      \<and> hits_ok p gs hs (n - 1) n hits \<and> (bs = al \<or> int n * bs mod al = 0)"
    by (intro exI[of _ hits] exI[of _ n]) simp
  show ?case
  proof (cases rule: cached_at_spec[OF assms(1), of "hs ! i", case_names miss hit])
    case miss
    with again i show ?thesis by simp
  next
    case (hit blks)
    show ?thesis
    proof (cases "bs \<noteq> al \<and> (int i + 1) * bs mod al \<noteq> 0")
      case True
      with again i hit show ?thesis by simp
    next
      case False
      let ?pre = "replicate (length gs) (replicate i (null_block p))"
      have len: "length blks = length gs" using hit(2) by (auto simp: keyed_def dest: list_all2_lengthD)
      have "map (\<lambda>(c, b). c @ replicate i (null_block p) @ [b]) (zip (replicate (length gs) []) blks) = append_hit ?pre blks"
        using len by (intro nth_equalityI) (simp_all add: append_hit_def)
      moreover have "hits_ok p gs hs i (Suc i) (append_hit ?pre blks)"
        using append_hit_ok[OF hits_ok_replicate[of i hs p gs], of blks] Suc.prems hit(2) by simp
      ultimately show ?thesis
        using i hit False by (intro exI[of _ "append_hit ?pre blks"] exI[of _ "Suc i"]) (auto simp: add.commute)
    qed
  qed
qed

lemma chunk_scan_spec:
  assumes "searchable p gs" and "hs = hashes_list l" and "n + k \<le> length hs" and "hits_ok p gs hs s n acc"
  shows "\<exists>hits n'. chunk_scan l gs p (map int [n..<n + k]) acc = Inr hits \<and> n \<le> n' \<and> n' \<le> n + k
    \<and> hits_ok p gs hs s n' hits"
  using assms(3,4)
proof (induction k arbitrary: n acc)
  case 0
  then show ?case by auto
next
  case (Suc k)
  have idx: "map int [n..<n + Suc k] = int n # map int [Suc n..<Suc n + k]" by (simp add: upt_conv_Cons)
  have n: "hashes_nth l (int n) = Inr (hs ! n)" using Suc.prems(1) assms(2) hashes_nth_list[of n l] by simp
  show ?case
  proof (cases rule: cached_at_spec[OF assms(1), of "hs ! n", case_names miss hit])
    case miss
    with Suc.prems n show ?thesis unfolding idx by (intro exI[of _ acc] exI[of _ n]) simp
  next
    case (hit blks)
    have "hits_ok p gs hs s (Suc n) (append_hit acc blks)"
      using append_hit_ok[OF Suc.prems(2) _ hit(2)] Suc.prems(1) by simp
    with Suc.IH[of "Suc n" "append_hit acc blks"] Suc.prems(1) obtain hits n' where
      "chunk_scan l gs p (map int [Suc n..<Suc n + k]) (append_hit acc blks) = Inr hits" "Suc n \<le> n'" "n' \<le> Suc n + k"
      "hits_ok p gs hs s n' hits" by auto
    with n hit show ?thesis unfolding idx by (intro exI[of _ hits] exI[of _ n']) simp
  qed
qed

lemma chunk_find_spec:
  assumes "searchable p gs" and c: "chunk_of spec = Some c" "0 < c" and bs: "bs = spec_block_size spec" "0 < bs"
    and hs: "hs = hashes_list l" and N: "nat (max_len div bs) \<le> length hs" and "0 \<le> max_len"
    and s: "s = nat (max_len div c * c div bs)"
  shows "\<exists>hits n. chunk_find_longest_cache_hit l max_len gs p spec False bs 1 1 = Inr hits
    \<and> hits_ok p gs hs s n hits \<and> s \<le> n \<and> n \<le> nat (max_len div bs)"
proof -
  have le: "max_len div c * c \<le> max_len" using mult_le_iff_le_div[OF c(2), of "max_len div c" max_len] by simp
  have nn: "0 \<le> max_len div c * c" using c(2) assms(8) by (simp add: pos_imp_zdiv_nonneg_iff)
  then have s0: "int s = max_len div c * c div bs" using bs(2) by (simp add: s pos_imp_zdiv_nonneg_iff)
  have sN: "s \<le> nat (max_len div bs)" using zdiv_mono1[OF le bs(2)] by (simp add: s nat_mono)
  define k where "k = nat (max_len div bs) - s"
  have N0: "0 \<le> max_len div bs" using assms(8) bs(2) by (simp add: pos_imp_zdiv_nonneg_iff)
  have idx: "[int s..max_len div bs - 1] = map int [s..<s + k]"
    using sN N0 by (intro nth_equalityI) (auto simp: k_def nat_diff_distrib)
  have st: "(if max_len > 0 then max_len div c * c else 0) = max_len div c * c" using assms(8) by auto
  show ?thesis
    using chunk_scan_spec[OF assms(1) hs, of s k s "replicate (length gs) (replicate s (null_block p))"]
      hits_ok_replicate[of s hs p gs] sN N
    unfolding chunk_find_longest_cache_hit_def c(1) bs(1)[symmetric] Let_def option.case st s0[symmetric] idx
    by (auto simp: k_def)
qed

section \<open>All managers\<close>

lemma div_minus_cdiv: "0 < b \<Longrightarrow> (n * b - x) div b = n - cdiv x b"
  using div_mult_self1[of b "- x" n] by (simp add: cdiv_def div_minus_right algebra_simps)

lemma window_skipped:
  assumes "0 < bs"
  shows "n - nat (cdiv (w - 1) bs) \<le> nat (max 0 (int n * bs - w + 1) div bs)"
proof -
  have "int n - cdiv (w - 1) bs \<le> max 0 (int n * bs - (w - 1)) div bs"
    using div_minus_cdiv[OF assms, of "int n" "w - 1"] zdiv_mono1[of "int n * bs - (w - 1)" "max 0 (int n * bs - (w - 1))" bs] assms
    by simp
  then show ?thesis by (simp add: algebra_simps)
qed

lemma chunk_skipped:
  assumes "0 < bs" "0 < c" "c mod bs = 0" "0 \<le> max_len" "s = nat (max_len div c * c div bs)" "s \<le> n" "int n * bs \<le> max_len"
  shows "s = nat (int n * bs div c * c div bs)"
proof -
  have "bs dvd max_len div c * c" using assms(3) by (simp add: dvd_mult mod_eq_0_iff_dvd)
  then have "(max_len div c * c) div bs * bs = max_len div c * c" by (rule dvd_div_mult_self)
  moreover have "0 \<le> max_len div c * c div bs" using assms(1,2,4) by (simp add: pos_imp_zdiv_nonneg_iff)
  ultimately have "int s * bs = max_len div c * c" using assms(5) by simp
  then have "max_len div c * c \<le> int n * bs" using assms(1,6) by (metis mult_right_mono of_nat_mono less_imp_le)
  then have "max_len div c \<le> int n * bs div c" using mult_le_iff_le_div[OF assms(2)] by simp
  moreover have "int n * bs div c \<le> max_len div c" using assms(2,7) by (simp add: zdiv_mono1)
  ultimately show ?thesis using assms(5) by simp
qed

lemma blocks_in_length: "0 < bs \<Longrightarrow> 0 \<le> max_len \<Longrightarrow> n \<le> nat (max_len div bs) \<Longrightarrow> int n * bs \<le> max_len"
  using mult_le_iff_le_div[of bs "int n" max_len] pos_imp_zdiv_nonneg_iff[of bs max_len] by linarith

lemma find_hit_sound:
  assumes sr: "searchable p gs" and sp: "spec_ok m" and cls: "m_class m \<noteq> CrossAttentionManager"
    and bs: "bs = m_block_size m" "m_block_size m = spec_block_size (m_spec m) * (dcp * pcp)"
    and ranks: "1 \<le> dcp" "1 \<le> pcp" "dcp * pcp = 1 \<or> m_class m = FullAttentionManager"
    and chunk: "\<forall>c. chunk_of (m_spec m) = Some c \<longrightarrow> \<not> use_eagle \<and> al = bs"
    and hs: "hs = hashes_list l" and len: "0 \<le> max_len" "nat (max_len div bs) \<le> length hs"
  shows "\<exists>hits n s. find_longest_cache_hit (m_class m) l max_len gs p (m_spec m) use_eagle al dcp pcp = Inr hits
    \<and> hits_ok p gs hs s n hits
    \<and> ((\<forall>c. chunk_of (m_spec m) = Some c \<longrightarrow> c mod bs = 0) \<longrightarrow> s = nat (get_num_skipped_tokens m (int n * bs) div bs))
    \<and> (bs = al \<or> int n * bs mod al = 0) \<and> int n * bs \<le> max_len"
proof -
  have ranks': "dcp * pcp = (if dcp * pcp > 1 then dcp * pcp else 1)"
    using ranks(1,2) mult_mono[of 1 dcp 1 pcp] by auto
  have pos: "0 < bs" and map: "spec_manager_map (m_spec m) = Inr (m_class m)" and sink: "m_class m \<noteq> SinkFullAttentionManager"
    using sp bs by (auto simp: spec_ok_def)
  have one: "dcp = 1" "pcp = 1" "bs = spec_block_size (m_spec m)" if "m_class m \<noteq> FullAttentionManager"
    using ranks that bs by (auto simp: zmult_eq_1_iff)
  consider (full) "m_class m = FullAttentionManager" "is_full (m_spec m)"
    | (window) w where "m_class m = SlidingWindowManager" "window_of (m_spec m) = Some w"
    | (chunk) c where "m_class m = ChunkedLocalAttentionManager" "chunk_of (m_spec m) = Some c" "0 < c"
    | (mamba) s where "m_class m = MambaManager" "mamba_of (m_spec m) = Some s"
    using map cls sink sp by (cases "m_spec m") (auto simp: spec_ok_def)
  then show ?thesis
  proof cases
    case full
    define n where "n = full_hit_len p gs hs (nat (max_len div bs)) use_eagle bs al"
    have "bs = spec_block_size (m_spec m) * (if dcp * pcp > 1 then dcp * pcp else 1)" using bs ranks' by simp
    then obtain hits where "full_find_longest_cache_hit l max_len gs p (m_spec m) use_eagle al dcp pcp = Inr hits" "hits_ok p gs hs 0 n hits"
      "int n * bs \<le> max_len - (if use_eagle \<and> n > 0 then bs else 0)"
      using full_find_spec[OF sr disjI1[OF full(2)] len(1) pos _ hs n_def] by blast
    moreover have "bs = al \<or> int n * bs mod al = 0" unfolding n_def full_hit_len_def by (rule aligned_len_aligned)
    ultimately show ?thesis
      using full(1) pos by (intro exI[of _ hits] exI[of _ n] exI[of _ 0])
        (auto simp: find_longest_cache_hit_def get_num_skipped_tokens_def split: if_splits)
  next
    case (window w)
    then have w1: "bs = spec_block_size (m_spec m)" and w2: "dcp = 1" "pcp = 1" using one by simp_all
    obtain hits n where r: "window_find_longest_cache_hit l max_len gs p (m_spec m) use_eagle al 1 1 = Inr hits"
      "hits_ok p gs hs (n - nat (cdiv (w - 1) bs)) n hits" "bs = al \<or> int n * bs mod al = 0"
      "n \<le> nat (max_len div bs) - (if use_eagle then 1 else 0)"
      using window_find_spec[OF sr window(2) w1 pos hs len(2), of use_eagle al] by (elim exE conjE) (rule that)
    have "hits_ok p gs hs (nat (get_num_skipped_tokens m (int n * bs) div bs)) n hits"
      using hits_ok_mono[OF r(2) window_skipped[OF pos]] window by (simp add: get_num_skipped_tokens_def)
    with r window(1) blocks_in_length[OF pos len(1), of n] show ?thesis
      by (intro exI[of _ hits] exI[of _ n] exI[of _ "nat (get_num_skipped_tokens m (int n * bs) div bs)"])
        (auto simp: find_longest_cache_hit_def w2 split: if_splits)
  next
    case (chunk c)
    with assms(9) have c: "\<not> use_eagle" "al = bs" by auto
    have w1: "bs = spec_block_size (m_spec m)" and w2: "dcp = 1" "pcp = 1" using one chunk(1) by simp_all
    define s where "s = nat (max_len div c * c div bs)"
    obtain hits n where r: "chunk_find_longest_cache_hit l max_len gs p (m_spec m) False bs 1 1 = Inr hits"
      "hits_ok p gs hs s n hits" "s \<le> n" "n \<le> nat (max_len div bs)"
      using chunk_find_spec[OF sr chunk(2,3) w1 pos hs len(2,1) s_def] by (elim exE conjE) (rule that)
    have le: "int n * bs \<le> max_len" by (rule blocks_in_length[OF pos len(1) r(4)])
    have "s = nat (get_num_skipped_tokens m (int n * bs) div bs)" if "c mod bs = 0"
      using chunk_skipped[OF pos chunk(3) that len(1) s_def r(3) le] chunk by (simp add: get_num_skipped_tokens_def)
    with r c chunk(1,2) le show ?thesis
      by (intro exI[of _ hits] exI[of _ n] exI[of _ s]) (simp add: find_longest_cache_hit_def w2)
  next
    case (mamba s)
    then have w1: "bs = spec_block_size (m_spec m)" and w2: "dcp = 1" "pcp = 1" using one by simp_all
    obtain hits n where r: "mamba_scan l gs p bs al (nat (max_len div bs)) (replicate (length gs) []) = Inr hits"
      "n \<le> nat (max_len div bs)" "hits_ok p gs hs (n - 1) n hits" "bs = al \<or> int n * bs mod al = 0"
      using mamba_scan_spec[OF sr hs len(2), of bs al] by (elim exE conjE) (rule that)
    have "n - 1 \<le> nat ((int n * bs - 1) div bs)"
      using cdiv_le_iff[OF pos, of 1 1] pos unfolding div_minus_cdiv[OF pos] by linarith
    then have "hits_ok p gs hs (nat (get_num_skipped_tokens m (int n * bs) div bs)) n hits"
      using hits_ok_mono[OF r(3)] mamba by (simp add: get_num_skipped_tokens_def)
    moreover have "mamba_find_longest_cache_hit l max_len gs p (m_spec m) use_eagle al 1 1 = Inr hits"
      using r(1) mamba(2) w1 by (simp add: mamba_find_longest_cache_hit_def Let_def)
    ultimately show ?thesis
      using r(4) mamba(1) blocks_in_length[OF pos len(1) r(2)]
      by (intro exI[of _ hits] exI[of _ n] exI[of _ "nat (get_num_skipped_tokens m (int n * bs) div bs)"])
        (simp add: find_longest_cache_hit_def w2)
  qed
qed

end
