(* ===== verification/Prefix_Hits.thy ===== *)
theory Prefix_Hits
  imports KV_Properties Cache_Hits
begin

text \<open>
  Prefix hits of the KV cache manager: the search ends and leaves at least one token to compute, the
  blocks of a hit hold what the next token attends to, and a new request can be given its hit and
  the blocks for its remaining tokens without an exception.
\<close>

section \<open>The hybrid search ends\<close>

lemma hybrid_visit_nonneg:
  assumes "hybrid_visit p h bhs max_len (idx, g) (cur, ver, by_group) = Inr (cur', ver', by_group')"
    and "0 < spec_block_size (ag_spec g)" "0 \<le> cur"
  shows "0 \<le> cur'"
  using assms by (auto simp: hybrid_visit_def ebind_Inr_iff Let_def pos_imp_zdiv_nonneg_iff split: if_splits)

lemma hybrid_pass_nonneg:
  assumes "hybrid_pass p h bhs max_len s = Inr s'" and "\<forall>g \<in> set (attention_groups h). 0 < spec_block_size (ag_spec g)"
    and "0 \<le> fst s"
  shows "0 \<le> fst s'"
  using assms(1) unfolding hybrid_pass_def
proof (rule efold_invariant[where P = "\<lambda>s. 0 \<le> fst s"])
  fix x and s1 s2 :: hybrid_state
  assume x: "x \<in> set (enumerate 0 (attention_groups h))" "0 \<le> fst s1" "hybrid_visit p h bhs max_len x s1 = Inr s2"
  obtain idx g where xg: "x = (idx, g)" by (cases x)
  with x(1) have "g \<in> set (attention_groups h)" by (auto simp: in_set_enumerate_eq)
  with assms(2) have "0 < spec_block_size (ag_spec g)" by blast
  with x(2,3) show "0 \<le> fst s2"
    using hybrid_visit_nonneg[of p h bhs max_len idx g "fst s1" "fst (snd s1)" "snd (snd s1)" "fst s2" "fst (snd s2)" "snd (snd s2)"]
    by (simp add: xg)
qed (rule assms(3))

lemma hybrid_loop_total:
  assumes "\<forall>g \<in> set (attention_groups h). 0 < spec_block_size (ag_spec g)" and "0 \<le> hit"
  shows "\<exists>r. hybrid_loop p h bhs max_len hit ver by_group = Some r \<and> (\<forall>n bg. r = Inr (n, bg) \<longrightarrow> 0 \<le> n \<and> n \<le> hit)"
  using assms(2)
proof (induction "nat hit" arbitrary: hit ver by_group rule: less_induct)
  case less
  show ?case
  proof (cases "hybrid_pass p h bhs max_len (hit, ver, by_group)")
    case (Inl e)
    then show ?thesis by (simp add: hybrid_loop.simps)
  next
    case (Inr s)
    obtain cur ver' bg' where s: "s = (cur, ver', bg')" by (cases s)
    have cur: "0 \<le> cur" using hybrid_pass_nonneg[OF Inr assms(1)] less.prems by (simp add: s)
    show ?thesis
    proof (cases "hit \<le> cur \<or> is_simple_hybrid h")
      case True
      with Inr s less.prems cur show ?thesis by (subst hybrid_loop.simps) auto
    next
      case False
      then have "\<exists>r. hybrid_loop p h bhs max_len cur ver' bg' = Some r \<and> (\<forall>n bg. r = Inr (n, bg) \<longrightarrow> 0 \<le> n \<and> n \<le> cur)"
        using cur less.prems by (intro less.hyps) auto
      with False Inr s show ?thesis by (subst hybrid_loop.simps) force
    qed
  qed
qed

lemma hybrid_find_total:
  assumes "\<forall>g \<in> set (attention_groups h). 0 < spec_block_size (ag_spec g)" and "0 \<le> max_len"
  shows "\<exists>r. hybrid_find_longest_cache_hit c h bhs max_len = Some r \<and> (\<forall>hits n. r = Inr (hits, n) \<longrightarrow> 0 \<le> n \<and> n \<le> max_len)"
proof -
  obtain r where r: "hybrid_loop (c_pool c) h bhs max_len max_len [] (replicate (length (kv_cache_groups (c_config c))) None) = Some r"
    "\<forall>n bg. r = Inr (n, bg) \<longrightarrow> 0 \<le> n \<and> n \<le> max_len"
    using hybrid_loop_total[OF assms] by blast
  then show ?thesis
    by (cases r) (auto simp: hybrid_find_longest_cache_hit_def hybrid_finish_def Let_def split: list.splits)
qed

section \<open>The unitary search\<close>

lemma kv_ok_searchable:
  assumes "kv_ok k" and "k_enable_caching k" and "gs \<noteq> []"
    and "\<forall>g \<in> set gs. \<exists>m \<in> set (single_type_managers (coordinator k)). kv_cache_group_id m = g"
  shows "searchable (k_pool k) gs"
proof -
  obtain fs where "pool_rep (k_pool k) fs" using assms(1) by (auto simp: kv_ok_def coord_ok_def managers_inv_def)
  moreover have "group_ok g" if "g \<in> set gs" for g
    using assms(1,2,4) that by (auto simp: kv_ok_def caching_ok_def)
  ultimately show ?thesis using assms(3) by (auto simp: searchable_def)
qed

definition search_supported :: "kv_manager \<Rightarrow> bool \<Rightarrow> int \<Rightarrow> bool" where
  "search_supported m use_eagle ranks \<longleftrightarrow>
     (ranks = 1 \<or> m_class m = FullAttentionManager) \<and> (chunk_of (m_spec m) = None \<or> \<not> use_eagle)"

lemma find_unsupported:
  assumes "spec_ok m" and "m_class m \<noteq> CrossAttentionManager" and "\<not> search_supported m use_eagle (dcp * pcp)"
  shows "find_longest_cache_hit (m_class m) l max_len gs p (m_spec m) use_eagle al dcp pcp = Inl AssertionError"
proof -
  have ranks: "dcp \<noteq> 1 \<or> pcp \<noteq> 1" if "dcp * pcp \<noteq> 1" using that by auto
  show ?thesis
  proof (cases "m_class m")
    case SlidingWindowManager
    with assms obtain w where "window_of (m_spec m) = Some w" "chunk_of (m_spec m) = None"
      by (cases "m_spec m") (auto simp: spec_ok_def)
    with SlidingWindowManager assms(3) ranks show ?thesis
      by (auto simp: search_supported_def find_longest_cache_hit_def window_find_longest_cache_hit_def)
  next
    case ChunkedLocalAttentionManager
    with assms obtain c where "chunk_of (m_spec m) = Some c" by (cases "m_spec m") (auto simp: spec_ok_def)
    with ChunkedLocalAttentionManager assms(3) ranks show ?thesis
      by (auto simp: search_supported_def find_longest_cache_hit_def chunk_find_longest_cache_hit_def)
  next
    case MambaManager
    with assms have "chunk_of (m_spec m) = None" by (cases "m_spec m") (auto simp: spec_ok_def)
    with MambaManager assms(3) ranks show ?thesis
      by (auto simp: search_supported_def find_longest_cache_hit_def mamba_find_longest_cache_hit_def)
  next
    case FullAttentionManager
    with assms(1,3) show ?thesis by (cases "m_spec m") (auto simp: spec_ok_def search_supported_def)
  qed (use assms in \<open>auto simp: spec_ok_def\<close>)
qed

lemma unitary_find_spec:
  assumes ok: "kv_ok k" "k_enable_caching k" and kind: "c_kind (coordinator k) = UnitaryKVCacheCoordinator u"
    and len: "0 \<le> max_len" "max_len div u_block_size u \<le> int (length bhs)"
  obtains m where "single_type_managers (coordinator k) = [m]" "m_block_size m = u_block_size u" "0 < u_block_size u"
    "\<not> search_supported m (0 \<in> set (eagle_group_ids (coordinator k))) (u_dcp_world_size u * u_pcp_world_size u)
       \<Longrightarrow> unitary_find_longest_cache_hit (coordinator k) u bhs max_len = Inl AssertionError"
    "search_supported m (0 \<in> set (eagle_group_ids (coordinator k))) (u_dcp_world_size u * u_pcp_world_size u) \<Longrightarrow>
       \<exists>h n s. unitary_find_longest_cache_hit (coordinator k) u bhs max_len = Inr ([h], int n * u_block_size u)
         \<and> n \<le> length bhs \<and> hit_ok (k_pool k) bhs s n 0 h \<and> int n * u_block_size u \<le> max_len
         \<and> ((\<forall>c. chunk_of (m_spec m) = Some c \<longrightarrow> c mod u_block_size u = 0) \<longrightarrow>
              s = nat (get_num_skipped_tokens m (int n * u_block_size u) div u_block_size u))"
proof -
  obtain m where m: "single_type_managers (coordinator k) = [m]" "m_spec m = u_spec u" "m_block_size m = u_block_size u"
      "kv_cache_group_id m = 0" "m_block_size m = spec_block_size (m_spec m) * (u_dcp_world_size u * u_pcp_world_size u)"
      "1 \<le> u_dcp_world_size u" "1 \<le> u_pcp_world_size u"
    using ok(1) kind by (auto simp: kv_ok_def kind_ok_def)
  have sp: "spec_ok m" and cls: "m_class m \<noteq> CrossAttentionManager"
    using ok m(1) by (auto simp: kv_ok_def coord_ok_def managers_inv_def manager_ok_def caching_ok_def)
  have sr: "searchable (k_pool k) [0]" using ok m by (intro kv_ok_searchable) auto
  let ?eagle = "0 \<in> set (eagle_group_ids (coordinator k))" and ?ranks = "u_dcp_world_size u * u_pcp_world_size u"
  have pos: "0 < u_block_size u" using sp m(3) by (simp add: spec_ok_def)
  have bad: "unitary_find_longest_cache_hit (coordinator k) u bhs max_len = Inl AssertionError"
    if "\<not> search_supported m ?eagle ?ranks"
    using find_unsupported[OF sp cls that] m(1,2) by (simp add: unitary_find_longest_cache_hit_def py_nth_def)
  have good: "\<exists>h n s. unitary_find_longest_cache_hit (coordinator k) u bhs max_len = Inr ([h], int n * u_block_size u)
         \<and> n \<le> length bhs \<and> hit_ok (k_pool k) bhs s n 0 h \<and> int n * u_block_size u \<le> max_len
         \<and> ((\<forall>c. chunk_of (m_spec m) = Some c \<longrightarrow> c mod u_block_size u = 0) \<longrightarrow>
              s = nat (get_num_skipped_tokens m (int n * u_block_size u) div u_block_size u))"
    if sup: "search_supported m ?eagle ?ranks"
  proof -
    have hs: "bhs = hashes_list (PlainHashes bhs)" by (simp add: hashes_list_def hashes_from_def)
    have ranks: "?ranks = 1 \<or> m_class m = FullAttentionManager"
      and chunk: "\<forall>c. chunk_of (m_spec m) = Some c \<longrightarrow> \<not> ?eagle \<and> u_block_size u = u_block_size u"
      using sup by (auto simp: search_supported_def)
    have N: "nat (max_len div u_block_size u) \<le> length bhs" using len(2) by simp
    obtain hits n s where r: "find_longest_cache_hit (m_class m) (PlainHashes bhs) max_len [0] (k_pool k) (m_spec m) ?eagle
        (u_block_size u) (u_dcp_world_size u) (u_pcp_world_size u) = Inr hits"
      "hits_ok (k_pool k) [0] bhs s n hits"
      "(\<forall>c. chunk_of (m_spec m) = Some c \<longrightarrow> c mod u_block_size u = 0) \<longrightarrow>
         s = nat (get_num_skipped_tokens m (int n * u_block_size u) div u_block_size u)"
      "int n * u_block_size u \<le> max_len"
      using find_hit_sound[OF sr sp cls m(3)[symmetric] m(5-7) ranks chunk hs len(1) N] by (elim exE conjE) (rule that)
    obtain h where h: "hits = [h]" "hit_ok (k_pool k) bhs s n 0 h" "n \<le> length bhs"
      using r(2) by (auto simp: hits_ok_def list_all2_Cons1)
    then have "length h = n" by (simp add: hit_ok_def)
    with r h m(1,2) show ?thesis
      by (intro exI[of _ h] exI[of _ n] exI[of _ s]) (simp add: unitary_find_longest_cache_hit_def py_nth_def)
  qed
  show thesis using that[OF m(1,3) pos bad good] .
qed

section \<open>The search of the coordinator\<close>

lemma hybrid_groups_positive:
  assumes "kv_ok k" and "c_kind (coordinator k) = HybridKVCacheCoordinator h"
  shows "\<forall>g \<in> set (attention_groups h). 0 < spec_block_size (ag_spec g)"
proof
  fix g assume "g \<in> set (attention_groups h)"
  with assms have d: "group_describes (single_type_managers (coordinator k)) (lcm_block_size h) g"
    by (auto simp: kv_ok_def kind_ok_def)
  then obtain i where "i \<in> set (ag_ids g)" by (cases "ag_ids g") (auto simp: group_describes_def)
  with d have i: "nat i < length (single_type_managers (coordinator k))"
    "m_block_size (single_type_managers (coordinator k) ! nat i) = spec_block_size (ag_spec g)"
    by (auto simp: group_describes_def)
  have "spec_ok (single_type_managers (coordinator k) ! nat i)"
    using assms(1) nth_mem[OF i(1)] by (auto simp: kv_ok_def coord_ok_def managers_inv_def manager_ok_def)
  with i(2) show "0 < spec_block_size (ag_spec g)" by (simp add: spec_ok_def)
qed

lemma coord_find_total:
  assumes "kv_ok k" and "0 \<le> max_len"
  shows "\<exists>r. coord_find_longest_cache_hit (coordinator k) bhs max_len = Some r"
proof (cases "c_kind (coordinator k)")
  case (HybridKVCacheCoordinator h)
  with hybrid_find_total[OF hybrid_groups_positive[OF assms(1) HybridKVCacheCoordinator] assms(2), of "coordinator k" bhs]
  show ?thesis by (auto simp: coord_find_longest_cache_hit_def)
qed (simp_all add: coord_find_longest_cache_hit_def)

lemma coord_find_bounds:
  assumes ok: "kv_ok k" "k_enable_caching k" and len: "0 \<le> max_len" "max_len div hash_block_size (k_pool k) \<le> int (length bhs)"
    and run: "coord_find_longest_cache_hit (coordinator k) bhs max_len = Some (Inr (hits, n))"
  shows "0 \<le> n \<and> n \<le> max_len"
proof (cases "c_kind (coordinator k)")
  case KVCacheCoordinatorNoPrefixCache
  with run len(1) show ?thesis by (simp add: coord_find_longest_cache_hit_def)
next
  case (UnitaryKVCacheCoordinator u)
  have u: "max_len div u_block_size u \<le> int (length bhs)" using ok(1) UnitaryKVCacheCoordinator len(2) by (auto simp: kv_ok_def kind_ok_def)
  have run': "unitary_find_longest_cache_hit (coordinator k) u bhs max_len = Inr (hits, n)"
    using run UnitaryKVCacheCoordinator by (simp add: coord_find_longest_cache_hit_def)
  show ?thesis
  proof (rule unitary_find_spec[OF ok UnitaryKVCacheCoordinator len(1) u])
    fix m assume "0 < u_block_size u"
      and "\<not> search_supported m (0 \<in> set (eagle_group_ids (coordinator k))) (u_dcp_world_size u * u_pcp_world_size u)
       \<Longrightarrow> unitary_find_longest_cache_hit (coordinator k) u bhs max_len = Inl AssertionError"
      and "search_supported m (0 \<in> set (eagle_group_ids (coordinator k))) (u_dcp_world_size u * u_pcp_world_size u) \<Longrightarrow>
       \<exists>h n s. unitary_find_longest_cache_hit (coordinator k) u bhs max_len = Inr ([h], int n * u_block_size u)
         \<and> n \<le> length bhs \<and> hit_ok (k_pool k) bhs s n 0 h \<and> int n * u_block_size u \<le> max_len
         \<and> ((\<forall>c. chunk_of (m_spec m) = Some c \<longrightarrow> c mod u_block_size u = 0) \<longrightarrow>
              s = nat (get_num_skipped_tokens m (int n * u_block_size u) div u_block_size u))"
    then obtain h j s where "unitary_find_longest_cache_hit (coordinator k) u bhs max_len = Inr ([h], int j * u_block_size u)"
      "int j * u_block_size u \<le> max_len" using run' by fastforce
    with run' \<open>0 < u_block_size u\<close> show ?thesis by auto
  qed
next
  case (HybridKVCacheCoordinator h)
  with run hybrid_find_total[OF hybrid_groups_positive[OF ok(1) HybridKVCacheCoordinator] len(1), of "coordinator k" bhs]
  show ?thesis by (auto simp: coord_find_longest_cache_hit_def)
qed

lemma last_token_left: "0 < b \<Longrightarrow> n div b \<le> x \<Longrightarrow> (n - 1) div b \<le> (x :: int)"
  using zdiv_mono1[of "n - 1" n b] by simp

lemma kv_ok_hash_block_size: "kv_ok k \<Longrightarrow> k_enable_caching k \<Longrightarrow> 0 < hash_block_size (k_pool k)"
  by (simp add: kv_ok_def caching_ok_def)

lemma get_computed_blocks_some:
  assumes "kv_ok k" and "1 \<le> num_tokens r"
  shows "\<exists>res. get_computed_blocks k r = Some res"
  using coord_find_total[OF assms(1), of "num_tokens r - 1" "block_hashes r"] assms(2)
  by (auto simp: get_computed_blocks_def)

lemma get_computed_blocks_found:
  assumes "get_computed_blocks k r = Some (Inr (b, n, k'))"
  shows "(\<not> k_enable_caching k \<or> skip_reading_prefix_cache r) \<and> b = EmptyKVCacheBlocks (num_kv_cache_groups k) \<and> n = 0 \<and> k' = k
    \<or> k_enable_caching k \<and> (\<exists>hits. coord_find_longest_cache_hit (coordinator k) (block_hashes r) (num_tokens r - 1) = Some (Inr (hits, n))
        \<and> b = create_kv_cache_blocks k hits) \<and> (k' = k \<or> (\<exists>st. k' = k\<lparr>k_prefix_cache_stats := Some st\<rparr>))"
proof (cases "\<not> k_enable_caching k \<or> skip_reading_prefix_cache r")
  case True
  with assms show ?thesis by (auto simp: get_computed_blocks_def)
next
  case False
  with assms show ?thesis
    by (auto simp: get_computed_blocks_def ebind_Inr_iff split: if_splits option.splits)
qed

section \<open>The hit of a single group\<close>

definition prefix_hit :: "block_pool \<Rightarrow> kv_manager \<Rightarrow> bytes list \<Rightarrow> addr list \<Rightarrow> bool" where
  "prefix_hit p m hs h \<longleftrightarrow> length h \<le> length hs
     \<and> (\<forall>i < length h.
          h ! i = 0 \<and> int (Suc i) * m_block_size m \<le> get_num_skipped_tokens m (int (length h) * m_block_size m)
          \<or> bh p (h ! i) = Some (block_key (kv_cache_group_id m) (hs ! i)))"

definition chunk_aligned :: "kv_manager \<Rightarrow> bool" where
  "chunk_aligned m \<longleftrightarrow> (case chunk_of (m_spec m) of None \<Rightarrow> True | Some c \<Rightarrow> c mod m_block_size m = 0)"

lemma hit_ok_prefix_hit:
  assumes "hit_ok p hs s n (kv_cache_group_id m) h" "n \<le> length hs" "0 < m_block_size m" "null_block p = 0"
    and s: "s = nat (get_num_skipped_tokens m (int n * m_block_size m) div m_block_size m)"
  shows "prefix_hit p m hs h"
proof -
  let ?skip = "get_num_skipped_tokens m (int n * m_block_size m)"
  have "int (Suc i) * m_block_size m \<le> ?skip" if "i < s" for i
  proof -
    have "int (Suc i) \<le> ?skip div m_block_size m" using that s by simp
    then have "int (Suc i) * m_block_size m \<le> ?skip div m_block_size m * m_block_size m" using assms(3) by (intro mult_right_mono) auto
    also have "\<dots> \<le> ?skip" using assms(3) pos_mod_sign[of "m_block_size m" ?skip] div_mult_mod_eq[of ?skip "m_block_size m"] by linarith
    finally show ?thesis .
  qed
  with assms(1,2,4) show ?thesis unfolding prefix_hit_def hit_ok_def by auto
qed

lemma distinct_filter_nth:
  assumes "\<And>i j. i < length xs \<Longrightarrow> j < length xs \<Longrightarrow> xs ! i = xs ! j \<Longrightarrow> P (xs ! i) \<Longrightarrow> i = j"
  shows "distinct (filter P xs)"
  using assms
proof (induction xs)
  case (Cons x xs)
  have "distinct (filter P xs)"
    using Cons.prems[of "Suc _" "Suc _"] by (intro Cons.IH) auto
  moreover have "x \<notin> set xs" if "P x"
    using Cons.prems[of 0 "Suc _"] that by (auto simp: in_set_conv_nth)
  ultimately show ?case by auto
qed simp

lemma prefix_hit_table:
  assumes "prefix_hit p m hs h" "pool_rep p fs" "group_ok (kv_cache_group_id m)" "distinct hs"
  shows "table_ok p h" "\<forall>a \<in> set h. a \<noteq> 0 \<longrightarrow> bh p a \<noteq> None"
proof -
  have key: "bh p (h ! i) = Some (block_key (kv_cache_group_id m) (hs ! i))" if "i < length h" "h ! i \<noteq> 0" for i
    using assms(1) that by (auto simp: prefix_hit_def)
  then show "\<forall>a \<in> set h. a \<noteq> 0 \<longrightarrow> bh p a \<noteq> None" by (metis in_set_conv_nth option.discI)
  have "a \<in> set (blocks p)" if "a \<in> set h" for a
    using that key pool_rep_facts(3,10)[OF assms(2)] by (metis in_set_conv_nth)
  moreover have "i = j" if "i < length h" "j < length h" "h ! i = h ! j" "h ! i \<noteq> 0" for i j
  proof -
    have "hs ! i = hs ! j" using key[of i] key[of j] that block_key_inj[OF assms(3,3)] by auto
    with assms(1,4) that(1,2) show ?thesis by (simp add: prefix_hit_def nth_eq_iff_index_eq)
  qed
  then have "table_distinct h" unfolding table_distinct_def by (intro distinct_filter_nth)
  ultimately show "table_ok p h" by (auto simp: table_ok_def)
qed

lemma get_computed_blocks_returns:
  assumes "kv_ok k" "k_enable_caching k" "\<not> skip_reading_prefix_cache r"
    and "coord_find_longest_cache_hit (coordinator k) (block_hashes r) (num_tokens r - 1) = Some res"
  shows "(\<exists>e. res = Inl e \<and> get_computed_blocks k r = Some (Inl e))
    \<or> (\<exists>hits n k'. res = Inr (hits, n) \<and> get_computed_blocks k r = Some (Inr (create_kv_cache_blocks k hits, n, k')))"
  using assms by (cases res) (auto simp: get_computed_blocks_def kv_ok_def)

lemma kv_ok_null_block: "kv_ok k \<Longrightarrow> null_block (k_pool k) = 0"
  unfolding kv_ok_def coord_ok_def managers_inv_def using pool_rep_facts(2) by blast

lemma unitary_computed:
  assumes ok: "kv_ok k" and kind: "c_kind (coordinator k) = UnitaryKVCacheCoordinator u" and m: "kv_managers k = [m]"
    and toks: "1 \<le> num_tokens r" "num_tokens r div hash_block_size (k_pool k) \<le> int (length (block_hashes r))"
    and sup: "search_supported m (0 \<in> set (eagle_group_ids (coordinator k))) (u_dcp_world_size u * u_pcp_world_size u)"
    and chunk: "chunk_aligned m"
  shows "\<exists>b h k'. get_computed_blocks k r = Some (Inr (b, int (length h) * m_block_size m, k')) \<and> alloc_groups b = [h]
    \<and> (b = EmptyKVCacheBlocks 1 \<or> b = KVCacheBlocks [h] \<and> k_enable_caching k) \<and> prefix_hit (k_pool k) m (block_hashes r) h \<and> int (length h) * m_block_size m < num_tokens r"
proof (cases "\<not> k_enable_caching k \<or> skip_reading_prefix_cache r")
  case True
  have "num_kv_cache_groups k = 1" using ok m by (simp add: kv_ok_def)
  with True toks(1) show ?thesis
    by (intro exI[of _ "EmptyKVCacheBlocks 1"] exI[of _ "[]"] exI[of _ k]) (auto simp: get_computed_blocks_def prefix_hit_def)
next
  case False
  then have on: "k_enable_caching k" and read: "\<not> skip_reading_prefix_cache r" by auto
  have mk: "hash_block_size (k_pool k) = u_block_size u" "kv_cache_group_id m = 0" using ok kind m by (auto simp: kv_ok_def kind_ok_def)
  have len: "0 \<le> num_tokens r - 1" "(num_tokens r - 1) div u_block_size u \<le> int (length (block_hashes r))"
    using toks last_token_left[OF kv_ok_hash_block_size[OF ok on] toks(2)] mk by simp_all
  obtain m' where m': "kv_managers k = [m']" "m_block_size m' = u_block_size u" "0 < u_block_size u"
    "search_supported m' (0 \<in> set (eagle_group_ids (coordinator k))) (u_dcp_world_size u * u_pcp_world_size u) \<Longrightarrow>
       \<exists>h n s. unitary_find_longest_cache_hit (coordinator k) u (block_hashes r) (num_tokens r - 1) = Inr ([h], int n * u_block_size u)
         \<and> n \<le> length (block_hashes r) \<and> hit_ok (k_pool k) (block_hashes r) s n 0 h \<and> int n * u_block_size u \<le> num_tokens r - 1
         \<and> ((\<forall>c. chunk_of (m_spec m') = Some c \<longrightarrow> c mod u_block_size u = 0) \<longrightarrow>
              s = nat (get_num_skipped_tokens m' (int n * u_block_size u) div u_block_size u))"
    by (rule unitary_find_spec[OF ok on kind len]) (rule that)
  have mm: "m' = m" using m m'(1) by simp
  have al: "\<forall>c. chunk_of (m_spec m) = Some c \<longrightarrow> c mod u_block_size u = 0"
    using chunk m'(2) by (auto simp: chunk_aligned_def mm)
  obtain h n s where h: "unitary_find_longest_cache_hit (coordinator k) u (block_hashes r) (num_tokens r - 1) = Inr ([h], int n * u_block_size u)"
    "n \<le> length (block_hashes r)" "hit_ok (k_pool k) (block_hashes r) s n 0 h" "int n * u_block_size u \<le> num_tokens r - 1"
    "(\<forall>c. chunk_of (m_spec m) = Some c \<longrightarrow> c mod u_block_size u = 0) \<longrightarrow>
       s = nat (get_num_skipped_tokens m (int n * u_block_size u) div u_block_size u)"
    using m'(4)[unfolded mm, OF sup] by (elim exE conjE) (rule that)
  have bs: "m_block_size m = u_block_size u" using m'(2) mm by simp
  have "prefix_hit (k_pool k) m (block_hashes r) h"
    by (rule hit_ok_prefix_hit[of _ _ s n], unfold bs mk(2))
      (rule h(3), rule h(2), rule m'(3), rule kv_ok_null_block[OF ok], rule mp[OF h(5) al])
  moreover have "n = length h" using h(3) by (simp add: hit_ok_def)
  moreover have "num_kv_cache_groups k = 1" using ok m by (simp add: kv_ok_def)
  moreover obtain k' where "get_computed_blocks k r = Some (Inr (create_kv_cache_blocks k [h], int n * u_block_size u, k'))"
    using get_computed_blocks_returns[OF ok on read, of "Inr ([h], int n * u_block_size u)"] h(1) kind
    by (auto simp: coord_find_longest_cache_hit_def)
  ultimately show ?thesis
    using h(4) by (intro exI[of _ "create_kv_cache_blocks k [h]"] exI[of _ h] exI[of _ k']) (simp add: create_kv_cache_blocks_def bs on)
qed

lemma unitary_unsupported:
  assumes ok: "kv_ok k" "k_enable_caching k" and kind: "c_kind (coordinator k) = UnitaryKVCacheCoordinator u"
    and m: "kv_managers k = [m]" and read: "\<not> skip_reading_prefix_cache r"
    and sup: "\<not> search_supported m (0 \<in> set (eagle_group_ids (coordinator k))) (u_dcp_world_size u * u_pcp_world_size u)"
  shows "get_computed_blocks k r = Some (Inl AssertionError)"
proof -
  have mk: "spec_ok m" "m_class m \<noteq> CrossAttentionManager" "m_spec m = u_spec u"
    using ok kind m by (auto simp: kv_ok_def kind_ok_def coord_ok_def managers_inv_def manager_ok_def caching_ok_def)
  have "unitary_find_longest_cache_hit (coordinator k) u (block_hashes r) (num_tokens r - 1) = Inl AssertionError"
    using find_unsupported[OF mk(1,2) sup] m mk(3) by (simp add: unitary_find_longest_cache_hit_def py_nth_def)
  then show ?thesis
    using ok(2) read kind by (simp add: get_computed_blocks_def coord_find_longest_cache_hit_def)
qed

section \<open>Adopting a hit\<close>

definition is_new :: "kv_manager \<Rightarrow> string \<Rightarrow> bool" where
  "is_new m rid \<longleftrightarrow> req_table m rid = [] \<and> dget (num_cached_block m) rid = None"

definition shareable :: "block_pool \<Rightarrow> kv_manager \<Rightarrow> int \<Rightarrow> addr list \<Rightarrow> bool" where
  "shareable p m n h \<longleftrightarrow> table_ok p h \<and> (\<forall>a \<in> set h. a \<noteq> 0 \<longrightarrow> bh p a \<noteq> None) \<and> int (length h) * m_block_size m \<le> n"

lemma adopt_pre:
  assumes ok: "kv_ok k" and b: "alloc_groups b = hits" "b = EmptyKVCacheBlocks g \<and> n = 0 \<or> b = KVCacheBlocks hits \<and> k_enable_caching k"
    and hits: "length hits = length (kv_managers k)"
      "\<And>i. i < length hits \<Longrightarrow> is_new (kv_managers k ! i) (request_id r) \<and> shareable (k_pool k) (kv_managers k ! i) n (hits ! i)"
    and toks: "num_computed_tokens r = 0" "num_tokens r \<le> k_max_model_len k" "0 \<le> n" "n < num_tokens r" "0 \<le> look"
    and hash: "num_tokens r div hash_block_size (k_pool k) \<le> int (length (block_hashes r))"
  shows "slots_pre k r (num_tokens r - n) n b look 0"
proof -
  let ?need = "need_slots k n (num_tokens r - n) look"
  have need: "n \<le> ?need" using toks by (simp add: need_slots_def)
  have "call_ok (slots_called b 0) (k_pool k) (request_id r) n 0 ?need (kv_managers k ! i) (hits ! i)" if i: "i < length hits" for i
  proof (cases "slots_called b 0")
    case True
    with b have on: "k_enable_caching k" by (auto simp: slots_called_def)
    have mem: "kv_managers k ! i \<in> set (kv_managers k)" using i hits(1) by simp
    with ok on have "m_class (kv_managers k ! i) \<noteq> CrossAttentionManager" "m_enable_caching (kv_managers k ! i)"
      by (auto simp: kv_ok_def caching_ok_def)
    with hits(2)[OF i] toks(3) have "share_ok (k_pool k) (kv_managers k ! i) (request_id r) (hits ! i) n"
      by (simp add: share_ok_def passes_def is_new_def shareable_def)
    with True toks(3) need show ?thesis by (simp add: call_ok_def)
  next
    case False
    then have e: "b = EmptyKVCacheBlocks g" "n = 0" using b(2) by (auto simp: slots_called_def)
    then have "hits ! i = []" using b(1) i by auto
    with False need e(2) hits(2)[OF i] show ?thesis by (simp add: call_ok_def is_new_def)
  qed
  with hits(1) b(1) toks hash show ?thesis by (simp add: slots_pre_def coord_call_ok_def)
qed

lemma prefix_hit_shareable:
  assumes "kv_ok k" "k_enable_caching k" "m \<in> set (kv_managers k)" and "prefix_hit (k_pool k) m hs h" "distinct hs"
    and "int (length h) * m_block_size m \<le> n"
  shows "shareable (k_pool k) m n h"
proof -
  obtain fs where rep: "pool_rep (k_pool k) fs" using assms(1) unfolding kv_ok_def coord_ok_def managers_inv_def by blast
  have g: "group_ok (kv_cache_group_id m)" using assms(1-3) by (auto simp: kv_ok_def caching_ok_def)
  show ?thesis using prefix_hit_table[OF assms(4) rep g assms(5)] assms(6) by (simp add: shareable_def)
qed

lemma shareable_Nil: "0 \<le> n \<Longrightarrow> shareable p m n []"
  by (simp add: shareable_def table_ok_def table_distinct_def)

lemma get_computed_then_allocate:
  assumes ok: "kv_ok k" and get: "get_computed_blocks k r = Some (Inr (b, n, k1))"
    and pre: "slots_pre k r (num_tokens r - n) n b look 0" and new: "num_computed_tokens r = 0"
  shows "\<exists>res k2 r'. allocate_slots env k1 r (num_tokens r - n) n (Some b) look 0 delay enc must_fit = Inr (res, k2, r')
    \<and> (case res of
         None \<Rightarrow> r' = r
       | Some out \<Rightarrow> covered (coordinator k2) (request_id r) (min (num_tokens r + look) (k_max_model_len k)) enc
           \<and> sole (k_pool k2) (alloc_groups out))"
proof -
  have k1: "k1 = k \<or> (\<exists>st. k1 = k\<lparr>k_prefix_cache_stats := Some st\<rparr>)" using get_computed_blocks_found[OF get] by blast
  have pre1: "slots_pre k1 r (num_tokens r - n) n (computed_arg k1 (Some b)) look 0"
    using k1 pre by (auto simp: computed_arg_def slots_pre_def need_slots_def Let_def)
  have ok1: "kv_ok k1" and len: "k_max_model_len k1 = k_max_model_len k" using k1 ok by auto
  obtain res k2 r' where r: "allocate_slots env k1 r (num_tokens r - n) n (Some b) look 0 delay enc must_fit = Inr (res, k2, r')"
    "res = None \<longrightarrow> r' = r \<and> list_all2 same_shape (kv_managers k1) (kv_managers k2)" "\<forall>out. res = Some out \<longrightarrow>
        covered (coordinator k2) (request_id r) (need_slots k1 (num_computed_tokens r + n + 0) (num_tokens r - n) look) enc
        \<and> sole (k_pool k2) (alloc_groups out)"
    using allocate_slots_ok[OF ok1 pre1, of env delay enc must_fit] by (elim exE conjE) (rule that)
  then have "case res of None \<Rightarrow> r' = r
       | Some out \<Rightarrow> covered (coordinator k2) (request_id r) (min (num_tokens r + look) (k_max_model_len k)) enc
           \<and> sole (k_pool k2) (alloc_groups out)"
    using new by (cases res) (simp_all add: need_slots_def len)
  with r(1) show ?thesis by (intro exI conjI)
qed

lemma full_unitary_longest:
  assumes ok: "kv_ok k" "k_enable_caching k" and kind: "c_kind (coordinator k) = UnitaryKVCacheCoordinator u"
    and m: "kv_managers k = [m]" "m_class m = FullAttentionManager" and len: "0 \<le> max_len"
  shows "\<exists>h. unitary_find_longest_cache_hit (coordinator k) u bhs max_len = Inr ([h], int (length h) * m_block_size m)
    \<and> length h = length (takeWhile (all_cached (k_pool k) [0]) (take (nat (max_len div m_block_size m)) bhs))
        - (if 0 \<in> set (eagle_group_ids (coordinator k)) then 1 else 0)"
proof -
  let ?bs = "u_block_size u" and ?dcp = "u_dcp_world_size u" and ?pcp = "u_pcp_world_size u" and ?e = "0 \<in> set (eagle_group_ids (coordinator k))"
  have mk: "m_spec m = u_spec u" "m_block_size m = ?bs" "kv_cache_group_id m = 0"
      "m_block_size m = spec_block_size (m_spec m) * (?dcp * ?pcp)" "1 \<le> ?dcp" "1 \<le> ?pcp"
    using ok(1) kind m(1) by (auto simp: kv_ok_def kind_ok_def)
  have sp: "spec_ok m" using ok m by (auto simp: kv_ok_def coord_ok_def managers_inv_def manager_ok_def)
  have sr: "searchable (k_pool k) [0]" using ok m mk by (intro kv_ok_searchable) auto
  have "is_full (m_spec m) \<or> chunk_of (m_spec m) \<noteq> None" using sp m(2) by (cases "m_spec m") (auto simp: spec_ok_def)
  then have full: "is_full (u_spec u) \<or> chunk_of (u_spec u) \<noteq> None" by (simp only: mk(1))
  have pos: "0 < ?bs" using sp mk(2) by (simp add: spec_ok_def)
  have ranks: "?bs = spec_block_size (u_spec u) * (if ?dcp * ?pcp > 1 then ?dcp * ?pcp else 1)"
    using mk mult_mono[of 1 ?dcp 1 ?pcp] by auto
  let ?n = "full_hit_len (k_pool k) [0] bhs (nat (max_len div ?bs)) ?e ?bs ?bs"
  obtain hits where r: "full_find_longest_cache_hit (PlainHashes bhs) max_len [0] (k_pool k) (u_spec u) ?e ?bs ?dcp ?pcp = Inr hits"
    "hits_ok (k_pool k) [0] bhs 0 ?n hits"
    using full_find_spec[OF sr full len pos ranks _ refl, of bhs "PlainHashes bhs" ?e ?bs] by (auto simp: hashes_list_def hashes_from_def)
  then obtain h where h: "hits = [h]" "length h = ?n" by (auto simp: hits_ok_def list_all2_Cons1 hit_ok_def)
  with r(1) m mk(1,2) show ?thesis
    by (simp add: unitary_find_longest_cache_hit_def py_nth_def find_longest_cache_hit_def full_hit_len_def aligned_len_same)
qed

section \<open>Properties\<close>

text \<open>
  C11. Looking up the prefix cache always ends: in every reachable state, for a request with at least
  one token, \<^verbatim>\<open>get_computed_blocks\<close> returns (a value or an exception), whatever the mix of attention
  types. The fixed point search of the hybrid coordinator restarts over all groups whenever one of
  them shortens the candidate; the candidate is never negative and strictly decreases.
\<close>

theorem get_computed_blocks_terminates:
  assumes "kv_reachable env k" and "1 \<le> num_tokens r"
  shows "\<exists>res. get_computed_blocks k r = Some res"
  by (rule get_computed_blocks_some[OF kv_reachable_ok[OF assms(1)] assms(2)])

lemma demo_a_tokens: "num_tokens demo_a = 5" "request_id demo_a = ''a''" "length (block_hashes demo_a) = 2"
  "num_computed_tokens demo_a = 0" "\<not> skip_reading_prefix_cache demo_a" "distinct (block_hashes demo_a)"
  by code_simp+

theorem get_computed_blocks_terminates_witness:
  "\<exists>res. get_computed_blocks (after_init 8 [demo_full, demo_window 4]) demo_a = Some res"
  using get_computed_blocks_terminates[OF demo_reachable, of demo_a] by (simp add: demo_a_tokens)

text \<open>
  C12. A prefix hit always leaves a token to compute: when \<^verbatim>\<open>get_computed_blocks\<close> returns in a reachable
  state, for a request with a hash for each of its full blocks, the number of computed tokens it
  reports is not negative and smaller than the number of tokens of the request.
\<close>

theorem computed_tokens_bounds:
  assumes "kv_reachable env k" and "1 \<le> num_tokens r"
    and "num_tokens r div hash_block_size (k_pool k) \<le> int (length (block_hashes r))"
    and "get_computed_blocks k r = Some (Inr (b, n, k'))"
  shows "0 \<le> n \<and> n < num_tokens r"
proof -
  note ok = kv_reachable_ok[OF assms(1)]
  consider (none) "n = 0" | (found) hits where "k_enable_caching k"
    "coord_find_longest_cache_hit (coordinator k) (block_hashes r) (num_tokens r - 1) = Some (Inr (hits, n))"
    using get_computed_blocks_found[OF assms(4)] by blast
  then show ?thesis
  proof cases
    case none
    with assms(2) show ?thesis by simp
  next
    case found
    have "(num_tokens r - 1) div hash_block_size (k_pool k) \<le> int (length (block_hashes r))"
      by (rule last_token_left[OF kv_ok_hash_block_size[OF ok found(1)] assms(3)])
    with coord_find_bounds[OF ok found(1) _ _ found(2)] assms(2) show ?thesis by simp
  qed
qed

definition demo_b :: request where
  "demo_b = demo_request ''b'' [[1], [2], [3]] [1, 2, 3, 4, 5, 6, 7]"

lemma demo_b_tokens: "num_tokens demo_b = 7" "request_id demo_b = ''b''" "length (block_hashes demo_b) = 3"
  "num_computed_tokens demo_b = 0" "\<not> skip_reading_prefix_cache demo_b" "distinct (block_hashes demo_b)"
  by code_simp+

theorem computed_tokens_bounds_witness:
  "\<exists>b n k'. get_computed_blocks (after_alloc 8 [demo_full, demo_window 4]) demo_b = Some (Inr (b, n, k'))
     \<and> alloc_groups b = [[1, 2], [4, 5]] \<and> n = 4 \<and> 0 \<le> n \<and> n < num_tokens demo_b"
proof -
  let ?k = "after_alloc 8 [demo_full, demo_window 4]"
  have ev: "(case get_computed_blocks ?k demo_b of Some (Inr (b, n, _)) \<Rightarrow> alloc_groups b = [[1, 2], [4, 5]] \<and> n = 4 | _ \<Rightarrow> False)
      \<and> hash_block_size (k_pool ?k) = 2"
    by code_simp
  then show ?thesis
    using computed_tokens_bounds[OF demo_alloc_reachable, of demo_b]
    by (auto simp: demo_b_tokens split: option.splits sum.splits)
qed

lemma demo_start:
  assumes "config_valid (demo_config n ss) True 1 1 2" and "case demo_init n ss of Inl _ \<Rightarrow> False | Inr _ \<Rightarrow> True"
  shows "kv_reachable demo_env (after_init n ss)"
  using assms(2) by (intro kv_start[OF assms(1), of 16 None False False False]) (auto simp: after_init_def demo_init_def split: sum.splits)

lemma demo_next:
  assumes "config_valid (demo_config n ss) True 1 1 2" and "case demo_init n ss of Inl _ \<Rightarrow> False | Inr _ \<Rightarrow> True"
    and "slots_pre (after_init n ss) demo_a 5 0 (EmptyKVCacheBlocks (num_kv_cache_groups (after_init n ss))) 0 0"
    and "case demo_alloc (after_init n ss) demo_a of Inl _ \<Rightarrow> False | Inr _ \<Rightarrow> True"
  shows "kv_reachable demo_env (after_alloc n ss)"
proof (rule kv_next[OF demo_start[OF assms(1,2)]])
  show "kv_step demo_env (after_init n ss) (after_alloc n ss)"
    using assms(3,4) kv_allocate[of "after_init n ss" demo_a 5 0 None 0 0 demo_env False 0 True]
    by (auto simp: after_alloc_def demo_alloc_def computed_arg_def demo_a_tokens split: sum.splits prod.splits)
qed

lemma demo_window_reachable: "kv_reachable demo_env (after_alloc 8 [demo_window 2])"
  by (rule demo_next) code_simp+


definition unit_of :: "kv_cache_manager \<Rightarrow> unitary_fields" where
  "unit_of k = (case c_kind (coordinator k) of UnitaryKVCacheCoordinator u \<Rightarrow> u)"

definition demo_unitary :: "kv_cache_manager \<Rightarrow> bool" where
  "demo_unitary k \<longleftrightarrow> (case c_kind (coordinator k) of UnitaryKVCacheCoordinator _ \<Rightarrow> True | _ \<Rightarrow> False)
     \<and> length (kv_managers k) = 1 \<and> k_enable_caching k \<and> hash_block_size (k_pool k) = 2 \<and> m_block_size (kv_managers k ! 0) = 2
     \<and> k_max_model_len k = 16"

lemma demo_unitary_parts:
  assumes "demo_unitary k"
  shows "c_kind (coordinator k) = UnitaryKVCacheCoordinator (unit_of k)" "kv_managers k = [kv_managers k ! 0]"
    "k_enable_caching k" "hash_block_size (k_pool k) = 2" "m_block_size (kv_managers k ! 0) = 2" "k_max_model_len k = 16"
  using assms by (auto simp: demo_unitary_def unit_of_def length_Suc_conv split: coordinator_kind.splits)


text \<open>
  C10. Full attention finds the longest cached prefix: in every reachable state of a manager with one
  full attention group and caching on, the hit has exactly as many blocks as the request has leading
  block hashes under which some block is cached, counted over the full blocks that leave the last
  token to compute; with speculative decoding by an EAGLE head the last of them is dropped so that
  its hidden states are recomputed.
\<close>

theorem full_attention_hit_longest:
  assumes "kv_reachable env k" and "k_enable_caching k" and "c_kind (coordinator k) = UnitaryKVCacheCoordinator u"
    and "kv_managers k = [m]" and "m_class m = FullAttentionManager"
    and "1 \<le> num_tokens r" and "\<not> skip_reading_prefix_cache r"
  shows "\<exists>b h k'. get_computed_blocks k r = Some (Inr (b, int (length h) * m_block_size m, k')) \<and> alloc_groups b = [h]
    \<and> length h = length (takeWhile (\<lambda>x. \<exists>a. bh (k_pool k) a = Some (block_key 0 x))
          (take (nat ((num_tokens r - 1) div m_block_size m)) (block_hashes r)))
        - (if 0 \<in> set (eagle_group_ids (coordinator k)) then 1 else 0)"
proof -
  note ok = kv_reachable_ok[OF assms(1)]
  have "0 \<le> num_tokens r - 1" using assms(6) by simp
  from full_unitary_longest[OF ok assms(2-5) this, of "block_hashes r"] obtain h where
    h: "unitary_find_longest_cache_hit (coordinator k) u (block_hashes r) (num_tokens r - 1) = Inr ([h], int (length h) * m_block_size m)"
      "length h = length (takeWhile (all_cached (k_pool k) [0]) (take (nat ((num_tokens r - 1) div m_block_size m)) (block_hashes r)))
        - (if 0 \<in> set (eagle_group_ids (coordinator k)) then 1 else 0)"
    by blast
  have all: "all_cached (k_pool k) [0] = (\<lambda>x. \<exists>a. bh (k_pool k) a = Some (block_key 0 x))" by (simp add: all_cached_def fun_eq_iff)
  have "num_kv_cache_groups k = 1" using ok assms(4) by (simp add: kv_ok_def)
  then have b: "alloc_groups (create_kv_cache_blocks k [h]) = [h]" by (simp add: create_kv_cache_blocks_def)
  obtain k' where "get_computed_blocks k r = Some (Inr (create_kv_cache_blocks k [h], int (length h) * m_block_size m, k'))"
    using get_computed_blocks_returns[OF ok assms(2,7), of "Inr ([h], int (length h) * m_block_size m)"] h(1) assms(3)
    by (auto simp: coord_find_longest_cache_hit_def)
  with b h(2)[unfolded all] show ?thesis by (intro exI conjI)
qed

lemma demo_full_reachable: "kv_reachable demo_env (after_alloc 8 [demo_full])"
  by (rule demo_next) code_simp+

theorem full_attention_hit_longest_witness:
  "\<exists>b k'. get_computed_blocks (after_alloc 8 [demo_full]) demo_b = Some (Inr (b, 4, k')) \<and> alloc_groups b = [[1, 2]]
    \<and> length (takeWhile (\<lambda>x. \<exists>a. bh (k_pool (after_alloc 8 [demo_full])) a = Some (block_key 0 x)) [[1], [2], [3]]) = 2"
proof -
  let ?k = "after_alloc 8 [demo_full]"
  have un: "demo_unitary ?k" by code_simp
  have cls: "m_class (kv_managers ?k ! 0) = FullAttentionManager" and eagle: "0 \<notin> set (eagle_group_ids (coordinator ?k))"
    and hs: "block_hashes demo_b = [[1], [2], [3]]" by code_simp+
  have ev: "case get_computed_blocks ?k demo_b of Some (Inr (b, n, _)) \<Rightarrow> alloc_groups b = [[1, 2]] | _ \<Rightarrow> False" by code_simp
  note parts = demo_unitary_parts[OF un]
  obtain b h k' where h: "get_computed_blocks ?k demo_b = Some (Inr (b, int (length h) * m_block_size (kv_managers ?k ! 0), k'))"
    "alloc_groups b = [h]" "length h = length (takeWhile (\<lambda>x. \<exists>a. bh (k_pool ?k) a = Some (block_key 0 x)) (take 3 (block_hashes demo_b)))"
    using full_attention_hit_longest[OF demo_full_reachable parts(3,1,2) cls, of demo_b] eagle parts(5)
    by (auto simp: demo_b_tokens)
  moreover have "h = [1, 2]" using ev h(1,2) by simp
  ultimately show ?thesis using parts(5) hs by simp
qed

text \<open>
  C13. An unsupported search is refused: in every reachable state of a manager with one group and
  caching on, when context parallelism is combined with an attention other than full attention, or
  an EAGLE head with chunked local attention, \<^verbatim>\<open>get_computed_blocks\<close> raises \<^verbatim>\<open>AssertionError\<close> for every
  request that reads the prefix cache. No such configuration silently returns a wrong hit.
\<close>

theorem unsupported_search_refused:
  assumes "kv_reachable env k" and "k_enable_caching k" and "c_kind (coordinator k) = UnitaryKVCacheCoordinator u"
    and "kv_managers k = [m]" and "\<not> skip_reading_prefix_cache r"
    and "\<not> search_supported m (0 \<in> set (eagle_group_ids (coordinator k))) (u_dcp_world_size u * u_pcp_world_size u)"
  shows "get_computed_blocks k r = Some (Inl AssertionError)"
  by (rule unitary_unsupported[OF kv_reachable_ok[OF assms(1)] assms(2-6)])

definition demo_eagle :: "kv_cache_spec list \<Rightarrow> kv_cache_manager" where
  "demo_eagle ss = (case kv_cache_manager_init (demo_config 8 ss) 16 2 None True True False False 1 1 of Inr k \<Rightarrow> k)"

theorem unsupported_search_refused_witness:
  "get_computed_blocks (demo_eagle [demo_chunk 4]) demo_b = Some (Inl AssertionError)"
proof -
  let ?k = "demo_eagle [demo_chunk 4]"
  have c: "config_valid (demo_config 8 [demo_chunk 4]) True 1 1 2" by code_simp
  have i: "case kv_cache_manager_init (demo_config 8 [demo_chunk 4]) 16 2 None True True False False 1 1 of Inl _ \<Rightarrow> False | Inr _ \<Rightarrow> True"
    by code_simp
  then have reach: "kv_reachable demo_env ?k"
    by (intro kv_start[OF c, of 16 None True False False]) (auto simp: demo_eagle_def split: sum.splits)
  have un: "demo_unitary ?k" by code_simp
  have "\<not> search_supported (kv_managers ?k ! 0) (0 \<in> set (eagle_group_ids (coordinator ?k)))
      (u_dcp_world_size (unit_of ?k) * u_pcp_world_size (unit_of ?k))" by code_simp
  then show ?thesis
    using unsupported_search_refused[OF reach demo_unitary_parts(3,1,2)[OF un]] demo_b_tokens(5) by blast
qed



end
