(* ===== verification/Hybrid_Hits.thy ===== *)
theory Hybrid_Hits
  imports Prefix_Hits
begin

text \<open>
  Prefix hits with two attention types, one of them full attention: the search of the hybrid
  coordinator returns, for every group, blocks for exactly the reported length, and each of them
  holds what its position asks for. With an EAGLE head and Mamba layers this fails.
\<close>

section \<open>Hits by group\<close>

lemma store_hits_length [simp]: "length (store_hits ids hits bg) = length bg"
  by (induction ids hits bg rule: store_hits.induct) simp_all

lemma store_hits_other: "j \<notin> nat ` set ids \<Longrightarrow> store_hits ids hits bg ! j = bg ! j"
  by (induction ids hits bg rule: store_hits.induct) auto

lemma store_hits_at:
  assumes "list_all2 P ids hits" and "\<forall>i \<in> set ids. 0 \<le> i \<and> nat i < length bg" and "i \<in> set ids"
  shows "\<exists>h. store_hits ids hits bg ! nat i = Some h \<and> P i h"
  using assms
proof (induction ids hits arbitrary: bg rule: list_all2_induct)
  case (Cons g gs h hs)
  show ?case
  proof (cases "i \<in> set gs")
    case True
    with Cons.prems Cons.IH[of "bg[nat g := Some h]"] show ?thesis by simp
  next
    case False
    then have "i = g" using Cons.prems by simp
    moreover have "nat g \<notin> nat ` set gs" using False Cons.prems \<open>i = g\<close> by (auto simp: eq_nat_nat_iff)
    ultimately show ?thesis using Cons.hyps Cons.prems by (simp add: store_hits_other)
  qed
qed simp

lemma truncate_hits_length [simp]: "length (truncate_hits n ids bg) = length bg"
  by (induction ids arbitrary: bg) simp_all

lemma truncate_hits_other: "j \<notin> nat ` set ids \<Longrightarrow> truncate_hits n ids bg ! j = bg ! j"
  by (induction ids arbitrary: bg) auto

lemma truncate_hits_at:
  assumes "bg ! j = Some h" "j < length bg" "j \<in> nat ` set ids"
  shows "truncate_hits n ids bg ! j = Some (take n h)"
  using assms
proof (induction ids arbitrary: bg h)
  case (Cons g gs)
  let ?bg = "bg[nat g := map_option (take n) (bg ! nat g)]"
  show ?case
  proof (cases "j \<in> nat ` set gs")
    case True
    show ?thesis
    proof (cases "j = nat g")
      case True
      with Cons.prems Cons.IH[of ?bg "take n h"] \<open>j \<in> nat ` set gs\<close> show ?thesis by simp
    next
      case False
      with Cons.prems Cons.IH[of ?bg h] True show ?thesis by simp
    qed
  next
    case False
    with Cons.prems show ?thesis by (auto simp: truncate_hits_other)
  qed
qed simp

section \<open>One visit\<close>

definition scaled_hashes :: "bytes list \<Rightarrow> int \<Rightarrow> int \<Rightarrow> bytes list" where
  "scaled_hashes hs hbs bs = (case hashes_at_block_size hs hbs bs of Inr l \<Rightarrow> hashes_list l | Inl _ \<Rightarrow> [])"

lemma describes_manager:
  assumes ok: "kv_ok k" and kind: "c_kind (coordinator k) = HybridKVCacheCoordinator h" and g: "g \<in> set (attention_groups h)"
    and i: "i \<in> set (ag_ids g)"
  shows "0 \<le> i" "nat i < length (kv_managers k)" "m_spec (kv_managers k ! nat i) = ag_spec g"
    "m_class (kv_managers k ! nat i) = ag_class g" "kv_cache_group_id (kv_managers k ! nat i) = i"
    "m_block_size (kv_managers k ! nat i) = spec_block_size (ag_spec g)" "spec_ok (kv_managers k ! nat i)"
    "ag_ids g \<noteq> []" "spec_block_size (ag_spec g) dvd lcm_block_size h"
proof -
  have d: "group_describes (kv_managers k) (lcm_block_size h) g" using ok kind g by (auto simp: kv_ok_def kind_ok_def)
  with i show *: "0 \<le> i" "nat i < length (kv_managers k)" "m_spec (kv_managers k ! nat i) = ag_spec g"
    "m_class (kv_managers k ! nat i) = ag_class g" "kv_cache_group_id (kv_managers k ! nat i) = i"
    "m_block_size (kv_managers k ! nat i) = spec_block_size (ag_spec g)"
    "ag_ids g \<noteq> []" "spec_block_size (ag_spec g) dvd lcm_block_size h"
    by (auto simp: group_describes_def)
  show "spec_ok (kv_managers k ! nat i)"
    using ok nth_mem[OF *(2)] by (auto simp: kv_ok_def coord_ok_def managers_inv_def manager_ok_def)
qed

definition group_supported :: "hybrid_fields \<Rightarrow> attention_group \<Rightarrow> bool" where
  "group_supported h g \<longleftrightarrow> (case chunk_of (ag_spec g) of None \<Rightarrow> True
     | Some c \<Rightarrow> lcm_block_size h = spec_block_size (ag_spec g) \<and> c mod spec_block_size (ag_spec g) = 0)"

lemma hybrid_visit_spec:
  assumes ok: "kv_ok k" "k_enable_caching k" and kind: "c_kind (coordinator k) = HybridKVCacheCoordinator h"
    and g: "g \<in> set (attention_groups h)" "group_supported h g" "idx \<notin> set (eagle_attn_group_indices h)"
    and bg: "length bg = length (kv_managers k)" "is_full (ag_spec g) \<longrightarrow> bg ! nat (hd (ag_ids g)) = None"
    and len: "0 \<le> cur" "cur \<le> tot" "tot div hash_block_size (k_pool k) \<le> int (length bhs)"
  obtains hits n ver' where
    "hybrid_visit (k_pool k) h bhs max_len (idx, g) (cur, ver, bg) = Inr (int n * spec_block_size (ag_spec g), ver', store_hits (ag_ids g) hits bg)"
    "list_all2 (\<lambda>i t. length t = n \<and> prefix_hit (k_pool k) (kv_managers k ! nat i)
        (scaled_hashes bhs (hash_block_size (k_pool k)) (spec_block_size (ag_spec g))) t) (ag_ids g) hits"
    "lcm_block_size h dvd int n * spec_block_size (ag_spec g)" "int n * spec_block_size (ag_spec g) \<le> cur"
proof -
  let ?bs = "spec_block_size (ag_spec g)" and ?ids = "ag_ids g" and ?p = "k_pool k" and ?hbs = "hash_block_size (k_pool k)"
  obtain i0 rest where ids: "?ids = i0 # rest" using ok kind g(1) by (cases ?ids) (auto simp: kv_ok_def kind_ok_def group_describes_def)
  note d = describes_manager[OF ok(1) kind g(1)]
  have i0: "i0 \<in> set ?ids" by (simp add: ids)
  let ?m = "kv_managers k ! nat i0"
  have m: "?m \<in> set (kv_managers k)" using d(2)[OF i0] by simp
  have mk: "m_class ?m \<noteq> CrossAttentionManager" "m_block_size ?m mod ?hbs = 0" "0 < ?hbs"
    using ok m by (auto simp: kv_ok_def caching_ok_def)
  have hbs: "h_hash_block_size h = ?hbs" using ok(1) kind by (auto simp: kv_ok_def kind_ok_def)
  have pos: "0 < ?bs" using d(6,7)[OF i0] by (simp add: spec_ok_def)
  have sr: "searchable ?p ?ids"
  proof (rule kv_ok_searchable[OF ok d(8)[OF i0]])
    show "\<forall>i \<in> set ?ids. \<exists>m \<in> set (kv_managers k). kv_cache_group_id m = i"
      using d(2,5) nth_mem by blast
  qed
  have dv: "?bs mod ?hbs = 0" using mk(2) d(6)[OF i0] by simp
  obtain l where l: "hashes_at_block_size bhs ?hbs ?bs = Inr l" "cur div ?bs \<le> int (length (hashes_list l))"
    by (rule full_blocks_hashed[OF mk(3) pos dv len(2,3)])
  have sc: "scaled_hashes bhs ?hbs ?bs = hashes_list l" by (simp add: scaled_hashes_def l(1))
  have ch: "\<forall>c. chunk_of (m_spec ?m) = Some c \<longrightarrow> \<not> False \<and> lcm_block_size h = ?bs"
    and al: "\<forall>c. chunk_of (m_spec ?m) = Some c \<longrightarrow> c mod ?bs = 0"
    using g(2) d(3)[OF i0] by (auto simp: group_supported_def)
  have r1: "m_block_size ?m = spec_block_size (m_spec ?m) * (1 * 1)" using d(3,6)[OF i0] by simp
  have N: "nat (cur div ?bs) \<le> length (hashes_list l)" using l(2) by simp
  obtain hits n s where f: "find_longest_cache_hit (m_class ?m) l cur ?ids ?p (m_spec ?m) False (lcm_block_size h) 1 1 = Inr hits"
    "hits_ok ?p ?ids (hashes_list l) s n hits"
    "(\<forall>c. chunk_of (m_spec ?m) = Some c \<longrightarrow> c mod ?bs = 0) \<longrightarrow> s = nat (get_num_skipped_tokens ?m (int n * ?bs) div ?bs)"
    "?bs = lcm_block_size h \<or> int n * ?bs mod lcm_block_size h = 0" "int n * ?bs \<le> cur"
    using find_hit_sound[OF sr d(7)[OF i0] mk(1) d(6)[OF i0, symmetric] r1 _ _ _ ch refl len(1) N]
    by (auto elim!: exE conjE intro: that)
  have n0: "length (hashes_list l) \<ge> n" using f(2) by (simp add: hits_ok_def)
  have pre: "prefix_hit ?p (kv_managers k ! nat i) (hashes_list l) t \<and> length t = n" if i: "i \<in> set ?ids" and t: "hit_ok ?p (hashes_list l) s n i t" for i t
  proof
    show "length t = n" using t by (simp add: hit_ok_def)
    have same: "get_num_skipped_tokens (kv_managers k ! nat i) = get_num_skipped_tokens ?m"
      using d(3,4)[OF i] d(3,4)[OF i0] by (simp add: fun_eq_iff get_num_skipped_tokens_def split: manager_class.split)
    show "prefix_hit ?p (kv_managers k ! nat i) (hashes_list l) t"
      by (rule hit_ok_prefix_hit[of _ _ s n], unfold d(5,6)[OF i] same)
        (rule t, rule n0, rule pos, rule kv_ok_null_block[OF ok(1)], rule mp[OF f(3) al])
  qed
  have hits: "list_all2 (\<lambda>i t. length t = n \<and> prefix_hit ?p (kv_managers k ! nat i) (scaled_hashes bhs ?hbs ?bs) t) ?ids hits"
    unfolding sc
  proof (rule list_all2_all_nthI)
    show len: "length ?ids = length hits" using f(2) by (auto simp: hits_ok_def dest: list_all2_lengthD)
    fix j assume j: "j < length ?ids"
    then have "hit_ok ?p (hashes_list l) s n (?ids ! j) (hits ! j)" using f(2) by (simp add: hits_ok_def list_all2_nthD)
    from pre[OF nth_mem[OF j] this] show "length (hits ! j) = n \<and> prefix_hit ?p (kv_managers k ! nat (?ids ! j)) (hashes_list l) (hits ! j)"
      by simp
  qed
  then obtain t ts where ht: "hits = t # ts" "length t = n" by (auto simp: ids list_all2_Cons1)
  have bgi: "i0 < int (length bg)" "0 \<le> i0" "(is_full (ag_spec g) \<and> bg ! nat i0 \<noteq> None) = False"
    using d(1,2)[OF i0] bg by (auto simp: ids nat_less_iff)
  have "hybrid_visit ?p h bhs max_len (idx, g) (cur, ver, bg)
      = Inr (int n * ?bs, if int n * ?bs < cur then [] else ver, store_hits ?ids hits bg)"
    using f(1) bgi g(3) ht l(1)
    by (auto simp: hybrid_visit_def Let_def ids py_nth_def hbs d(3,4)[OF i0, unfolded ids])
  then show thesis using hits _ f(5)
    by (rule that) (use f(4) in \<open>auto simp: mod_eq_0_iff_dvd\<close>)
qed

section \<open>Full attention and one other type\<close>

definition group_hit :: "kv_cache_manager \<Rightarrow> bytes list \<Rightarrow> int \<Rightarrow> nat \<Rightarrow> addr list \<Rightarrow> bool" where
  "group_hit k hs n i t \<longleftrightarrow> int (length t) * m_block_size (kv_managers k ! i) = n
     \<and> prefix_hit (k_pool k) (kv_managers k ! i) (scaled_hashes hs (hash_block_size (k_pool k)) (m_block_size (kv_managers k ! i))) t"

definition two_types :: "hybrid_fields \<Rightarrow> bool" where
  "two_types h \<longleftrightarrow> (case attention_groups h of
     [g, g'] \<Rightarrow> is_full (ag_spec g) \<and> \<not> is_full (ag_spec g') \<and> group_supported h g'
   | _ \<Rightarrow> False) \<and> eagle_attn_group_indices h = []"

lemma prefix_hit_full_take:
  "prefix_hit p m hs t \<Longrightarrow> m_class m = FullAttentionManager \<Longrightarrow> 0 < m_block_size m \<Longrightarrow> prefix_hit p m hs (take n t)"
  by (auto simp: prefix_hit_def get_num_skipped_tokens_def mult_le_0_iff)

lemma full_class:
  "is_full s \<Longrightarrow> chunk_of s = None" "spec_ok m \<Longrightarrow> is_full (m_spec m) \<Longrightarrow> m_class m = FullAttentionManager"
  by (cases s; simp) (cases "m_spec m"; auto simp: spec_ok_def)

lemma two_groups_stored:
  assumes h1: "list_all2 P ids1 hits1" and h2: "list_all2 Q ids2 hits2"
    and r: "\<forall>i \<in> set ids1 \<union> set ids2. 0 \<le> i \<and> nat i < N" and disj: "set ids1 \<inter> set ids2 = {}"
    and bg: "bg = truncate_hits q ids1 (store_hits ids2 hits2 (store_hits ids1 hits1 (replicate N None)))"
  shows "i \<in> set ids1 \<Longrightarrow> \<exists>t. bg ! nat i = Some (take q t) \<and> P i t"
    and "i \<in> set ids2 \<Longrightarrow> \<exists>t. bg ! nat i = Some t \<and> Q i t"
    and "int j \<notin> set ids1 \<Longrightarrow> int j \<notin> set ids2 \<Longrightarrow> j < N \<Longrightarrow> bg ! j = None"
proof -
  let ?b1 = "store_hits ids1 hits1 (replicate N None :: addr list option list)"
  have off: "nat i \<notin> nat ` set ids2" if "i \<in> set ids1" for i using that r disj by (auto simp: eq_nat_nat_iff)
  have off': "nat i \<notin> nat ` set ids1" if "i \<in> set ids2" for i using that r disj by (auto simp: eq_nat_nat_iff)
  show "\<exists>t. bg ! nat i = Some (take q t) \<and> P i t" if i: "i \<in> set ids1"
  proof -
    obtain t where t: "?b1 ! nat i = Some t" "P i t" using store_hits_at[OF h1, of "replicate N None" i] r i by auto
    have "store_hits ids2 hits2 ?b1 ! nat i = Some t" by (simp add: store_hits_other off[OF i] t(1))
    with r i t(2) show ?thesis unfolding bg by (intro exI[of _ t]) (auto intro: truncate_hits_at)
  qed
  show "\<exists>t. bg ! nat i = Some t \<and> Q i t" if i: "i \<in> set ids2"
    using store_hits_at[OF h2, of ?b1 i] r i unfolding bg by (simp add: truncate_hits_other[OF off'[OF i]])
  show "bg ! j = None" if j: "int j \<notin> set ids1" "int j \<notin> set ids2" "j < N"
  proof -
    have "j \<notin> nat ` set ids1" "j \<notin> nat ` set ids2" using j(1,2) r by force+
    with j(3) show ?thesis unfolding bg by (simp add: truncate_hits_other store_hits_other)
  qed
qed

lemma hybrid_two_spec:
  assumes ok: "kv_ok k" "k_enable_caching k" and kind: "c_kind (coordinator k) = HybridKVCacheCoordinator h" and two: "two_types h"
    and len: "0 \<le> max_len" "max_len div hash_block_size (k_pool k) \<le> int (length bhs)"
  obtains hits n where "hybrid_find_longest_cache_hit (coordinator k) h bhs max_len = Some (Inr (hits, n))"
    "length hits = length (kv_managers k)" "0 \<le> n" "n \<le> max_len"
    "\<forall>g \<in> set (attention_groups h). \<forall>i \<in> set (ag_ids g). group_hit k bhs n (nat i) (hits ! nat i)"
    "\<forall>i. (\<forall>g \<in> set (attention_groups h). int i \<notin> set (ag_ids g)) \<longrightarrow> i < length hits \<longrightarrow> hits ! i = []"
proof -
  obtain g1 g2 where gs: "attention_groups h = [g1, g2]" "is_full (ag_spec g1)" "\<not> is_full (ag_spec g2)" "group_supported h g2"
    and e: "0 \<notin> set (eagle_attn_group_indices h)" "1 \<notin> set (eagle_attn_group_indices h)"
    using two by (auto simp: two_types_def split: list.splits)
  have mem: "g1 \<in> set (attention_groups h)" "g2 \<in> set (attention_groups h)" by (simp_all add: gs)
  let ?p = "k_pool k" and ?ms = "kv_managers k" and ?bs1 = "spec_block_size (ag_spec g1)" and ?bs2 = "spec_block_size (ag_spec g2)"
  let ?bg0 = "replicate (length ?ms) None :: addr list option list"
  let ?hs = "\<lambda>bs. scaled_hashes bhs (hash_block_size ?p) bs"
  note d1 = describes_manager[OF ok(1) kind mem(1)] and d2 = describes_manager[OF ok(1) kind mem(2)]
  have ne: "ag_ids g1 \<noteq> []" using ok(1) kind mem(1) by (auto simp: kv_ok_def kind_ok_def group_describes_def)
  have sup1: "group_supported h g1" using full_class(1)[OF gs(2)] by (simp add: group_supported_def)
  have b0: "is_full (ag_spec g1) \<longrightarrow> ?bg0 ! nat (hd (ag_ids g1)) = None" using d1(2)[OF hd_in_set[OF ne]] by simp
  obtain hits1 n1 ver1 where v1: "hybrid_visit ?p h bhs max_len (0, g1) (max_len, [], ?bg0) = Inr (int n1 * ?bs1, ver1, store_hits (ag_ids g1) hits1 ?bg0)"
    "list_all2 (\<lambda>i t. length t = n1 \<and> prefix_hit ?p (?ms ! nat i) (?hs ?bs1) t) (ag_ids g1) hits1"
    "lcm_block_size h dvd int n1 * ?bs1" "int n1 * ?bs1 \<le> max_len"
    by (rule hybrid_visit_spec[OF ok kind mem(1) sup1 e(1) length_replicate b0 len(1) order_refl len(2)]) (rule that)
  let ?bg1 = "store_hits (ag_ids g1) hits1 ?bg0"
  have l1: "length ?bg1 = length ?ms" and b1: "is_full (ag_spec g2) \<longrightarrow> ?bg1 ! nat (hd (ag_ids g2)) = None" by (simp_all add: gs(3))
  have pos: "0 < ?bs1" using hybrid_groups_positive[OF ok(1) kind] mem(1) by blast
  have c0: "0 \<le> int n1 * ?bs1" using pos by simp
  obtain hits2 n2 ver2 where v2: "hybrid_visit ?p h bhs max_len (1, g2) (int n1 * ?bs1, ver1, ?bg1) = Inr (int n2 * ?bs2, ver2, store_hits (ag_ids g2) hits2 ?bg1)"
    "list_all2 (\<lambda>i t. length t = n2 \<and> prefix_hit ?p (?ms ! nat i) (?hs ?bs2) t) (ag_ids g2) hits2"
    "lcm_block_size h dvd int n2 * ?bs2" "int n2 * ?bs2 \<le> int n1 * ?bs1"
    by (rule hybrid_visit_spec[OF ok kind mem(2) gs(4) e(2) l1 b1 c0 v1(4) len(2)]) (rule that)
  let ?n = "int n2 * ?bs2" and ?q = "nat (int n2 * ?bs2 div ?bs1)" and ?bg2 = "store_hits (ag_ids g2) hits2 ?bg1"
  let ?out = "map (\<lambda>b. case b of Some bs \<Rightarrow> bs | None \<Rightarrow> []) (truncate_hits ?q (ag_ids g1) ?bg2)"
  have disj: "set (ag_ids g1) \<inter> set (ag_ids g2) = {}" using d1(3) d2(3) gs(2,3) by fastforce
  have range: "\<forall>i \<in> set (ag_ids g1) \<union> set (ag_ids g2). 0 \<le> i \<and> nat i < length ?ms" using d1(1,2) d2(1,2) by blast
  note stored = two_groups_stored[OF v1(2) v2(2) range disj refl, where q = ?q]
  have q: "?bs1 dvd ?n" using d1(9)[OF hd_in_set[OF ne]] v2(3) dvd_trans by blast
  have n: "0 \<le> ?n" "?n \<le> max_len" "int ?q * ?bs1 = ?n" "?q \<le> n1"
  proof -
    show nn: "0 \<le> ?n" using hybrid_groups_positive[OF ok(1) kind] mem(2) by (simp add: less_imp_le)
    show "?n \<le> max_len" using v1(4) v2(4) by linarith
    have "0 \<le> ?n div ?bs1" using nn pos by (simp add: pos_imp_zdiv_nonneg_iff)
    then show qn: "int ?q * ?bs1 = ?n" using q by simp
    have "int ?q * ?bs1 \<le> int n1 * ?bs1" using v2(4) unfolding qn .
    then have "int ?q \<le> int n1" using pos by (rule mult_right_le_imp_le)
    then show "?q \<le> n1" by (rule iffD1[OF of_nat_le_iff])
  qed
  have N: "length (kv_cache_groups (c_config (coordinator k))) = length ?ms" using ok(1) kind by (auto simp: kv_ok_def kind_ok_def)
  have pass: "hybrid_pass ?p h bhs max_len (max_len, [], ?bg0) = Inr (?n, ver2, ?bg2)"
    using v1(1) v2(1) by (simp add: hybrid_pass_def gs(1))
  have "hybrid_loop ?p h bhs max_len max_len [] ?bg0 = Some (Inr (?n, ?bg2))"
    using pass n(2) gs(1,2) by (subst hybrid_loop.simps) (simp add: is_simple_hybrid_def)
  then have run: "hybrid_find_longest_cache_hit (coordinator k) h bhs max_len = Some (Inr (?out, ?n))"
    by (simp add: hybrid_find_longest_cache_hit_def N hybrid_finish_def gs(1,2) Let_def)
  have g1hit: "group_hit k bhs ?n (nat i) (?out ! nat i)" if i: "i \<in> set (ag_ids g1)" for i
  proof -
    obtain t where t: "truncate_hits ?q (ag_ids g1) ?bg2 ! nat i = Some (take ?q t)" "length t = n1" "prefix_hit ?p (?ms ! nat i) (?hs ?bs1) t"
      using stored(1)[OF i] by blast
    have "prefix_hit ?p (?ms ! nat i) (?hs ?bs1) (take ?q t)"
      by (rule prefix_hit_full_take[OF t(3) full_class(2)[OF d1(7)[OF i]]]) (simp_all add: d1(3,6)[OF i] gs(2) pos)
    moreover have "int (length (take ?q t)) * ?bs1 = ?n" using t(2) n(3,4) by simp
    ultimately show ?thesis using t(1) d1(2,6)[OF i] by (simp add: group_hit_def)
  qed
  have g2hit: "group_hit k bhs ?n (nat i) (?out ! nat i)" if i: "i \<in> set (ag_ids g2)" for i
    using stored(2)[OF i] d2(2,6)[OF i] by (auto simp: group_hit_def)
  have rest: "?out ! j = []" if "\<forall>g \<in> set (attention_groups h). int j \<notin> set (ag_ids g)" "j < length ?out" for j
    using stored(3)[of j] that by (simp add: gs(1))
  show thesis
    by (rule that[OF run _ n(1,2)]) (use g1hit g2hit rest in \<open>auto simp: gs(1)\<close>)
qed

section \<open>Properties\<close>

lemma two_types_nonempty:
  assumes "kv_ok k" and "c_kind (coordinator k) = HybridKVCacheCoordinator h" and "two_types h"
  shows "\<exists>g \<in> set (attention_groups h). \<exists>i. i \<in> set (ag_ids g)"
proof -
  obtain g where g: "g \<in> set (attention_groups h)" using assms(3) by (auto simp: two_types_def split: list.splits)
  with assms(1,2) have "ag_ids g \<noteq> []" by (auto simp: kv_ok_def kind_ok_def group_describes_def)
  with g show ?thesis using hd_in_set by blast
qed

lemma computed_groups:
  assumes "length hits = num_kv_cache_groups k"
  shows "alloc_groups (create_kv_cache_blocks k hits) = hits"
proof (cases "list_ex (\<lambda>g. g \<noteq> []) hits")
  case False
  then have "\<forall>x \<in> set hits. x = []" by (simp add: list_ex_iff)
  then have "hits = replicate (length hits) []" by (simp add: replicate_length_same)
  with False assms show ?thesis by (simp add: create_kv_cache_blocks_def)
qed (simp add: create_kv_cache_blocks_def)

lemma hybrid_computed:
  assumes ok: "kv_ok k" "k_enable_caching k" and kind: "c_kind (coordinator k) = HybridKVCacheCoordinator h" and two: "two_types h"
    and toks: "1 \<le> num_tokens r" "num_tokens r div hash_block_size (k_pool k) \<le> int (length (block_hashes r))"
    and read: "\<not> skip_reading_prefix_cache r"
  obtains hits n k' where "get_computed_blocks k r = Some (Inr (create_kv_cache_blocks k hits, n, k'))"
    "length hits = length (kv_managers k)" "0 \<le> n" "n < num_tokens r" "num_kv_cache_groups k = length (kv_managers k)"
    "\<forall>g \<in> set (attention_groups h). \<forall>i \<in> set (ag_ids g). group_hit k (block_hashes r) n (nat i) (hits ! nat i)"
    "\<forall>i. (\<forall>g \<in> set (attention_groups h). int i \<notin> set (ag_ids g)) \<longrightarrow> i < length hits \<longrightarrow> hits ! i = []"
proof -
  have len: "0 \<le> num_tokens r - 1" "(num_tokens r - 1) div hash_block_size (k_pool k) \<le> int (length (block_hashes r))"
    using toks last_token_left[OF kv_ok_hash_block_size[OF ok] toks(2)] by simp_all
  obtain hits n where r: "hybrid_find_longest_cache_hit (coordinator k) h (block_hashes r) (num_tokens r - 1) = Some (Inr (hits, n))"
    "length hits = length (kv_managers k)" "0 \<le> n" "n \<le> num_tokens r - 1"
    "\<forall>g \<in> set (attention_groups h). \<forall>i \<in> set (ag_ids g). group_hit k (block_hashes r) n (nat i) (hits ! nat i)"
    "\<forall>i. (\<forall>g \<in> set (attention_groups h). int i \<notin> set (ag_ids g)) \<longrightarrow> i < length hits \<longrightarrow> hits ! i = []"
    by (rule hybrid_two_spec[OF ok kind two len]) (rule that)
  have "coord_find_longest_cache_hit (coordinator k) (block_hashes r) (num_tokens r - 1) = Some (Inr (hits, n))"
    using r(1) kind by (simp add: coord_find_longest_cache_hit_def)
  from get_computed_blocks_returns[OF ok read this] obtain k' where
    "get_computed_blocks k r = Some (Inr (create_kv_cache_blocks k hits, n, k'))" by auto
  moreover have "num_kv_cache_groups k = length (kv_managers k)" using ok(1) by (simp add: kv_ok_def)
  ultimately show thesis using r that by simp
qed


definition hybrid_of :: "kv_cache_manager \<Rightarrow> hybrid_fields" where
  "hybrid_of k = (case c_kind (coordinator k) of HybridKVCacheCoordinator h \<Rightarrow> h)"

definition demo_hybrid :: "kv_cache_manager \<Rightarrow> bool" where
  "demo_hybrid k \<longleftrightarrow> (case c_kind (coordinator k) of HybridKVCacheCoordinator h \<Rightarrow> two_types h | _ \<Rightarrow> False)
     \<and> k_enable_caching k \<and> hash_block_size (k_pool k) = 2 \<and> map m_block_size (kv_managers k) = [2, 2] \<and> k_max_model_len k = 16
     \<and> map ag_ids (attention_groups (hybrid_of k)) = [[0], [1]]"

lemma demo_hybrid_parts:
  assumes "demo_hybrid k"
  shows "c_kind (coordinator k) = HybridKVCacheCoordinator (hybrid_of k)" "two_types (hybrid_of k)" "k_enable_caching k"
    "hash_block_size (k_pool k) = 2" "k_max_model_len k = 16" "length (kv_managers k) = 2"
    "\<exists>g \<in> set (attention_groups (hybrid_of k)). ag_ids g = [0]" "\<exists>g \<in> set (attention_groups (hybrid_of k)). ag_ids g = [1]"
  using assms by (auto simp: demo_hybrid_def hybrid_of_def length_map[of m_block_size "kv_managers k", symmetric] split: coordinator_kind.splits)

lemma demo_pair_reachable: "kv_reachable demo_env (after_alloc 16 [demo_full, demo_window 2])"
  by (rule demo_next) code_simp+




section \<open>Speculative decoding with Mamba layers\<close>

definition demo_mamba :: kv_cache_spec where
  "demo_mamba = MambaSpec \<lparr>mb_block_size = 2, shapes = [], dtypes = [], mb_page_size_padded = None,
     mb_cache_mode = ''all'', mb_num_speculative_blocks = 0\<rparr>"

definition demo_nine :: "string \<Rightarrow> request" where
  "demo_nine rid = demo_request rid [[1], [2], [3], [4]] [1, 2, 3, 4, 5, 6, 7, 8, 9]"

definition eagle_init :: "kv_cache_manager res" where
  "eagle_init = kv_cache_manager_init (demo_config 20 [demo_full, demo_mamba]) 16 2 None True True False False 1 1"

definition eagle_start :: kv_cache_manager where
  "eagle_start = (case eagle_init of Inr k \<Rightarrow> k)"

definition eagle_cached :: kv_cache_manager where
  "eagle_cached = (case demo_alloc eagle_start (demo_nine ''a'') of Inr (_, k, _) \<Rightarrow> k)"

lemma eagle_cached_reachable: "kv_reachable demo_env eagle_cached"
proof -
  have c: "config_valid (demo_config 20 [demo_full, demo_mamba]) True 1 1 2" by code_simp
  have i: "case eagle_init of Inl _ \<Rightarrow> False | Inr _ \<Rightarrow> True" by code_simp
  have start: "kv_reachable demo_env eagle_start"
    using i by (intro kv_start[OF c, of 16 None True False False]) (auto simp: eagle_start_def eagle_init_def split: sum.splits)
  have pre: "slots_pre eagle_start (demo_nine ''a'') 9 0 (EmptyKVCacheBlocks (num_kv_cache_groups eagle_start)) 0 0" by code_simp
  have r: "case demo_alloc eagle_start (demo_nine ''a'') of Inl _ \<Rightarrow> False | Inr _ \<Rightarrow> True" by code_simp
  have n: "num_tokens (demo_nine ''a'') = 9" by code_simp
  have "kv_step demo_env eagle_start eagle_cached"
    using pre r kv_allocate[of eagle_start "demo_nine ''a''" 9 0 None 0 0 demo_env False 0 True]
    by (auto simp: eagle_cached_def demo_alloc_def computed_arg_def n split: sum.splits prod.splits)
  with start show ?thesis by (rule kv_next)
qed

text \<open>
  C28. With an EAGLE head and Mamba layers the hybrid search reports tokens it has no blocks for: there
  is a reachable state in which \<^verbatim>\<open>get_computed_blocks\<close> returns without an exception eight computed tokens,
  but blocks of two tokens each for only six of them in the full attention group. The EAGLE drop
  shortens the full attention hit to six tokens; the Mamba group is then asked for one more block,
  ignores the flag and keeps it, so the candidate grows back to eight and the loop takes it as final.
\<close>

theorem hybrid_eagle_hit_gap:
  "kv_reachable demo_env eagle_cached
   \<and> (\<exists>b k'. get_computed_blocks eagle_cached (demo_nine ''b'') = Some (Inr (b, 8, k'))
        \<and> alloc_groups b = [[1, 2, 3], [0, 0, 0, 9]])
   \<and> map (\<lambda>m. (m_class m, m_block_size m)) (kv_managers eagle_cached) = [(FullAttentionManager, 2), (MambaManager, 2)]"
proof -
  have "case get_computed_blocks eagle_cached (demo_nine ''b'') of
      Some (Inr (b, n, _)) \<Rightarrow> n = 8 \<and> alloc_groups b = [[1, 2, 3], [0, 0, 0, 9]] | _ \<Rightarrow> False" by code_simp
  moreover have "map (\<lambda>m. (m_class m, m_block_size m)) (kv_managers eagle_cached) = [(FullAttentionManager, 2), (MambaManager, 2)]"
    by code_simp
  ultimately show ?thesis using eagle_cached_reachable by (auto split: option.splits sum.splits)
qed

end
