(* ===== verification/Heapq.thy ===== *)
theory Heapq
  imports KV_Prelude
begin

text \<open>
  Python's \<^verbatim>\<open>heapq\<close> on a list, as the priority queue of the scheduler uses it: \<^verbatim>\<open>heappush\<close>, \<^verbatim>\<open>heappop\<close> and
  \<^verbatim>\<open>heapify\<close> with their helpers \<^verbatim>\<open>_siftdown\<close> and \<^verbatim>\<open>_siftup\<close>, for any comparison. Over a strict linear order
  they keep the heap property and the elements, and the root is the least element.
\<close>

section \<open>The operations\<close>

abbreviation parent :: "nat \<Rightarrow> nat" where
  "parent i \<equiv> (i - 1) div 2"

function heap_siftdown :: "('a \<Rightarrow> 'a \<Rightarrow> bool) \<Rightarrow> 'a \<Rightarrow> nat \<Rightarrow> nat \<Rightarrow> 'a list \<Rightarrow> 'a list" where
  "heap_siftdown lt newitem startpos pos xs =
     (if pos > startpos \<and> lt newitem (xs ! parent pos)
      then heap_siftdown lt newitem startpos (parent pos) (xs[pos := xs ! parent pos])
      else xs[pos := newitem])"
  by pat_completeness auto
termination
  by (relation "measure (\<lambda>(_, _, _, pos, _). pos)") auto

declare heap_siftdown.simps [simp del]

definition smaller_child :: "('a \<Rightarrow> 'a \<Rightarrow> bool) \<Rightarrow> nat \<Rightarrow> 'a list \<Rightarrow> nat" where
  "smaller_child lt pos xs =
     (let c = 2 * pos + 1 in if c + 1 < length xs \<and> \<not> lt (xs ! c) (xs ! (c + 1)) then c + 1 else c)"

function bubble :: "('a \<Rightarrow> 'a \<Rightarrow> bool) \<Rightarrow> nat \<Rightarrow> 'a list \<Rightarrow> nat \<times> 'a list" where
  "bubble lt pos xs =
     (if 2 * pos + 1 < length xs
      then let c = smaller_child lt pos xs in bubble lt c (xs[pos := xs ! c])
      else (pos, xs))"
  by pat_completeness auto
termination
  by (relation "measure (\<lambda>(_, pos, xs). length xs - pos)") (auto simp: smaller_child_def Let_def)

declare bubble.simps [simp del]

definition heap_siftup :: "('a \<Rightarrow> 'a \<Rightarrow> bool) \<Rightarrow> nat \<Rightarrow> 'a list \<Rightarrow> 'a list" where
  "heap_siftup lt pos xs = (let (p, ys) = bubble lt pos xs in heap_siftdown lt (xs ! pos) pos p ys)"

definition heappush :: "('a \<Rightarrow> 'a \<Rightarrow> bool) \<Rightarrow> 'a list \<Rightarrow> 'a \<Rightarrow> 'a list" where
  "heappush lt heap item = heap_siftdown lt item 0 (length heap) (heap @ [item])"

definition heappop :: "('a \<Rightarrow> 'a \<Rightarrow> bool) \<Rightarrow> 'a list \<Rightarrow> ('a \<times> 'a list) res" where
  "heappop lt heap =
     (if heap = [] then Inl IndexError
      else let lastelt = last heap; rest = butlast heap
           in if rest = [] then Inr (lastelt, [])
              else Inr (rest ! 0, heap_siftup lt 0 (rest[0 := lastelt])))"

definition heapify :: "('a \<Rightarrow> 'a \<Rightarrow> bool) \<Rightarrow> 'a list \<Rightarrow> 'a list" where
  "heapify lt xs = fold (heap_siftup lt) (rev [0..<length xs div 2]) xs"

section \<open>Elements\<close>

lemma mset_move:
  assumes "p < length xs" "c < length xs" "p \<noteq> c"
  shows "mset (xs[p := xs ! c, c := v]) = mset (xs[p := v])"
proof -
  have "mset ((xs[p := v])[p := xs[p := v] ! c, c := xs[p := v] ! p]) = mset (xs[p := v])"
    using assms by (intro mset_swap) simp_all
  with assms show ?thesis by simp
qed

lemma heap_siftdown_length [simp]: "length (heap_siftdown lt v s pos xs) = length xs"
proof (induction lt v s pos xs rule: heap_siftdown.induct)
  case (1 lt v s pos xs)
  then show ?case by (subst heap_siftdown.simps) auto
qed

lemma heap_siftdown_mset:
  "pos < length xs \<Longrightarrow> mset (heap_siftdown lt v s pos xs) = mset (xs[pos := v])"
proof (induction lt v s pos xs rule: heap_siftdown.induct)
  case (1 lt v s pos xs)
  show ?case
  proof (cases "pos > s \<and> lt v (xs ! parent pos)")
    case True
    then have "parent pos < pos" by auto
    with 1 True mset_move[of pos xs "parent pos" v] show ?thesis by (subst heap_siftdown.simps) auto
  next
    case False
    then show ?thesis by (subst heap_siftdown.simps) auto
  qed
qed

lemma smaller_child_range: "2 * pos + 1 < length xs \<Longrightarrow> pos < smaller_child lt pos xs \<and> smaller_child lt pos xs < length xs
    \<and> parent (smaller_child lt pos xs) = pos"
  by (auto simp: smaller_child_def Let_def)

lemma bubble_elements:
  "pos < length xs \<Longrightarrow> bubble lt pos xs = (p, ys) \<Longrightarrow>
     length ys = length xs \<and> p < length xs \<and> mset (ys[p := v]) = mset (xs[pos := v])"
proof (induction lt pos xs arbitrary: p ys rule: bubble.induct)
  case (1 lt pos xs)
  show ?case
  proof (cases "2 * pos + 1 < length xs")
    case True
    let ?c = "smaller_child lt pos xs"
    note r = smaller_child_range[OF True, of lt]
    have "bubble lt ?c (xs[pos := xs ! ?c]) = (p, ys)" using 1(3) True by (subst (asm) bubble.simps) (simp add: Let_def)
    with 1(1)[OF True refl] r mset_move[of pos xs ?c v] 1(2) show ?thesis by auto
  next
    case False
    with 1(2,3) show ?thesis by (subst (asm) bubble.simps) auto
  qed
qed

lemma heap_siftup_elements:
  assumes "pos < length xs"
  shows "length (heap_siftup lt pos xs) = length xs" "mset (heap_siftup lt pos xs) = mset xs"
proof -
  obtain p ys where b: "bubble lt pos xs = (p, ys)" by (cases "bubble lt pos xs")
  note e = bubble_elements[OF assms b, of "xs ! pos"]
  then show "length (heap_siftup lt pos xs) = length xs" "mset (heap_siftup lt pos xs) = mset xs"
    by (simp_all add: heap_siftup_def b heap_siftdown_mset)
qed

section \<open>The tree below a position\<close>

fun subtree :: "nat \<Rightarrow> nat \<Rightarrow> bool" where
  "subtree s i = (if s < i then subtree s (parent i) else i = s)"

declare subtree.simps [simp del]

lemma subtree_self: "subtree s s"
  by (subst subtree.simps) simp

lemma subtree_ge: "subtree s i \<Longrightarrow> s \<le> i"
  by (subst (asm) subtree.simps) (auto split: if_splits)

lemma subtree_parent: "subtree s i \<Longrightarrow> s < i \<Longrightarrow> subtree s (parent i) \<and> s \<le> parent i"
  by (subst (asm) subtree.simps) (auto dest: subtree_ge)

lemma subtree_child: "subtree s i \<Longrightarrow> parent c = i \<Longrightarrow> i < c \<Longrightarrow> subtree s c"
  using subtree_ge[of s i] by (subst subtree.simps) auto

section \<open>The heap property\<close>

locale heap_order =
  fixes lt :: "'a \<Rightarrow> 'a \<Rightarrow> bool"
  assumes lt_irrefl: "\<not> lt a a"
    and lt_trans: "lt a b \<Longrightarrow> lt b c \<Longrightarrow> lt a c"
    and lt_total: "a \<noteq> b \<Longrightarrow> lt a b \<or> lt b a"
begin

definition le :: "'a \<Rightarrow> 'a \<Rightarrow> bool" where
  "le a b \<longleftrightarrow> \<not> lt b a"

lemma le_refl [simp]: "le a a"
  by (simp add: le_def lt_irrefl)

lemma le_trans: "le a b \<Longrightarrow> le b c \<Longrightarrow> le a c"
  unfolding le_def using lt_total lt_trans by metis

lemma lt_le: "lt a b \<Longrightarrow> le a b"
  unfolding le_def using lt_irrefl lt_trans by blast

text \<open>\<open>ordered s xs i\<close>: the edge from \<open>i\<close> to its parent is in order, if the parent is not in front of \<open>s\<close>.\<close>

definition ordered :: "nat \<Rightarrow> 'a list \<Rightarrow> nat \<Rightarrow> bool" where
  "ordered s xs i \<longleftrightarrow> (0 < i \<and> s \<le> parent i \<longrightarrow> le (xs ! parent i) (xs ! i))"

definition heap_from :: "nat \<Rightarrow> 'a list \<Rightarrow> bool" where
  "heap_from s xs \<longleftrightarrow> (\<forall>i < length xs. ordered s xs i)"

definition hole :: "nat \<Rightarrow> nat \<Rightarrow> 'a list \<Rightarrow> bool" where
  "hole s pos xs \<longleftrightarrow> (\<forall>i < length xs. i \<noteq> pos \<and> (0 < i \<longrightarrow> parent i \<noteq> pos) \<longrightarrow> ordered s xs i)
     \<and> (\<forall>i < length xs. 0 < i \<and> parent i = pos \<and> s < pos \<longrightarrow> le (xs ! parent pos) (xs ! i))"

lemma siftdown_heap:
  assumes "hole s pos xs" "subtree s pos" "pos < length xs"
    and "\<forall>i < length xs. 0 < i \<and> parent i = pos \<longrightarrow> le v (xs ! i)"
  shows "heap_from s (heap_siftdown lt v s pos xs)"
  using assms
proof (induction pos arbitrary: xs rule: less_induct)
  case (less pos)
  let ?pp = "parent pos"
  show ?case
  proof (cases "s < pos \<and> lt v (xs ! ?pp)")
    case True
    then have u: "subtree s ?pp" "s \<le> ?pp" "?pp < pos" using subtree_parent[OF less.prems(2)] by auto
    let ?ys = "xs[pos := xs ! ?pp]"
    have low: "le v (?ys ! i)" if i: "i < length ?ys" "0 < i" "parent i = ?pp" for i
    proof (cases "i = pos")
      case True
      with \<open>s < pos \<and> lt v (xs ! ?pp)\<close> less.prems(3) show ?thesis by (simp add: lt_le)
    next
      case False
      then have "le (xs ! ?pp) (xs ! i)" using less.prems(1) i u by (auto simp: hole_def ordered_def)
      with True False show ?thesis using le_trans[OF lt_le, of v "xs ! ?pp" "xs ! i"] by simp
    qed
    have "hole s ?pp ?ys"
      unfolding hole_def
    proof (intro conjI allI impI)
      fix i assume i: "i < length ?ys" "i \<noteq> ?pp \<and> (0 < i \<longrightarrow> parent i \<noteq> ?pp)"
      show "ordered s ?ys i"
      proof (cases "0 < i \<and> parent i = pos")
        case True
        then have "i \<noteq> pos" by auto
        with True i less.prems(1,3) \<open>s < pos \<and> _\<close> show ?thesis by (simp add: ordered_def hole_def)
      next
        case False
        with i less.prems(1) show ?thesis by (cases "i = pos") (auto simp: ordered_def hole_def)
      qed
    next
      fix i assume i: "i < length ?ys" "0 < i \<and> parent i = ?pp \<and> s < ?pp"
      then have up: "le (xs ! parent ?pp) (xs ! ?pp)"
        using less.prems(1,3) u subtree_parent[OF u(1)] by (auto simp: hole_def ordered_def)
      have pp: "parent ?pp < ?pp" using i(2) by linarith
      show "le (?ys ! parent ?pp) (?ys ! i)"
      proof (cases "i = pos")
        case True
        with up pp u(3) less.prems(3) show ?thesis by simp
      next
        case False
        then have "le (xs ! ?pp) (xs ! i)" using less.prems(1) i u by (auto simp: hole_def ordered_def)
        with False up pp u(3) show ?thesis using le_trans[of "xs ! parent ?pp" "xs ! ?pp" "xs ! i"] by simp
      qed
    qed
    then have "heap_from s (heap_siftdown lt v s ?pp ?ys)"
      using less.IH[OF u(3), of ?ys] u low less.prems(3) by simp
    with True show ?thesis by (subst heap_siftdown.simps) simp
  next
    case False
    have "ordered s (xs[pos := v]) i" if i: "i < length xs" for i
    proof (cases "i = pos")
      case True
      with False subtree_ge[OF less.prems(2)] i show ?thesis
        by (cases "s < pos") (auto simp: ordered_def nth_list_update le_def)
    next
      case ne: False
      with less.prems i show ?thesis by (cases "parent i = pos") (auto simp: ordered_def hole_def nth_list_update)
    qed
    with False show ?thesis by (subst heap_siftdown.simps) (auto simp: heap_from_def)
  qed
qed

lemma bubble_hole:
  assumes "hole s pos xs" "subtree s pos" "pos < length xs" "bubble lt pos xs = (p, ys)"
  shows "hole s p ys \<and> subtree s p \<and> length ys \<le> 2 * p + 1"
  using assms
proof (induction "length xs - pos" arbitrary: pos xs rule: less_induct)
  case less
  show ?case
  proof (cases "2 * pos + 1 < length xs")
    case True
    let ?c = "smaller_child lt pos xs"
    let ?zs = "xs[pos := xs ! ?c]"
    note r = smaller_child_range[OF True, of lt]
    have small: "le (xs ! ?c) (xs ! i)" if "i < length xs" "0 < i" "parent i = pos" for i
    proof -
      have "i = 2 * pos + 1 \<or> i = 2 * pos + 2" using that(2,3) by linarith
      then show ?thesis using that(1) by (auto simp: smaller_child_def Let_def le_def lt_irrefl dest: lt_trans)
    qed
    have "hole s ?c ?zs"
      unfolding hole_def
    proof (intro conjI allI impI)
      fix i assume i: "i < length ?zs" "i \<noteq> ?c \<and> (0 < i \<longrightarrow> parent i \<noteq> ?c)"
      show "ordered s ?zs i"
      proof (cases "i = pos")
        case True
        with less.prems(1,3) r subtree_ge[OF less.prems(2)] show ?thesis
          by (cases "s < pos") (auto simp: ordered_def hole_def)
      next
        case False
        with i less.prems(1) small show ?thesis by (cases "parent i = pos") (auto simp: ordered_def hole_def)
      qed
    next
      fix i assume i: "i < length ?zs" "0 < i \<and> parent i = ?c \<and> s < ?c"
      then have "i \<noteq> pos" "parent i \<noteq> pos" using r by auto
      with i r less.prems(1) have "le (xs ! ?c) (xs ! i)" by (auto simp: hole_def ordered_def)
      with i r \<open>i \<noteq> pos\<close> less.prems(3) show "le (?zs ! parent ?c) (?zs ! i)" by simp
    qed
    moreover have "subtree s ?c" using subtree_child[OF less.prems(2)] r by blast
    moreover have "bubble lt ?c ?zs = (p, ys)" using less.prems(4) True by (subst (asm) bubble.simps) (simp add: Let_def)
    ultimately show ?thesis using less.hyps[of ?zs ?c] r diff_less_mono2[of pos ?c "length xs"] less.prems(3) by simp
  next
    case False
    with less.prems show ?thesis by (subst (asm) bubble.simps) auto
  qed
qed

lemma siftup_heap:
  assumes "heap_from (Suc s) xs" "s < length xs"
  shows "heap_from s (heap_siftup lt s xs)"
proof -
  obtain p ys where b: "bubble lt s xs = (p, ys)" by (cases "bubble lt s xs")
  have "hole s s xs" using assms(1) by (auto simp: hole_def heap_from_def ordered_def le_less)
  from bubble_hole[OF this subtree_self assms(2) b] have h: "hole s p ys" "subtree s p" "length ys \<le> 2 * p + 1" by auto
  have "p < length ys" using bubble_elements[OF assms(2) b] by simp
  then have "heap_from s (heap_siftdown lt (xs ! s) s p ys)"
    using h by (intro siftdown_heap) auto
  then show ?thesis by (simp add: heap_siftup_def b)
qed

lemma push_heap: "heap_from 0 xs \<Longrightarrow> heap_from 0 (heappush lt xs x)"
proof -
  assume h: "heap_from 0 xs"
  have sub: "subtree 0 n" for n by (induction n rule: less_induct) (subst subtree.simps, auto)
  have leaf: "parent i \<noteq> length xs" if "i < length (xs @ [x])" "0 < i" for i using that by simp
  have hole: "hole 0 (length xs) (xs @ [x])"
    unfolding hole_def
  proof (intro conjI allI impI)
    fix i assume i: "i < length (xs @ [x])" "i \<noteq> length xs \<and> (0 < i \<longrightarrow> parent i \<noteq> length xs)"
    then have "i < length xs" "0 < i \<longrightarrow> parent i < length xs" by auto
    with h show "ordered 0 (xs @ [x]) i" by (simp add: heap_from_def ordered_def nth_append)
  qed (use leaf in blast)
  show ?thesis unfolding heappush_def by (rule siftdown_heap[OF hole sub]) (simp, use leaf in blast)
qed

lemma heap_root_least:
  assumes "heap_from 0 xs" "i < length xs"
  shows "le (xs ! 0) (xs ! i)"
  using assms(2)
proof (induction i rule: less_induct)
  case (less i)
  show ?case
  proof (cases "i = 0")
    case False
    then have "parent i < i" by auto
    with less have "le (xs ! 0) (xs ! parent i)" by simp
    moreover have "le (xs ! parent i) (xs ! i)" using assms(1) less.prems False by (simp add: heap_from_def ordered_def)
    ultimately show ?thesis by (rule le_trans)
  qed simp
qed

lemma pop_heap:
  assumes "heap_from 0 xs" "xs \<noteq> []"
  obtains ys where "heappop lt xs = Inr (xs ! 0, ys)" "heap_from 0 ys" "mset xs = add_mset (xs ! 0) (mset ys)"
proof (cases "butlast xs = []")
  case True
  with assms(2) obtain x where "xs = [x]" by (cases xs) (auto split: if_splits)
  then show thesis by (intro that[of "[]"]) (simp_all add: heappop_def heap_from_def)
next
  case False
  let ?r = "butlast xs"
  let ?zs = "?r[0 := last xs]"
  have xs: "xs = ?r @ [last xs]" using assms(2) by simp
  have len: "0 < length ?r" using False by (simp only: length_greater_0_conv not_False_eq_True)
  then have r0: "?r ! 0 = xs ! 0" by (rule nth_butlast)
  have "heap_from (Suc 0) ?zs"
    using assms(1) by (auto simp: heap_from_def ordered_def nth_butlast nth_list_update)
  then have "heap_from 0 (heap_siftup lt 0 ?zs)" using len by (intro siftup_heap) auto
  moreover have "mset xs = add_mset (xs ! 0) (mset (heap_siftup lt 0 ?zs))"
    using heap_siftup_elements(2)[of 0 ?zs lt] len r0 arg_cong[OF xs, of mset]
    by (cases ?r) auto
  ultimately show thesis using that False assms(2) r0 by (simp add: heappop_def Let_def)
qed

lemma heapify_heap:
  "heap_from 0 (heapify lt xs)" "mset (heapify lt xs) = mset xs"
proof -
  have *: "n \<le> length xs div 2 \<Longrightarrow> length ys = length xs \<Longrightarrow> heap_from n ys \<Longrightarrow>
      heap_from 0 (fold (heap_siftup lt) (rev [0..<n]) ys) \<and> mset (fold (heap_siftup lt) (rev [0..<n]) ys) = mset ys" for n ys
  proof (induction n arbitrary: ys)
    case (Suc n)
    have n: "n < length ys" using Suc.prems by auto
    show ?case using Suc.IH[of "heap_siftup lt n ys"] Suc.prems siftup_heap[OF Suc.prems(3) n] heap_siftup_elements[OF n, of lt] by simp
  qed simp
  have "heap_from (length xs div 2) xs" by (auto simp: heap_from_def ordered_def)
  from *[OF _ _ this] show "heap_from 0 (heapify lt xs)" "mset (heapify lt xs) = mset xs" by (simp_all add: heapify_def)
qed

end

end
