(* ===== verification/Request_Queue.thy ===== *)
theory Request_Queue
  imports Request Heapq
begin

text \<open>
  The queues of waiting requests (\<^verbatim>\<open>vllm/v1/core/sched/request_queue.py\<close>): first come first served on a
  deque, and by priority on a heap. A queue holds references to requests; what they refer to is
  looked up in a store, because the comparison reads the fields of the requests at the time it is
  made. Requests have no equality of their own, so removal compares references.
\<close>

type_synonym request_store = "addr \<Rightarrow> request"

datatype scheduling_policy = FCFS | PRIORITY

section \<open>First come, first served\<close>

definition fcfs_pop_request :: "addr list \<Rightarrow> (addr \<times> addr list) res" where
  "fcfs_pop_request q = (case q of [] \<Rightarrow> Inl IndexError | r # q' \<Rightarrow> Inr (r, q'))"

definition fcfs_peek_request :: "addr list \<Rightarrow> addr res" where
  "fcfs_peek_request q = (case q of [] \<Rightarrow> Inl IndexError | r # _ \<Rightarrow> Inr r)"

definition fcfs_add_request :: "addr list \<Rightarrow> addr \<Rightarrow> addr list" where
  "fcfs_add_request q r = q @ [r]"

definition fcfs_prepend_request :: "addr list \<Rightarrow> addr \<Rightarrow> addr list" where
  "fcfs_prepend_request q r = r # q"

text \<open>\<^verbatim>\<open>extendleft\<close> pushes one element after the other to the front.\<close>

definition fcfs_prepend_requests :: "addr list \<Rightarrow> addr list \<Rightarrow> addr list" where
  "fcfs_prepend_requests q rs = fold (\<lambda>r q. r # q) rs q"

definition fcfs_remove_request :: "addr list \<Rightarrow> addr \<Rightarrow> addr list res" where
  "fcfs_remove_request q r = (if r \<in> set q then Inr (remove1 r q) else Inl ValueError)"

definition fcfs_remove_requests :: "addr list \<Rightarrow> addr list \<Rightarrow> addr list" where
  "fcfs_remove_requests q rs = filter (\<lambda>r. r \<notin> set rs) q"

section \<open>By priority\<close>

definition store_lt :: "request_store \<Rightarrow> addr \<Rightarrow> addr \<Rightarrow> bool" where
  "store_lt s a b = request_lt a (s a) b (s b)"

definition prio_add_request :: "request_store \<Rightarrow> addr list \<Rightarrow> addr \<Rightarrow> addr list" where
  "prio_add_request s h r = heappush (store_lt s) h r"

definition prio_pop_request :: "request_store \<Rightarrow> addr list \<Rightarrow> (addr \<times> addr list) res" where
  "prio_pop_request s h = (if h = [] then Inl IndexError else heappop (store_lt s) h)"

definition prio_peek_request :: "addr list \<Rightarrow> addr res" where
  "prio_peek_request h = (if h = [] then Inl IndexError else Inr (h ! 0))"

definition prio_prepend_request :: "request_store \<Rightarrow> addr list \<Rightarrow> addr \<Rightarrow> addr list" where
  "prio_prepend_request s h r = prio_add_request s h r"

definition prio_prepend_requests :: "request_store \<Rightarrow> addr list \<Rightarrow> addr list \<Rightarrow> addr list" where
  "prio_prepend_requests s h rs = fold (\<lambda>r h. prio_add_request s h r) rs h"

definition prio_remove_request :: "request_store \<Rightarrow> addr list \<Rightarrow> addr \<Rightarrow> addr list res" where
  "prio_remove_request s h r =
     (if r \<in> set h then Inr (heapify (store_lt s) (remove1 r h)) else Inl ValueError)"

definition prio_remove_requests :: "request_store \<Rightarrow> addr list \<Rightarrow> addr list \<Rightarrow> addr list" where
  "prio_remove_requests s h rs = heapify (store_lt s) (filter (\<lambda>r. r \<notin> set rs) h)"

text \<open>\<^verbatim>\<open>__iter__\<close> of the priority queue pops from a copy of the heap until it is empty.\<close>

lemma heappop_length: "heappop lt h = Inr (x, h') \<Longrightarrow> length h = Suc (length h')"
  by (cases h rule: rev_cases) (auto simp: heappop_def Let_def heap_siftup_elements split: if_splits)

function prio_iter :: "request_store \<Rightarrow> addr list \<Rightarrow> addr list" where
  "prio_iter s h = (case heappop (store_lt s) h of Inl _ \<Rightarrow> [] | Inr (r, h') \<Rightarrow> r # prio_iter s h')"
  by pat_completeness auto
termination
  by (relation "measure (\<lambda>(_, h). length h)") (auto dest: heappop_length)

declare prio_iter.simps [simp del]

section \<open>Either queue\<close>

datatype request_queue = FCFSRequestQueue "addr list" | PriorityRequestQueue "addr list"

fun create_request_queue :: "scheduling_policy \<Rightarrow> request_queue" where
  "create_request_queue PRIORITY = PriorityRequestQueue []"
| "create_request_queue FCFS = FCFSRequestQueue []"

fun queue_iter :: "request_store \<Rightarrow> request_queue \<Rightarrow> addr list" where
  "queue_iter s (FCFSRequestQueue q) = q"
| "queue_iter s (PriorityRequestQueue h) = prio_iter s h"

fun queue_len :: "request_queue \<Rightarrow> nat" where
  "queue_len (FCFSRequestQueue q) = length q"
| "queue_len (PriorityRequestQueue h) = length h"

fun add_request :: "request_store \<Rightarrow> request_queue \<Rightarrow> addr \<Rightarrow> request_queue" where
  "add_request s (FCFSRequestQueue q) r = FCFSRequestQueue (fcfs_add_request q r)"
| "add_request s (PriorityRequestQueue h) r = PriorityRequestQueue (prio_add_request s h r)"

fun pop_request :: "request_store \<Rightarrow> request_queue \<Rightarrow> (addr \<times> request_queue) res" where
  "pop_request s (FCFSRequestQueue q) = ebind (fcfs_pop_request q) (\<lambda>(r, q'). Inr (r, FCFSRequestQueue q'))"
| "pop_request s (PriorityRequestQueue h) = ebind (prio_pop_request s h) (\<lambda>(r, h'). Inr (r, PriorityRequestQueue h'))"

fun peek_request :: "request_queue \<Rightarrow> addr res" where
  "peek_request (FCFSRequestQueue q) = fcfs_peek_request q"
| "peek_request (PriorityRequestQueue h) = prio_peek_request h"

fun prepend_request :: "request_store \<Rightarrow> request_queue \<Rightarrow> addr \<Rightarrow> request_queue" where
  "prepend_request s (FCFSRequestQueue q) r = FCFSRequestQueue (fcfs_prepend_request q r)"
| "prepend_request s (PriorityRequestQueue h) r = PriorityRequestQueue (prio_prepend_request s h r)"

fun prepend_requests :: "request_store \<Rightarrow> request_queue \<Rightarrow> request_queue \<Rightarrow> request_queue" where
  "prepend_requests s (FCFSRequestQueue q) other = FCFSRequestQueue (fcfs_prepend_requests q (queue_iter s other))"
| "prepend_requests s (PriorityRequestQueue h) other = PriorityRequestQueue (prio_prepend_requests s h (queue_iter s other))"

fun remove_request :: "request_store \<Rightarrow> request_queue \<Rightarrow> addr \<Rightarrow> request_queue res" where
  "remove_request s (FCFSRequestQueue q) r = ebind (fcfs_remove_request q r) (\<lambda>q'. Inr (FCFSRequestQueue q'))"
| "remove_request s (PriorityRequestQueue h) r = ebind (prio_remove_request s h r) (\<lambda>h'. Inr (PriorityRequestQueue h'))"

fun remove_requests :: "request_store \<Rightarrow> request_queue \<Rightarrow> addr list \<Rightarrow> request_queue" where
  "remove_requests s (FCFSRequestQueue q) rs = FCFSRequestQueue (fcfs_remove_requests q rs)"
| "remove_requests s (PriorityRequestQueue h) rs = PriorityRequestQueue (prio_remove_requests s h rs)"

section \<open>The order of service\<close>

text \<open>
  The contract of a queue: \<open>order q\<close> lists the waiting requests in the order in which they will be
  served.
\<close>

locale service_queue =
  fixes valid :: "'q \<Rightarrow> bool" and order :: "'q \<Rightarrow> addr list"
    and add :: "'q \<Rightarrow> addr \<Rightarrow> 'q" and pop :: "'q \<Rightarrow> (addr \<times> 'q) res" and peek :: "'q \<Rightarrow> addr res"
    and remove :: "'q \<Rightarrow> addr \<Rightarrow> 'q res" and remove_many :: "'q \<Rightarrow> addr list \<Rightarrow> 'q"
  assumes add_ok: "valid q \<Longrightarrow> valid (add q r) \<and> mset (order (add q r)) = add_mset r (mset (order q))"
    and pop_empty: "valid q \<Longrightarrow> order q = [] \<Longrightarrow> pop q = Inl IndexError"
    and pop_next: "valid q \<Longrightarrow> order q = r # rs \<Longrightarrow> \<exists>q'. pop q = Inr (r, q') \<and> valid q' \<and> order q' = rs"
    and peek_next: "valid q \<Longrightarrow> peek q = (case order q of [] \<Rightarrow> Inl IndexError | r # _ \<Rightarrow> Inr r)"
    and remove_in: "valid q \<Longrightarrow> r \<in> set (order q) \<Longrightarrow>
          \<exists>q'. remove q r = Inr q' \<and> valid q' \<and> order q' = remove1 r (order q)"
    and remove_out: "valid q \<Longrightarrow> r \<notin> set (order q) \<Longrightarrow> remove q r = Inl ValueError"
    and remove_many_ok: "valid q \<Longrightarrow> valid (remove_many q rs) \<and> order (remove_many q rs) = filter (\<lambda>r. r \<notin> set rs) (order q)"
begin

fun pop_n :: "nat \<Rightarrow> 'q \<Rightarrow> (addr list \<times> 'q) res" where
  "pop_n 0 q = Inr ([], q)"
| "pop_n (Suc n) q = ebind (pop q) (\<lambda>(r, q'). ebind (pop_n n q') (\<lambda>(rs, q''). Inr (r # rs, q'')))"

lemma pop_n_order:
  "valid q \<Longrightarrow> n \<le> length (order q) \<Longrightarrow>
     \<exists>q'. pop_n n q = Inr (take n (order q), q') \<and> valid q' \<and> order q' = drop n (order q)"
proof (induction n arbitrary: q)
  case (Suc n)
  then obtain r rs where o: "order q = r # rs" by (cases "order q") auto
  from pop_next[OF Suc.prems(1) this] obtain q1 where q1: "pop q = Inr (r, q1)" "valid q1" "order q1 = rs" by blast
  with Suc.IH[of q1] Suc.prems(2) o show ?case by auto
qed simp

lemma pop_is_peek: "valid q \<Longrightarrow> peek q = Inr r \<Longrightarrow> \<exists>q'. pop q = Inr (r, q')"
  using pop_next[of q] by (auto simp: peek_next split: list.splits)

lemma removed_not_served:
  assumes "valid q" "r \<in> set rs" "n \<le> length (order (remove_many q rs))"
  shows "\<exists>served q'. pop_n n (remove_many q rs) = Inr (served, q') \<and> r \<notin> set served"
proof -
  have v: "valid (remove_many q rs)" "order (remove_many q rs) = filter (\<lambda>r. r \<notin> set rs) (order q)"
    using remove_many_ok[OF assms(1)] by auto
  from pop_n_order[OF v(1) assms(3)] show ?thesis using assms(2) v(2) in_set_takeD by fastforce
qed

end

interpretation fcfs: service_queue "\<lambda>_. True" "\<lambda>q. q" fcfs_add_request fcfs_pop_request fcfs_peek_request
    fcfs_remove_request fcfs_remove_requests
  by unfold_locales (auto simp: fcfs_add_request_def fcfs_pop_request_def fcfs_peek_request_def fcfs_remove_request_def
      fcfs_remove_requests_def)

context heap_order
begin

lemma le_antisym: "le a b \<Longrightarrow> le b a \<Longrightarrow> a = b"
  unfolding le_def using lt_total by blast

lemma sorted_unique:
  "sorted_wrt le xs \<Longrightarrow> sorted_wrt le ys \<Longrightarrow> mset xs = mset ys \<Longrightarrow> xs = ys"
proof (induction xs arbitrary: ys)
  case (Cons x xs)
  then obtain y ys' where ys: "ys = y # ys'" by (cases ys) auto
  have "set (x # xs) = set ys" using Cons.prems(3) by (metis set_mset_mset)
  then have "x \<in> set ys" "y \<in> set (x # xs)" using ys by auto
  then have "x = y" using Cons.prems(1,2) ys by (auto intro: le_antisym)
  with Cons ys show ?case by simp
qed simp

lemma sorted_remove1: "sorted_wrt le xs \<Longrightarrow> sorted_wrt le (remove1 x xs)"
  by (induction xs) (auto dest: notin_set_remove1 in_set_remove1[THEN iffD1] set_remove1_subset[THEN subsetD])

end

interpretation ro: heap_order "store_lt s" for s
  by unfold_locales (auto simp: store_lt_def request_lt_irrefl intro: request_lt_trans dest: request_lt_total)

definition prio_valid :: "request_store \<Rightarrow> addr list \<Rightarrow> bool" where
  "prio_valid s h \<longleftrightarrow> ro.heap_from s 0 h"

lemma prio_iter_Nil [simp]: "prio_iter s [] = []"
  by (subst prio_iter.simps) (simp add: heappop_def)

lemma prio_iter_step:
  assumes "prio_valid s h" "h \<noteq> []"
  obtains h' where "prio_pop_request s h = Inr (h ! 0, h')" "prio_valid s h'" "mset h = add_mset (h ! 0) (mset h')"
    "prio_iter s h = h ! 0 # prio_iter s h'"
proof -
  obtain h' where "heappop (store_lt s) h = Inr (h ! 0, h')" "ro.heap_from s 0 h'" "mset h = add_mset (h ! 0) (mset h')"
    using ro.pop_heap[of s h] assms by (auto simp: prio_valid_def)
  with assms show thesis by (intro that[of h']) (simp_all add: prio_valid_def prio_pop_request_def prio_iter.simps[of s h])
qed

lemma prio_iter_sorted:
  "prio_valid s h \<Longrightarrow> sorted_wrt (ro.le s) (prio_iter s h) \<and> mset (prio_iter s h) = mset h"
proof (induction "length h" arbitrary: h rule: less_induct)
  case less
  show ?case
  proof (cases "h = []")
    case False
    obtain h' where h': "prio_valid s h'" "mset h = add_mset (h ! 0) (mset h')" "prio_iter s h = h ! 0 # prio_iter s h'"
      using prio_iter_step[OF less.prems False] by metis
    then have "length h' < length h" by (metis lessI size_add_mset size_mset)
    with less.hyps h'(1) have IH: "sorted_wrt (ro.le s) (prio_iter s h')" "mset (prio_iter s h') = mset h'" by auto
    have "ro.le s (h ! 0) x" if "x \<in> set (prio_iter s h')" for x
    proof -
      have "x \<in># mset h" using that IH(2) h'(2) by (metis set_mset_mset insert_iff set_mset_add_mset_insert)
      then obtain i where "i < length h" "h ! i = x" by (auto simp: in_set_conv_nth)
      then show ?thesis using ro.heap_root_least less.prems by (auto simp: prio_valid_def)
    qed
    with IH h' show ?thesis by simp
  qed simp
qed

lemma prio_order:
  assumes "prio_valid s h'" "sorted_wrt (ro.le s) xs" "mset h' = mset xs"
  shows "prio_iter s h' = xs"
  by (rule ro.sorted_unique[OF _ assms(2)]) (use prio_iter_sorted[OF assms(1)] assms(3) in simp_all)

lemma prio_iter_set: "prio_valid s h \<Longrightarrow> set (prio_iter s h) = set h"
  using prio_iter_sorted[of s h] by (metis set_mset_mset)

interpretation prio: service_queue "prio_valid s" "prio_iter s" "prio_add_request s" "prio_pop_request s" prio_peek_request
    "prio_remove_request s" "prio_remove_requests s" for s
proof unfold_locales
  fix h :: "addr list" and r rs
  assume v: "prio_valid s h"
  show "prio_valid s (prio_add_request s h r) \<and> mset (prio_iter s (prio_add_request s h r)) = add_mset r (mset (prio_iter s h))"
  proof -
    have "prio_valid s (prio_add_request s h r)" using v by (simp add: prio_valid_def prio_add_request_def ro.push_heap)
    moreover have "mset (prio_add_request s h r) = add_mset r (mset h)" by (simp add: prio_add_request_def heappush_def heap_siftdown_mset)
    ultimately show ?thesis using prio_iter_sorted v by simp
  qed
  have nil: "prio_iter s h = [] \<longleftrightarrow> h = []" using prio_iter_sorted[OF v] by (metis mset_zero_iff)
  show "prio_pop_request s h = Inl IndexError" if "prio_iter s h = []" using that nil by (simp add: prio_pop_request_def)
  show "\<exists>h'. prio_pop_request s h = Inr (r, h') \<and> prio_valid s h' \<and> prio_iter s h' = rs" if "prio_iter s h = r # rs"
    using that nil prio_iter_step[OF v] by (metis list.discI list.inject)
  show "prio_peek_request h = (case prio_iter s h of [] \<Rightarrow> Inl IndexError | r # _ \<Rightarrow> Inr r)"
  proof (cases "h = []")
    case False
    then obtain h' where "prio_iter s h = h ! 0 # prio_iter s h'" using prio_iter_step[OF v] by metis
    with False show ?thesis by (simp add: prio_peek_request_def)
  qed (simp add: prio_peek_request_def)
  show "prio_remove_request s h r = Inl ValueError" if "r \<notin> set (prio_iter s h)"
    using that prio_iter_set[OF v] by (simp add: prio_remove_request_def)
  have srt: "sorted_wrt (ro.le s) (prio_iter s h)" "mset (prio_iter s h) = mset h" using prio_iter_sorted[OF v] by auto
  show "\<exists>h'. prio_remove_request s h r = Inr h' \<and> prio_valid s h' \<and> prio_iter s h' = remove1 r (prio_iter s h)"
    if "r \<in> set (prio_iter s h)"
  proof -
    let ?h = "heapify (store_lt s) (remove1 r h)"
    have "prio_valid s ?h" by (simp add: prio_valid_def ro.heapify_heap)
    moreover have "prio_iter s ?h = remove1 r (prio_iter s h)"
      by (rule prio_order[OF calculation ro.sorted_remove1[OF srt(1)]]) (simp add: ro.heapify_heap srt(2))
    ultimately show ?thesis using that prio_iter_set[OF v] by (simp add: prio_remove_request_def)
  qed
  show "prio_valid s (prio_remove_requests s h rs) \<and> prio_iter s (prio_remove_requests s h rs) = filter (\<lambda>r. r \<notin> set rs) (prio_iter s h)"
  proof -
    have "prio_valid s (prio_remove_requests s h rs)" by (simp add: prio_valid_def prio_remove_requests_def ro.heapify_heap)
    moreover have "prio_iter s (prio_remove_requests s h rs) = filter (\<lambda>r. r \<notin> set rs) (prio_iter s h)"
      by (rule prio_order[OF calculation sorted_wrt_filter[OF srt(1)]]) (simp add: prio_remove_requests_def ro.heapify_heap srt(2))
    ultimately show ?thesis by blast
  qed
qed

section \<open>Reachable queues\<close>

inductive queue_reachable :: "request_store \<Rightarrow> scheduling_policy \<Rightarrow> request_queue \<Rightarrow> bool" for s pol where
  queue_created: "queue_reachable s pol (create_request_queue pol)"
| queue_added: "queue_reachable s pol q \<Longrightarrow> queue_reachable s pol (add_request s q r)"
| queue_prepended: "queue_reachable s pol q \<Longrightarrow> queue_reachable s pol (prepend_request s q r)"
| queue_merged: "queue_reachable s pol q \<Longrightarrow> queue_reachable s pol q' \<Longrightarrow> queue_reachable s pol (prepend_requests s q q')"
| queue_popped: "queue_reachable s pol q \<Longrightarrow> pop_request s q = Inr (r, q') \<Longrightarrow> queue_reachable s pol q'"
| queue_removed: "queue_reachable s pol q \<Longrightarrow> remove_request s q r = Inr q' \<Longrightarrow> queue_reachable s pol q'"
| queue_filtered: "queue_reachable s pol q \<Longrightarrow> queue_reachable s pol (remove_requests s q rs)"

fun queue_valid :: "request_store \<Rightarrow> scheduling_policy \<Rightarrow> request_queue \<Rightarrow> bool" where
  "queue_valid s FCFS (FCFSRequestQueue q) = True"
| "queue_valid s PRIORITY (PriorityRequestQueue h) = prio_valid s h"
| "queue_valid s _ _ = False"

lemma queue_valid_cases:
  assumes "queue_valid s pol q"
  obtains (fcfs) xs where "pol = FCFS" "q = FCFSRequestQueue xs" | (prio) h where "pol = PRIORITY" "q = PriorityRequestQueue h" "prio_valid s h"
  using assms by (cases "(s, pol, q)" rule: queue_valid.cases) auto

lemma prio_add_valid: "prio_valid s h \<Longrightarrow> prio_valid s (prio_add_request s h r)"
  using prio.add_ok by blast

lemma prio_prepend_all: "prio_valid s h \<Longrightarrow>
    prio_valid s (prio_prepend_requests s h rs) \<and> mset (prio_prepend_requests s h rs) = mset rs + mset h"
proof (induction rs arbitrary: h)
  case (Cons r rs)
  have "mset (prio_add_request s h r) = add_mset r (mset h)" by (simp add: prio_add_request_def heappush_def heap_siftdown_mset)
  with Cons.IH[OF prio_add_valid[OF Cons.prems, of r]] show ?case by (simp add: prio_prepend_requests_def)
qed (simp add: prio_prepend_requests_def)

lemma queue_reachable_valid: "queue_reachable s pol q \<Longrightarrow> queue_valid s pol q"
proof (induction rule: queue_reachable.induct)
  case queue_created
  show ?case by (cases pol) (simp_all add: prio_valid_def ro.heap_from_def)
next
  case (queue_popped q r q')
  from queue_popped.IH show ?case
  proof (cases rule: queue_valid_cases)
    case (prio h)
    with queue_popped.hyps(2) obtain h' where h': "prio_pop_request s h = Inr (r, h')" "q' = PriorityRequestQueue h'"
      by (auto simp: ebind_Inr_iff)
    then have "h \<noteq> []" by (auto simp: prio_pop_request_def)
    with prio_iter_step[OF prio(3)] h' prio show ?thesis by (metis Pair_inject queue_valid.simps(2) sum.inject(2))
  qed (use queue_popped.hyps(2) in \<open>auto simp: ebind_Inr_iff\<close>)
next
  case (queue_removed q r q')
  from queue_removed.IH show ?case
  proof (cases rule: queue_valid_cases)
    case (prio h)
    with queue_removed.hyps(2) show ?thesis
      by (auto simp: ebind_Inr_iff prio_remove_request_def prio_valid_def ro.heapify_heap split: if_splits)
  qed (use queue_removed.hyps(2) in \<open>auto simp: ebind_Inr_iff\<close>)
next
  case (queue_added q r)
  from queue_added.IH show ?case by (cases rule: queue_valid_cases) (auto simp: prio_add_valid)
next
  case (queue_prepended q r)
  from queue_prepended.IH show ?case by (cases rule: queue_valid_cases) (auto simp: prio_prepend_request_def prio_add_valid)
next
  case (queue_merged q q')
  from queue_merged.IH(1) show ?case by (cases rule: queue_valid_cases) (auto simp: prio_prepend_all)
next
  case (queue_filtered q rs)
  from queue_filtered.IH show ?case by (cases rule: queue_valid_cases) (auto simp: prio.remove_many_ok)
qed

text \<open>Popping several requests, as the scheduler does in one step.\<close>

fun pop_requests :: "request_store \<Rightarrow> nat \<Rightarrow> request_queue \<Rightarrow> (addr list \<times> request_queue) res" where
  "pop_requests s 0 q = Inr ([], q)"
| "pop_requests s (Suc n) q = ebind (pop_request s q) (\<lambda>(r, q'). ebind (pop_requests s n q') (\<lambda>(rs, q''). Inr (r # rs, q'')))"

lemma pop_requests_fcfs:
  "pop_requests s n (FCFSRequestQueue xs) = ebind (fcfs.pop_n n xs) (\<lambda>(rs, xs'). Inr (rs, FCFSRequestQueue xs'))"
  by (induction n arbitrary: xs) (auto simp: ebind_def split: sum.splits)

lemma pop_requests_prio:
  "pop_requests s n (PriorityRequestQueue h) = ebind (prio.pop_n s n h) (\<lambda>(rs, h'). Inr (rs, PriorityRequestQueue h'))"
  by (induction n arbitrary: h) (auto simp: ebind_def split: sum.splits)

lemma pop_requests_order:
  assumes "queue_valid s pol q" "n \<le> length (queue_iter s q)"
  obtains q' where "pop_requests s n q = Inr (take n (queue_iter s q), q')" "queue_valid s pol q'"
    "queue_iter s q' = drop n (queue_iter s q)"
  using assms(1)
proof (cases rule: queue_valid_cases)
  case (fcfs xs)
  then show thesis using fcfs.pop_n_order[of n xs] assms(2) that by (auto simp: pop_requests_fcfs)
next
  case (prio h)
  then show thesis using prio.pop_n_order[of s h n] assms(2) that by (auto simp: pop_requests_prio)
qed

section \<open>Properties\<close>

lemma fcfs_prepend_requests_rev: "fcfs_prepend_requests q rs = rev rs @ q"
  unfolding fcfs_prepend_requests_def by (induction rs arbitrary: q) simp_all

lemma fcfs_fold_prepend:
  "fold (\<lambda>r q. prepend_request s q r) rs (FCFSRequestQueue xs) = FCFSRequestQueue (rev rs @ xs)"
  by (induction rs arbitrary: xs) (simp_all add: fcfs_prepend_request_def)

lemma prio_fold_prepend:
  "fold (\<lambda>r q. prepend_request s q r) rs (PriorityRequestQueue h) = PriorityRequestQueue (prio_prepend_requests s h rs)"
  by (induction rs arbitrary: h) (simp_all add: prio_prepend_request_def prio_prepend_requests_def)

lemma prio_le: "ro.le s = (\<lambda>a b. \<not> store_lt s b a)"
  by (simp add: fun_eq_iff ro.le_def)

lemma queue_iter_length:
  assumes "queue_valid s pol q"
  shows "length (queue_iter s q) = queue_len q"
  using assms
proof (cases rule: queue_valid_cases)
  case (prio h)
  then show ?thesis using prio_iter_sorted[OF prio(3)] by (metis queue_iter.simps(2) queue_len.simps(2) size_mset)
qed simp

text \<open>A waiting request without tokens, for the witnesses.\<close>

definition demo_waiting :: "string \<Rightarrow> request" where
  "demo_waiting rid =
     \<lparr>request_id = rid, priority = 0, arrival_time = 0, lora_request = None, sampling_params = None,
      pooling_params = None, structured_output_request = False, status = WAITING, stop_reason = None,
      max_tokens = 16, prompt_token_ids = Some [], prompt_embeds = None, prompt_embeds_per_block_hashes = [],
      num_prompt_tokens = 0, output_token_ids = [], all_token_ids = [],
      num_output_placeholders = 0, spec_token_ids = [], num_computed_tokens = 0, cache_salt = None,
      mm_features = [], is_prefill_chunk = False, num_preemptions = 0, block_hashes = [],
      skip_reading_prefix_cache = False, resumable = False\<rparr>"

text \<open>
  C20. Requests are served in the order of the policy: in every queue the scheduler can build, popping
  \<open>n\<close> requests returns the first \<open>n\<close> of the iteration order and leaves the rest in that order. Under
  \<^verbatim>\<open>FCFS\<close> the iteration order is the deque itself; under \<^verbatim>\<open>PRIORITY\<close> no request is served before one
  that is smaller by priority, arrival time, request id and identity, and the order holds exactly the
  requests of the heap.
\<close>

theorem queue_serves_in_order:
  assumes "queue_reachable s pol q" and "n \<le> queue_len q"
  shows "(\<exists>q'. pop_requests s n q = Inr (take n (queue_iter s q), q') \<and> queue_iter s q' = drop n (queue_iter s q))
    \<and> (case q of
         FCFSRequestQueue xs \<Rightarrow> queue_iter s q = xs
       | PriorityRequestQueue h \<Rightarrow> sorted_wrt (\<lambda>a b. \<not> store_lt s b a) (queue_iter s q) \<and> mset (queue_iter s q) = mset h)"
    (is "?pop \<and> ?order")
proof
  note v = queue_reachable_valid[OF assms(1)]
  show ?pop using pop_requests_order[OF v, of n] assms(2) queue_iter_length[OF v] by metis
  from v show ?order
  proof (cases rule: queue_valid_cases)
    case (prio h)
    then show ?thesis using prio_iter_sorted[OF prio(3)] by (simp add: prio_le)
  qed simp
qed

definition demo_store :: request_store where
  "demo_store a = (if a = 1 then (demo_waiting ''a'')\<lparr>priority := 2\<rparr>
     else if a = 2 then demo_waiting ''b'' else (demo_waiting ''c'')\<lparr>priority := 1\<rparr>)"

definition demo_queue :: request_queue where
  "demo_queue = fold (\<lambda>r q. add_request demo_store q r) [1, 2, 3] (create_request_queue PRIORITY)"

lemma demo_queue_reachable: "queue_reachable demo_store PRIORITY demo_queue"
  unfolding demo_queue_def by (simp del: create_request_queue.simps add_request.simps add: queue_created queue_added)

theorem queue_serves_in_order_witness:
  "\<exists>q'. pop_requests demo_store 2 demo_queue = Inr ([2, 3], q') \<and> queue_iter demo_store q' = [1]"
proof -
  have "queue_iter demo_store demo_queue = [2, 3, 1]" "2 \<le> queue_len demo_queue" by code_simp+
  with queue_serves_in_order[OF demo_queue_reachable, of 2] show ?thesis by simp
qed

text \<open>
  C21. Requests that are skipped in a step keep their place: when the scheduler pops \<open>n\<close> requests, prepends
  each of them to the step's queue of skipped requests, and prepends that queue to the one it came
  from, the iteration order is as before, under both policies. Under \<^verbatim>\<open>FCFS\<close> the two reversals cancel;
  under \<^verbatim>\<open>PRIORITY\<close> the heaps are rebuilt.
\<close>

theorem skipped_requests_keep_place:
  assumes "queue_reachable s pol q" and "n \<le> queue_len q"
  shows "\<exists>rs q'. pop_requests s n q = Inr (rs, q')
    \<and> queue_iter s (prepend_requests s q' (fold (\<lambda>r q. prepend_request s q r) rs (create_request_queue pol))) = queue_iter s q"
proof -
  note v = queue_reachable_valid[OF assms(1)]
  have n: "n \<le> length (queue_iter s q)" using assms(2) queue_iter_length[OF v] by simp
  obtain q' where q': "pop_requests s n q = Inr (take n (queue_iter s q), q')" "queue_valid s pol q'"
    "queue_iter s q' = drop n (queue_iter s q)" by (rule pop_requests_order[OF v n])
  let ?rs = "take n (queue_iter s q)"
  have "queue_iter s (prepend_requests s q' (fold (\<lambda>r q. prepend_request s q r) ?rs (create_request_queue pol))) = queue_iter s q"
    using q'(2)
  proof (cases rule: queue_valid_cases)
    case (fcfs xs)
    with q'(3) show ?thesis by (simp add: fcfs_fold_prepend fcfs_prepend_requests_rev)
  next
    case (prio h)
    from v prio(1) obtain h0 where h0: "q = PriorityRequestQueue h0" "prio_valid s h0" by (cases rule: queue_valid_cases) auto
    let ?step = "prio_prepend_requests s [] ?rs"
    have e: "prio_valid s []" by (simp add: prio_valid_def ro.heap_from_def)
    have step: "mset (prio_iter s ?step) = mset ?rs" using prio_prepend_all[OF e, of ?rs] prio_iter_sorted by simp
    note all = prio_prepend_all[OF prio(3), of "prio_iter s ?step"]
    have "mset h = mset (drop n (prio_iter s h0))" using q'(3) prio h0 prio_iter_sorted[OF prio(3)] by simp
    then have "mset (prio_prepend_requests s h (prio_iter s ?step)) = mset (take n (prio_iter s h0) @ drop n (prio_iter s h0))"
      using all step h0 by (simp only: mset_append queue_iter.simps)
    then have "mset (prio_prepend_requests s h (prio_iter s ?step)) = mset (prio_iter s h0)" by simp
    with prio_order[OF conjunct1[OF all]] prio_iter_sorted[OF h0(2)]
    have "prio_iter s (prio_prepend_requests s h (prio_iter s ?step)) = prio_iter s h0" by blast
    with prio h0 show ?thesis by (simp add: prio_fold_prepend)
  qed
  with q'(1) show ?thesis by blast
qed

theorem skipped_requests_keep_place_witness:
  "\<exists>rs q'. pop_requests demo_store 2 demo_queue = Inr (rs, q')
    \<and> queue_iter demo_store (prepend_requests demo_store q' (fold (\<lambda>r q. prepend_request demo_store q r) rs (PriorityRequestQueue [])))
      = [2, 3, 1]"
proof -
  have "queue_iter demo_store demo_queue = [2, 3, 1]" "2 \<le> queue_len demo_queue" by code_simp+
  with skipped_requests_keep_place[OF demo_queue_reachable, of 2] show ?thesis by simp
qed

end
