(* ===== verification/Stop_Check.thy ===== *)
theory Stop_Check
  imports Request "HOL-Library.Sublist"
begin

text \<open>
  When a request stops, and the removal of finished requests from the running list
  (\<^verbatim>\<open>vllm/v1/core/sched/utils.py\<close>): end of sequence and stop tokens, length limits, and the detection of
  a repeating pattern at the end of the output.
\<close>

section \<open>Repeating patterns\<close>

fun repeats_target :: "int list \<Rightarrow> int \<Rightarrow> int \<Rightarrow> int \<Rightarrow> int list \<Rightarrow> bool res" where
  "repeats_target token_ids target pattern_len n [] = Inr True"
| "repeats_target token_ids target pattern_len n (m # ms) =
     ebind (py_nth token_ids (- (pattern_len * m + n))) (\<lambda>t.
       if t \<noteq> target then Inr False else repeats_target token_ids target pattern_len n ms)"

fun repeats_offsets :: "int list \<Rightarrow> int \<Rightarrow> int \<Rightarrow> int list \<Rightarrow> bool res" where
  "repeats_offsets token_ids pattern_len cnt [] = Inr True"
| "repeats_offsets token_ids pattern_len cnt (n # ns) =
     ebind (py_nth token_ids (- n)) (\<lambda>target.
     ebind (repeats_target token_ids target pattern_len n [1..cnt - 1]) (\<lambda>b.
       if \<not> b then Inr False else repeats_offsets token_ids pattern_len cnt ns))"

definition has_repeating_pattern :: "int list \<Rightarrow> int \<Rightarrow> int \<Rightarrow> bool res" where
  "has_repeating_pattern token_ids pattern_len repetition_min_count =
     repeats_offsets token_ids pattern_len repetition_min_count [1..pattern_len]"

fun pattern_sizes :: "int list \<Rightarrow> int \<Rightarrow> int list \<Rightarrow> bool res" where
  "pattern_sizes token_ids cnt [] = Inr False"
| "pattern_sizes token_ids cnt (pattern_len # rest) =
     (if pattern_len * cnt > int (length token_ids) then Inr False
      else ebind (has_repeating_pattern token_ids pattern_len cnt) (\<lambda>b.
        if b then Inr True else pattern_sizes token_ids cnt rest))"

definition check_sequence_repetition :: "int list \<Rightarrow> repetition_detection_params \<Rightarrow> bool res" where
  "check_sequence_repetition token_ids params =
     (let max_size = max_pattern_size params;
          min_size = (if min_pattern_size params \<le> 0 then 1 else min_pattern_size params);
          cnt = min_count params
      in if max_size \<le> 0 \<or> cnt < 2 \<or> min_size > max_size then Inr False
         else pattern_sizes token_ids cnt [min_size..max_size])"

section \<open>Stopping\<close>

definition check_stop :: "request \<Rightarrow> int \<Rightarrow> (bool \<times> request) res" where
  "check_stop r max_model_len =
     (if pooling_params r \<noteq> None then Inl AssertionError
      else case sampling_params r of
        None \<Rightarrow> Inl AssertionError
      | Some sp \<Rightarrow>
          if num_output_tokens r < min_tokens sp then Inr (False, r)
          else ebind (py_nth (output_token_ids r) (-1)) (\<lambda>last_token_id.
            if Some last_token_id = eos_token_id sp then Inr (True, r\<lparr>status := FINISHED_STOPPED\<rparr>)
            else if last_token_id \<in> set (stop_token_ids sp)
            then Inr (True, r\<lparr>status := FINISHED_STOPPED, stop_reason := Some (StopToken last_token_id)\<rparr>)
            else if num_tokens r \<ge> max_model_len \<or> num_output_tokens r \<ge> max_tokens r
            then Inr (True, r\<lparr>status := FINISHED_LENGTH_CAPPED\<rparr>)
            else ebind (case repetition_detection sp of
                          None \<Rightarrow> Inr False
                        | Some params \<Rightarrow> check_sequence_repetition (output_token_ids r) params) (\<lambda>repeated.
              if repeated
              then Inr (True, r\<lparr>status := FINISHED_REPETITION, stop_reason := Some (StopString ''repetition_detected'')\<rparr>)
              else Inr (False, r))))"

section \<open>Removing finished requests\<close>

text \<open>The set is given by a list of its elements.\<close>

definition remove_all :: "'a list \<Rightarrow> 'a list \<Rightarrow> 'a list" where
  "remove_all lst items_to_remove =
     (case items_to_remove of
        [] \<Rightarrow> lst
      | [item] \<Rightarrow> remove1 item lst
      | _ \<Rightarrow> filter (\<lambda>x. x \<notin> set items_to_remove) lst)"

section \<open>What the detection decides\<close>

lemma nth_concat_replicate:
  "i < c * length pat \<Longrightarrow> concat (replicate c pat) ! i = pat ! (i mod length pat)"
proof (induction c arbitrary: i)
  case (Suc c)
  show ?case
  proof (cases "i < length pat")
    case False
    with Suc.prems Suc.IH[of "i - length pat"] show ?thesis by (auto simp: nth_append mod_if)
  qed (simp add: nth_append)
qed simp

lemma length_concat_replicate [simp]: "length (concat (replicate c pat)) = c * length pat"
  by (induction c) simp_all

lemma py_nth_neg: "0 < k \<Longrightarrow> k \<le> int (length xs) \<Longrightarrow> py_nth xs (- k) = Inr (xs ! (length xs - nat k))"
  by (auto simp: py_nth_def nat_diff_distrib)

lemma repeats_target_spec:
  assumes "\<forall>m \<in> set ms. 0 < pl * m + n \<and> pl * m + n \<le> int (length xs)"
  shows "repeats_target xs t pl n ms = Inr (\<forall>m \<in> set ms. xs ! (length xs - nat (pl * m + n)) = t)"
  using assms
proof (induction ms)
  case (Cons m ms)
  have "py_nth xs (- (pl * m + n)) = Inr (xs ! (length xs - nat (pl * m + n)))"
    by (rule py_nth_neg) (use Cons.prems in auto)
  with Cons show ?case by (simp del: minus_add_distrib)
qed simp

lemma repeats_offsets_spec:
  assumes "\<forall>n \<in> set ns. 0 < n \<and> n \<le> pl" "0 < pl" "pl * cnt \<le> int (length xs)" "1 \<le> cnt"
  shows "repeats_offsets xs pl cnt ns
    = Inr (\<forall>n \<in> set ns. \<forall>m \<in> {1..cnt - 1}. xs ! (length xs - nat (pl * m + n)) = xs ! (length xs - nat n))"
  using assms(1)
proof (induction ns)
  case (Cons n ns)
  have len: "pl * m + n \<le> int (length xs)" if "m \<le> cnt - 1" for m
  proof -
    have "pl * m + n \<le> pl * m + pl" using Cons.prems by simp
    also have "\<dots> = pl * (m + 1)" by (simp add: algebra_simps)
    also have "\<dots> \<le> pl * cnt" using that assms(2) by (intro mult_left_mono) auto
    finally show ?thesis using assms(3) by linarith
  qed
  have t: "py_nth xs (- n) = Inr (xs ! (length xs - nat n))" using py_nth_neg[of n xs] len[of 0] Cons.prems assms(4) by simp
  have pos: "\<forall>m \<in> set [1..cnt - 1]. 0 < pl * m + n \<and> pl * m + n \<le> int (length xs)" using len Cons.prems assms(2) by (auto simp: add_nonneg_pos)
  show ?case using Cons by (simp add: t repeats_target_spec[OF pos])
qed simp

text \<open>The last \<open>c\<close> times \<open>p\<close> tokens are \<open>c\<close> copies of one pattern of \<open>p\<close> tokens.\<close>

definition ends_in_copies :: "int list \<Rightarrow> nat \<Rightarrow> nat \<Rightarrow> bool" where
  "ends_in_copies xs p c \<longleftrightarrow> (\<exists>pat. length pat = p \<and> suffix (concat (replicate c pat)) xs)"

lemma ends_in_copies_nth:
  assumes "0 < p" "0 < c" "p * c \<le> length xs"
  shows "ends_in_copies xs p c \<longleftrightarrow> (\<forall>n \<in> {1..p}. \<forall>m \<in> {1..<c}. xs ! (length xs - (p * m + n)) = xs ! (length xs - n))"
    (is "_ \<longleftrightarrow> ?periodic")
proof -
  let ?t = "drop (length xs - p * c) xs" and ?pat = "drop (length xs - p) xs"
  have pc: "p \<le> p * c" using assms(2) by simp
  then have pl: "p \<le> length xs" using assms(3) by (rule order_trans)
  have idx: "xs ! (length xs - (p * m + n)) = ?t ! (p * (c - 1 - m) + (p - n))" if "n \<in> {1..p}" "m < c" for n m
  proof -
    have "p * m + p \<le> p * c" using that(2) by (metis Suc_leI add.commute mult_Suc_right mult_le_mono2)
    then have "length xs - p * c + (p * (c - 1 - m) + (p - n)) = length xs - (p * m + n)"
      using that assms(3) by (simp add: diff_mult_distrib2 algebra_simps)
    then show ?thesis using assms(3) by (simp add: nth_drop)
  qed
  have pat: "xs ! (length xs - n) = ?pat ! (p - n)" if "n \<in> {1..p}" for n
  proof -
    have "length xs - p + (p - n) = length xs - n" using that pl by simp
    then show ?thesis by (simp add: nth_drop)
  qed
  have "?periodic \<longleftrightarrow> (\<forall>i < p * c. ?t ! i = ?pat ! (i mod p))"
  proof
    assume per: ?periodic
    show "\<forall>i < p * c. ?t ! i = ?pat ! (i mod p)"
    proof (intro allI impI)
      fix i assume i: "i < p * c"
      let ?n = "p - i mod p" and ?m = "c - 1 - i div p"
      have mod: "i mod p < p" using assms(1) by simp
      have dv: "i div p < c" using i by (simp add: less_mult_imp_div_less mult.commute)
      have n: "?n \<in> {1..p}" using mod by auto
      have m: "?m < c" "c - 1 - ?m = i div p" using dv by auto
      have "p * (c - 1 - ?m) + (p - ?n) = i" using m(2) mod by simp
      then have t: "xs ! (length xs - (p * ?m + ?n)) = ?t ! i" using idx[OF n m(1)] by simp
      have "xs ! (length xs - (p * ?m + ?n)) = xs ! (length xs - ?n)"
      proof (cases "?m = 0")
        case False
        then have "?m \<in> {1..<c}" using m(1) by auto
        with per n show ?thesis by blast
      qed simp
      with t pat[OF n] mod show "?t ! i = ?pat ! (i mod p)" by simp
    qed
  next
    assume t: "\<forall>i < p * c. ?t ! i = ?pat ! (i mod p)"
    show ?periodic
    proof (intro ballI)
      fix n m assume n: "n \<in> {1..p}" and m: "m \<in> {1..<c}"
      let ?i = "p * (c - 1 - m) + (p - n)"
      have "?i < p * (c - 1 - m) + p" using n by auto
      also have "\<dots> = p * Suc (c - 1 - m)" by simp
      also have "\<dots> \<le> p * c" using m by (intro mult_le_mono2) auto
      finally have "?t ! ?i = ?pat ! (?i mod p)" using t by blast
      moreover have "?i mod p = p - n" using n unfolding mod_mult_self4 by auto
      ultimately show "xs ! (length xs - (p * m + n)) = xs ! (length xs - n)" using idx[OF n, of m] pat[OF n] m by simp
    qed
  qed
  also have "\<dots> \<longleftrightarrow> ?t = concat (replicate c ?pat)"
    using assms(3) pl by (auto simp: list_eq_iff_nth_eq nth_concat_replicate mult.commute)
  also have "\<dots> \<longleftrightarrow> ends_in_copies xs p c"
  proof
    assume "?t = concat (replicate c ?pat)"
    then have "suffix (concat (replicate c ?pat)) xs" by (metis suffix_drop)
    moreover have "length ?pat = p" using pl by simp
    ultimately show "ends_in_copies xs p c" unfolding ends_in_copies_def by blast
  next
    assume "ends_in_copies xs p c"
    then obtain pat ys where p: "length pat = p" "xs = ys @ concat (replicate c pat)" by (auto simp: ends_in_copies_def suffix_def)
    obtain c' where c': "c = Suc c'" using assms(2) by (cases c) auto
    have "concat (replicate c pat) = concat (replicate c' pat) @ pat" unfolding c' replicate_Suc replicate_append_same[symmetric] by simp
    then have "?pat = pat" using p by simp
    moreover have "?t = concat (replicate c pat)" using p by (simp add: mult.commute)
    ultimately show "?t = concat (replicate c ?pat)" by simp
  qed
  finally show ?thesis by simp
qed

lemma has_repeating_pattern_spec:
  assumes "0 < p" "0 < c" "p * c \<le> length xs"
  shows "has_repeating_pattern xs (int p) (int c) = Inr (ends_in_copies xs p c)"
proof -
  have pc: "int p * int c \<le> int (length xs)" using assms(3) by (metis of_nat_le_iff of_nat_mult)
  have "(\<forall>n \<in> set [1..int p]. \<forall>m \<in> {1..int c - 1}. xs ! (length xs - nat (int p * m + n)) = xs ! (length xs - nat n))
    \<longleftrightarrow> (\<forall>n \<in> {1..p}. \<forall>m \<in> {1..<c}. xs ! (length xs - (p * m + n)) = xs ! (length xs - n))" (is "?l \<longleftrightarrow> ?r")
  proof
    assume l: ?l
    show ?r
    proof (intro ballI)
      fix n m assume "n \<in> {1..p}" "m \<in> {1..<c}"
      then have "int n \<in> set [1..int p]" "int m \<in> {1..int c - 1}" by auto
      with l have "xs ! (length xs - nat (int p * int m + int n)) = xs ! (length xs - nat (int n))" by blast
      moreover have "nat (int p * int m + int n) = p * m + n" by (metis nat_int of_nat_add of_nat_mult)
      ultimately show "xs ! (length xs - (p * m + n)) = xs ! (length xs - n)" by simp
    qed
  next
    assume r: ?r
    show ?l
    proof (intro ballI)
      fix n m assume n: "n \<in> set [1..int p]" and m: "m \<in> {1..int c - 1}"
      then have "nat n \<in> {1..p}" "nat m \<in> {1..<c}" by auto
      with r have "xs ! (length xs - (p * nat m + nat n)) = xs ! (length xs - nat n)" by blast
      moreover have "nat (int p * m + n) = p * nat m + nat n" using n m by (simp add: nat_add_distrib nat_mult_distrib)
      ultimately show "xs ! (length xs - nat (int p * m + n)) = xs ! (length xs - nat n)" by simp
    qed
  qed
  then show ?thesis
    unfolding has_repeating_pattern_def ends_in_copies_nth[OF assms]
    using repeats_offsets_spec[of "[1..int p]" "int p" "int c" xs] assms pc by simp
qed

lemma pattern_sizes_spec:
  assumes "0 < a" "0 < c"
  shows "pattern_sizes xs c [a..b] = Inr (\<exists>p. a \<le> int p \<and> int p \<le> b \<and> int p * c \<le> int (length xs) \<and> ends_in_copies xs p (nat c))"
  using assms(1)
proof (induction "nat (b - a + 1)" arbitrary: a)
  case 0
  then show ?case by auto
next
  case (Suc k)
  have up: "[a..b] = a # [a + 1..b]" using Suc.hyps(2) by (intro upto_rec1) simp
  show ?case
  proof (cases "a * c > int (length xs)")
    case True
    have "int (length xs) < int p * c" if "a \<le> int p" for p
      using mult_right_mono[OF that, of c] True assms(2) by linarith
    with True show ?thesis unfolding up by force
  next
    case False
    have "nat a * nat c \<le> length xs" using False Suc.prems assms(2) by (simp add: nat_mult_distrib[symmetric] nat_le_iff)
    then have h: "has_repeating_pattern xs a c = Inr (ends_in_copies xs (nat a) (nat c))"
      using has_repeating_pattern_spec[of "nat a" "nat c" xs] Suc.prems assms(2) by simp
    have IH: "pattern_sizes xs c [a + 1..b]
        = Inr (\<exists>p. a + 1 \<le> int p \<and> int p \<le> b \<and> int p * c \<le> int (length xs) \<and> ends_in_copies xs p (nat c))"
      using Suc by (intro Suc.hyps(1)) auto
    have split: "(\<exists>p. a \<le> int p \<and> int p \<le> b \<and> int p * c \<le> int (length xs) \<and> ends_in_copies xs p (nat c))
      \<longleftrightarrow> ends_in_copies xs (nat a) (nat c)
        \<or> (\<exists>p. a + 1 \<le> int p \<and> int p \<le> b \<and> int p * c \<le> int (length xs) \<and> ends_in_copies xs p (nat c))" (is "?l \<longleftrightarrow> ?r")
    proof
      assume ?l
      then obtain p where p: "a \<le> int p" "int p \<le> b" "int p * c \<le> int (length xs)" "ends_in_copies xs p (nat c)" by blast
      show ?r
      proof (cases "int p = a")
        case True
        then have "p = nat a" by simp
        with p show ?thesis by simp
      next
        case False
        with p show ?thesis by (intro disjI2 exI[of _ p]) simp
      qed
    next
      assume ?r
      then show ?l
      proof
        assume "ends_in_copies xs (nat a) (nat c)"
        moreover have "int (nat a) = a" "a \<le> b" using Suc.prems Suc.hyps(2) by auto
        ultimately show ?l using False by (intro exI[of _ "nat a"]) simp
      qed force
    qed
    show ?thesis using False unfolding up split by (simp add: h IH)
  qed
qed

section \<open>Properties\<close>

definition repeated :: "repetition_detection_params option \<Rightarrow> int list \<Rightarrow> bool" where
  "repeated params xs = (case params of None \<Rightarrow> False | Some ps \<Rightarrow>
     2 \<le> min_count ps \<and> (\<exists>p. 1 \<le> p \<and> min_pattern_size ps \<le> int p \<and> int p \<le> max_pattern_size ps
       \<and> int p * min_count ps \<le> int (length xs) \<and> ends_in_copies xs p (nat (min_count ps))))"

lemma check_sequence_repetition_spec: "check_sequence_repetition xs ps = Inr (repeated (Some ps) xs)"
proof (cases "max_pattern_size ps \<le> 0 \<or> min_count ps < 2 \<or> (if min_pattern_size ps \<le> 0 then 1 else min_pattern_size ps) > max_pattern_size ps")
  case True
  have "\<not> repeated (Some ps) xs" using True by (auto simp: repeated_def split: if_splits)
  with True show ?thesis by (simp add: check_sequence_repetition_def Let_def)
next
  case False
  let ?a = "if min_pattern_size ps \<le> 0 then 1 else min_pattern_size ps"
  have "(\<exists>p. ?a \<le> int p \<and> int p \<le> max_pattern_size ps \<and> int p * min_count ps \<le> int (length xs) \<and> ends_in_copies xs p (nat (min_count ps)))
      = repeated (Some ps) xs"
  proof -
    have "?a \<le> int p \<longleftrightarrow> 1 \<le> p \<and> min_pattern_size ps \<le> int p" for p by auto
    moreover have "2 \<le> min_count ps" using False by simp
    ultimately show ?thesis unfolding repeated_def option.case by (simp only: simp_thms conj_assoc)
  qed
  moreover have "pattern_sizes xs (min_count ps) [?a..max_pattern_size ps]
      = Inr (\<exists>p. ?a \<le> int p \<and> int p \<le> max_pattern_size ps \<and> int p * min_count ps \<le> int (length xs) \<and> ends_in_copies xs p (nat (min_count ps)))"
    by (rule pattern_sizes_spec) (use False in auto)
  ultimately show ?thesis using False by (simp add: check_sequence_repetition_def Let_def)
qed

text \<open>
  C26. The repetition check never raises and decides what it means to: it returns \<^verbatim>\<open>True\<close> exactly when the
  minimal count is at least two and, for some size within the configured range, the tokens end in
  that many copies of one pattern of that size. The early return for sizes that do not fit loses
  nothing, and no negative index leaves the list.
\<close>

theorem repetition_check_exact:
  "check_sequence_repetition xs ps
   = Inr (2 \<le> min_count ps \<and> (\<exists>p. 1 \<le> p \<and> min_pattern_size ps \<le> int p \<and> int p \<le> max_pattern_size ps
       \<and> (\<exists>pat. length pat = p \<and> suffix (concat (replicate (nat (min_count ps)) pat)) xs)))"
proof -
  have len: "int p * min_count ps \<le> int (length xs)" if e: "ends_in_copies xs p (nat (min_count ps))" and two: "2 \<le> min_count ps" for p
  proof -
    obtain pat where "length pat = p" "suffix (concat (replicate (nat (min_count ps)) pat)) xs" using e by (auto simp: ends_in_copies_def)
    then have "nat (min_count ps) * p \<le> length xs" using suffix_length_le by fastforce
    then have "int (nat (min_count ps)) * int p \<le> int (length xs)" by (metis of_nat_le_iff of_nat_mult)
    then show ?thesis using two by (simp add: mult.commute)
  qed
  show ?thesis
    unfolding check_sequence_repetition_spec repeated_def option.case
    using len by (auto simp: ends_in_copies_def[symmetric])
qed

definition stop_token :: "request \<Rightarrow> sampling_params \<Rightarrow> bool" where
  "stop_token r sp \<longleftrightarrow> eos_token_id sp = Some (last (output_token_ids r)) \<or> last (output_token_ids r) \<in> set (stop_token_ids sp)"

definition length_reached :: "request \<Rightarrow> int \<Rightarrow> bool" where
  "length_reached r max_model_len \<longleftrightarrow> max_model_len \<le> num_tokens r \<or> max_tokens r \<le> num_output_tokens r"

definition stops :: "request \<Rightarrow> sampling_params \<Rightarrow> int \<Rightarrow> bool" where
  "stops r sp max_model_len \<longleftrightarrow> min_tokens sp \<le> num_output_tokens r
     \<and> (stop_token r sp \<or> length_reached r max_model_len \<or> repeated (repetition_detection sp) (output_token_ids r))"

lemma last_token: "xs \<noteq> [] \<Longrightarrow> py_nth xs (-1) = Inr (last xs)"
  using py_nth_neg[of 1 xs] by (simp add: last_conv_nth Suc_le_eq)

lemma repetition_case:
  "(case params of None \<Rightarrow> Inr False | Some ps \<Rightarrow> check_sequence_repetition xs ps) = Inr (repeated params xs)"
  by (cases params) (simp_all add: check_sequence_repetition_spec repeated_def)

text \<open>
  C25. A request stops for exactly the stated reasons: for a generating request with at least one output
  token, \<^verbatim>\<open>check_stop\<close> returns without an exception. It returns \<^verbatim>\<open>False\<close> and leaves the request alone
  while fewer than the minimal number of tokens are out, or when none of the end of sequence token, a
  stop token, the two length limits and the repetition check applies. Otherwise it returns \<^verbatim>\<open>True\<close>, the
  request is finished, with the reason of the first of these that applies, and nothing but the status
  and the stop reason changes.
\<close>

theorem check_stop_exact:
  assumes "pooling_params r = None" and "sampling_params r = Some sp" and "output_token_ids r \<noteq> []"
  shows "\<exists>r'. check_stop r max_model_len = Inr (stops r sp max_model_len, r')
    \<and> (if stops r sp max_model_len
       then is_finished (status r') \<and> r' = r\<lparr>status := status r', stop_reason := stop_reason r'\<rparr>
         \<and> get_finished_reason (status r') = Some (if stop_token r sp then REASON_STOP
             else if length_reached r max_model_len then REASON_LENGTH else REASON_REPETITION)
       else r' = r)"
proof (cases "num_output_tokens r < min_tokens sp")
  case True
  with assms show ?thesis by (simp add: check_stop_def stops_def)
next
  case False
  note unfold = check_stop_def assms(1,2) last_token[OF assms(3)] repetition_case
  consider (eos) "eos_token_id sp = Some (last (output_token_ids r))"
    | (stop) "eos_token_id sp \<noteq> Some (last (output_token_ids r))" "last (output_token_ids r) \<in> set (stop_token_ids sp)"
    | (len) "\<not> stop_token r sp" "length_reached r max_model_len" | (other) "\<not> stop_token r sp" "\<not> length_reached r max_model_len"
    by (auto simp: stop_token_def)
  then show ?thesis
  proof cases
    case eos
    with False show ?thesis by (intro exI[of _ "r\<lparr>status := FINISHED_STOPPED\<rparr>"])
      (auto simp: unfold stops_def stop_token_def is_finished_iff)
  next
    case stop
    with False show ?thesis by (intro exI[of _ "r\<lparr>status := FINISHED_STOPPED, stop_reason := Some (StopToken (last (output_token_ids r)))\<rparr>"])
      (auto simp: unfold stops_def stop_token_def is_finished_iff)
  next
    case len
    with False show ?thesis by (intro exI[of _ "r\<lparr>status := FINISHED_LENGTH_CAPPED\<rparr>"])
      (auto simp: unfold stops_def stop_token_def is_finished_iff length_reached_def)
  next
    case other
    then have no: "eos_token_id sp \<noteq> Some (last (output_token_ids r))" "Some (last (output_token_ids r)) \<noteq> eos_token_id sp"
        "last (output_token_ids r) \<notin> set (stop_token_ids sp)" "\<not> (max_model_len \<le> num_tokens r \<or> max_tokens r \<le> num_output_tokens r)"
      by (auto simp: stop_token_def length_reached_def)
    show ?thesis
    proof (cases "repeated (repetition_detection sp) (output_token_ids r)")
      case True
      with False other no show ?thesis
        by (intro exI[of _ "r\<lparr>status := FINISHED_REPETITION, stop_reason := Some (StopString ''repetition_detected'')\<rparr>"])
          (simp add: unfold stops_def is_finished_iff)
    next
      case None: False
      with False other no show ?thesis by (simp add: unfold stops_def)
    qed
  qed
qed

definition demo_sampling :: sampling_params where
  "demo_sampling = \<lparr>sp_max_tokens = Some 16, min_tokens = 0, eos_token_id = Some 0, stop_token_ids = [9],
     repetition_detection = Some \<lparr>max_pattern_size = 3, min_pattern_size = 0, min_count = 2\<rparr>, sp_skip_reading_prefix_cache = None\<rparr>"

definition demo_generating :: "int list \<Rightarrow> request" where
  "demo_generating out =
     \<lparr>request_id = ''g'', priority = 0, arrival_time = 0, lora_request = None, sampling_params = Some demo_sampling,
      pooling_params = None, structured_output_request = False, status = RUNNING, stop_reason = None,
      max_tokens = 16, prompt_token_ids = Some [1], prompt_embeds = None, prompt_embeds_per_block_hashes = [],
      num_prompt_tokens = 1, output_token_ids = out, all_token_ids = 1 # out,
      num_output_placeholders = 0, spec_token_ids = [], num_computed_tokens = 1, cache_salt = None,
      mm_features = [], is_prefill_chunk = False, num_preemptions = 0, block_hashes = [],
      skip_reading_prefix_cache = False, resumable = False\<rparr>"

theorem check_stop_exact_witness:
  "\<exists>r'. check_stop (demo_generating [5, 7, 5, 7]) 32 = Inr (True, r') \<and> is_finished (status r')
    \<and> get_finished_reason (status r') = Some REASON_REPETITION"
proof -
  have ev: "case check_stop (demo_generating [5, 7, 5, 7]) 32 of Inr (b, r') \<Rightarrow> b \<and> status r' = FINISHED_REPETITION | _ \<Rightarrow> False" by code_simp
  obtain r' where "check_stop (demo_generating [5, 7, 5, 7]) 32 = Inr (stops (demo_generating [5, 7, 5, 7]) demo_sampling 32, r')"
    "if stops (demo_generating [5, 7, 5, 7]) demo_sampling 32 then is_finished (status r') else r' = demo_generating [5, 7, 5, 7]"
    using check_stop_exact[of "demo_generating [5, 7, 5, 7]" demo_sampling 32] by (auto simp: demo_generating_def split: if_splits)
  with ev show ?thesis by (auto split: if_splits)
qed

text \<open>
  C27. The fast path of \<^verbatim>\<open>remove_all\<close> agrees with the general one: on a list without duplicates, such as
  the list of running requests, removing the items of any set leaves exactly the other elements in
  their order.
\<close>

theorem remove_all_is_filter:
  assumes "distinct lst"
  shows "remove_all lst items = filter (\<lambda>x. x \<notin> set items) lst"
proof (cases items rule: remdups_adj.cases)
  case (2 x)
  with assms show ?thesis by (auto simp: remove_all_def distinct_remove1_removeAll removeAll_filter_not_eq intro: filter_cong)
qed (auto simp: remove_all_def)

theorem remove_all_is_filter_witness: "remove_all [1, 2, 3 :: int] [2] = [1, 3]"
  using remove_all_is_filter[of "[1, 2, 3 :: int]" "[2]"] by simp

end
