(* ===== verification/Encoder_Cache.thy ===== *)
theory Encoder_Cache
  imports Request
begin

text \<open>
  The cache of encoder outputs of multi-modal inputs (\<^verbatim>\<open>vllm/v1/core/encoder_cache_manager.py\<close>): entries
  are shared by the hash of the input, counted in embeddings, and evicted oldest first when nobody
  refers to them. Also the variant for encoder-decoder models and the budget computation.
\<close>

section \<open>The cache\<close>

text \<open>A set of request ids is the list of its elements in the order they were added.\<close>

record encoder_cache =
  cache_size :: int
  num_free_slots :: int
  num_freeable_slots :: int
  ec_cached :: "(string, string list) dict"
  ec_freeable :: "(string, int) dict"
  ec_freed :: "string list"

definition encoder_cache_init :: "int \<Rightarrow> encoder_cache" where
  "encoder_cache_init n = \<lparr>cache_size = n, num_free_slots = n, num_freeable_slots = n,
     ec_cached = [], ec_freeable = [], ec_freed = []\<rparr>"

definition encoder_cache_reset :: "encoder_cache \<Rightarrow> encoder_cache" where
  "encoder_cache_reset c = c\<lparr>ec_cached := [], ec_freeable := [], ec_freed := [],
     num_free_slots := cache_size c, num_freeable_slots := cache_size c\<rparr>"

definition input_hash :: "request \<Rightarrow> int \<Rightarrow> string res" where
  "input_hash r input_id = ebind (py_nth (mm_features r) input_id) (\<lambda>f. Inr (mm_identifier f))"

definition check_and_update_cache :: "encoder_cache \<Rightarrow> request \<Rightarrow> int \<Rightarrow> (bool \<times> encoder_cache) res" where
  "check_and_update_cache c r input_id =
     ebind (input_hash r input_id) (\<lambda>mm_hash.
       case dget (ec_cached c) mm_hash of
         None \<Rightarrow> Inr (False, c)
       | Some refs \<Rightarrow>
           ebind (if refs = []
                  then case dget (ec_freeable c) mm_hash of
                         None \<Rightarrow> Inl KeyError
                       | Some n \<Rightarrow> Inr (c\<lparr>ec_freeable := ddel mm_hash (ec_freeable c),
                                         num_freeable_slots := num_freeable_slots c - n\<rparr>)
                  else Inr c) (\<lambda>c1.
             Inr (True, c1\<lparr>ec_cached := dset mm_hash (List.insert (request_id r) refs) (ec_cached c1)\<rparr>)))"

text \<open>The loop of \<^verbatim>\<open>can_allocate\<close> over the freeable entries, oldest first.\<close>

fun evict_until :: "int \<Rightarrow> (string, int) dict \<Rightarrow> encoder_cache \<Rightarrow> encoder_cache res" where
  "evict_until n [] c = (if n > num_free_slots c then Inl KeyError else Inr c)"
| "evict_until n ((mm_hash, num_free_embeds) # rest) c =
     (if n > num_free_slots c then
        if dget (ec_cached c) mm_hash = None then Inl KeyError
        else evict_until n rest (c\<lparr>ec_freeable := rest, ec_cached := ddel mm_hash (ec_cached c),
               ec_freed := ec_freed c @ [mm_hash], num_free_slots := num_free_slots c + num_free_embeds\<rparr>)
      else Inr c)"

definition can_allocate :: "encoder_cache \<Rightarrow> request \<Rightarrow> int \<Rightarrow> int \<Rightarrow> int \<Rightarrow> (bool \<times> encoder_cache) res" where
  "can_allocate c r input_id encoder_compute_budget num_embeds_to_schedule =
     ebind (get_num_encoder_embeds r input_id) (\<lambda>num_embeds.
       if num_embeds > encoder_compute_budget then Inr (False, c)
       else let num_embeds = num_embeds + num_embeds_to_schedule
            in if num_embeds \<le> num_free_slots c then Inr (True, c)
               else if num_embeds > num_freeable_slots c then Inr (False, c)
               else ebind (evict_until num_embeds (ec_freeable c) c) (\<lambda>c'. Inr (True, c')))"

definition enc_allocate :: "encoder_cache \<Rightarrow> request \<Rightarrow> int \<Rightarrow> encoder_cache res" where
  "enc_allocate c r input_id =
     ebind (input_hash r input_id) (\<lambda>mm_hash.
       let refs = dget_or [] (ec_cached c) mm_hash
       in ebind (get_num_encoder_embeds r input_id) (\<lambda>num_encoder_embeds.
            if \<not> num_free_slots c \<ge> num_encoder_embeds then Inl AssertionError
            else if \<not> num_freeable_slots c \<ge> num_encoder_embeds then Inl AssertionError
            else Inr (c\<lparr>ec_cached := dset mm_hash (List.insert (request_id r) refs) (ec_cached c),
                        num_free_slots := num_free_slots c - num_encoder_embeds,
                        num_freeable_slots := num_freeable_slots c - num_encoder_embeds\<rparr>)))"

definition get_cached_input_ids :: "encoder_cache \<Rightarrow> request \<Rightarrow> int list" where
  "get_cached_input_ids c r =
     filter (\<lambda>i. dget (ec_cached c) (mm_identifier (mm_features r ! nat i)) \<noteq> None) [0..int (length (mm_features r)) - 1]"

definition free_encoder_input :: "request \<Rightarrow> int \<Rightarrow> encoder_cache \<Rightarrow> encoder_cache res" where
  "free_encoder_input r input_id c =
     ebind (input_hash r input_id) (\<lambda>mm_hash.
       let refs = dget_or [] (ec_cached c) mm_hash
       in if refs = [] then Inr c
          else let refs' = removeAll (request_id r) refs; c1 = c\<lparr>ec_cached := dset mm_hash refs' (ec_cached c)\<rparr>
               in if refs' \<noteq> [] then Inr c1
                  else ebind (get_num_encoder_embeds r input_id) (\<lambda>num_encoder_embeds.
                    Inr (c1\<lparr>ec_freeable := dset mm_hash num_encoder_embeds (ec_freeable c1),
                            num_freeable_slots := num_freeable_slots c1 + num_encoder_embeds\<rparr>)))"

definition enc_free :: "encoder_cache \<Rightarrow> request \<Rightarrow> encoder_cache res" where
  "enc_free c r = efold (free_encoder_input r) (get_cached_input_ids c r) c"

definition get_freed_mm_hashes :: "encoder_cache \<Rightarrow> string list \<times> encoder_cache" where
  "get_freed_mm_hashes c = (ec_freed c, c\<lparr>ec_freed := []\<rparr>)"

section \<open>Budgets\<close>

record scheduler_limits =
  disable_chunked_mm_input :: bool
  max_num_batched_tokens :: int
  max_num_encoder_input_tokens :: int
  encoder_cache_limit :: int

definition compute_mm_encoder_budget :: "scheduler_limits \<Rightarrow> (string, int) dict \<Rightarrow> (int \<times> int) res" where
  "compute_mm_encoder_budget cfg mm_max_toks_per_item =
     (if mm_max_toks_per_item = [] then Inr (0, 0)
      else let largest = Max (set (map snd mm_max_toks_per_item))
           in if disable_chunked_mm_input cfg \<and> largest > max_num_batched_tokens cfg then Inl ValueError
              else Inr (max (max_num_encoder_input_tokens cfg) largest, max (encoder_cache_limit cfg) largest))"

section \<open>Encoder-decoder models\<close>

record encdec_cache =
  ed_cache_size :: int
  ed_num_free_slots :: int
  ed_allocated :: "string list"
  ed_to_free :: "string list"

definition encdec_init :: "int \<Rightarrow> encdec_cache" where
  "encdec_init n = \<lparr>ed_cache_size = n, ed_num_free_slots = n, ed_allocated = [], ed_to_free = []\<rparr>"

definition encdec_reset :: "encdec_cache \<Rightarrow> encdec_cache" where
  "encdec_reset c = c\<lparr>ed_num_free_slots := ed_cache_size c, ed_allocated := [], ed_to_free := []\<rparr>"

definition encdec_can_allocate :: "encdec_cache \<Rightarrow> request \<Rightarrow> int \<Rightarrow> int \<Rightarrow> int \<Rightarrow> bool res" where
  "encdec_can_allocate c r input_id encoder_compute_budget num_embeds_to_schedule =
     ebind (get_num_encoder_embeds r input_id) (\<lambda>n.
       if n > encoder_compute_budget then Inr False else Inr (n + num_embeds_to_schedule \<le> ed_num_free_slots c))"

definition encdec_allocate :: "encdec_cache \<Rightarrow> request \<Rightarrow> int \<Rightarrow> encdec_cache res" where
  "encdec_allocate c r input_id =
     ebind (get_num_encoder_embeds r input_id) (\<lambda>n.
     ebind (input_hash r input_id) (\<lambda>mm_hash.
       Inr (c\<lparr>ed_num_free_slots := ed_num_free_slots c - n, ed_allocated := ed_allocated c @ [mm_hash]\<rparr>)))"

definition encdec_free_encoder_input :: "request \<Rightarrow> int \<Rightarrow> encdec_cache \<Rightarrow> encdec_cache res" where
  "encdec_free_encoder_input r input_id c =
     ebind (get_num_encoder_embeds r input_id) (\<lambda>n. Inr (c\<lparr>ed_num_free_slots := ed_num_free_slots c + n\<rparr>))"

definition encdec_free :: "encdec_cache \<Rightarrow> request \<Rightarrow> encdec_cache res" where
  "encdec_free c r = efold (encdec_free_encoder_input r) [0..int (length (mm_features r)) - 1] c"

definition encdec_get_freed :: "encdec_cache \<Rightarrow> string list \<times> encdec_cache" where
  "encdec_get_freed c = (ed_to_free c, c\<lparr>ed_to_free := ed_allocated c, ed_allocated := []\<rparr>)"

section \<open>Weighing a dictionary\<close>

definition weight :: "('k \<Rightarrow> 'v \<Rightarrow> int) \<Rightarrow> ('k, 'v) dict \<Rightarrow> int" where
  "weight f d = (\<Sum>(k, v)\<leftarrow>d. f k v)"

lemma weight_Nil [simp]: "weight f [] = 0"
  by (simp add: weight_def)

lemma weight_Cons [simp]: "weight f ((k, v) # d) = f k v + weight f d"
  by (simp add: weight_def)

lemma weight_dset:
  "dict_ok d \<Longrightarrow> weight f (dset k v d) = weight f d + f k v - (case dget d k of None \<Rightarrow> 0 | Some w \<Rightarrow> f k w)"
  by (induction d) auto

lemma weight_ddel:
  "dict_ok d \<Longrightarrow> weight f (ddel k d) = weight f d - (case dget d k of None \<Rightarrow> 0 | Some w \<Rightarrow> f k w)"
  by (induction d) auto

lemma weight_nonneg: "(\<And>k v. 0 \<le> f k v) \<Longrightarrow> 0 \<le> weight f d"
  by (induction d) auto

lemma weight_mono: "(\<And>k v. f k v \<le> g k v) \<Longrightarrow> weight f d \<le> weight g d"
  by (induction d) (auto intro!: add_mono)

lemma weight_sum: "dict_ok d \<Longrightarrow> weight f d = (\<Sum>k \<in> dom (dget d). f k (the (dget d k)))"
proof (induction d)
  case (Cons kv d)
  obtain k v where kv: "kv = (k, v)" by (cases kv)
  with Cons.prems have d: "dict_ok d" "k \<notin> dom (dget d)" by auto
  have dom: "dom (dget (kv # d)) = insert k (dom (dget d))" by (auto simp: kv)
  have "(\<Sum>x \<in> dom (dget d). f x (the (dget (kv # d) x))) = (\<Sum>x \<in> dom (dget d). f x (the (dget d x)))"
    using d(2) by (intro sum.cong) (auto simp: kv)
  moreover have "(\<Sum>x \<in> dom (dget (kv # d)). f x (the (dget (kv # d) x))) = f k v + (\<Sum>x \<in> dom (dget d). f x (the (dget (kv # d) x)))"
    unfolding dom using d(2) by (subst sum.insert) (simp_all add: kv finite_dom_map_of)
  moreover have "weight f (kv # d) = f k v + weight f d" by (simp add: kv)
  ultimately show ?case by (simp only: Cons.IH[OF d(1)])
qed simp

section \<open>The invariant\<close>

text \<open>\<open>sz h\<close> is the number of embeddings of the input with hash \<open>h\<close>.\<close>

definition all_slots :: "(string \<Rightarrow> int) \<Rightarrow> encoder_cache \<Rightarrow> int" where
  "all_slots sz c = weight (\<lambda>h _. sz h) (ec_cached c)"

definition held_slots :: "(string \<Rightarrow> int) \<Rightarrow> encoder_cache \<Rightarrow> int" where
  "held_slots sz c = weight (\<lambda>h refs. if refs = [] then 0 else sz h) (ec_cached c)"

definition enc_ok :: "(string \<Rightarrow> int) \<Rightarrow> encoder_cache \<Rightarrow> bool" where
  "enc_ok sz c \<longleftrightarrow> dict_ok (ec_cached c) \<and> dict_ok (ec_freeable c)
     \<and> (\<forall>h. dget (ec_freeable c) h = (if dget (ec_cached c) h = Some [] then Some (sz h) else None))
     \<and> num_free_slots c = cache_size c - all_slots sz c \<and> num_freeable_slots c = cache_size c - held_slots sz c
     \<and> 0 \<le> num_free_slots c \<and> (\<forall>h. 0 \<le> sz h)"

lemma freeable_weight:
  assumes "enc_ok sz c"
  shows "weight (\<lambda>_ n. n) (ec_freeable c) = num_freeable_slots c - num_free_slots c"
proof -
  have d: "dict_ok (ec_cached c)" "dict_ok (ec_freeable c)"
    and f: "\<And>h. dget (ec_freeable c) h = (if dget (ec_cached c) h = Some [] then Some (sz h) else None)"
    using assms by (auto simp: enc_ok_def)
  let ?C = "dom (dget (ec_cached c))"
  have "weight (\<lambda>_ n. n) (ec_freeable c) = (\<Sum>h \<in> dom (dget (ec_freeable c)). sz h)"
    unfolding weight_sum[OF d(2)] by (intro sum.cong) (auto simp: f split: if_splits)
  also have "\<dots> = (\<Sum>h \<in> ?C. if dget (ec_cached c) h = Some [] then sz h else 0)"
    by (intro sum.mono_neutral_cong_left) (auto simp: f finite_dom_map_of split: if_splits)
  also have "\<dots> = (\<Sum>h \<in> ?C. sz h) - (\<Sum>h \<in> ?C. if the (dget (ec_cached c) h) = [] then 0 else sz h)"
    unfolding sum_subtractf[symmetric] by (intro sum.cong) auto
  also have "\<dots> = all_slots sz c - held_slots sz c"
    unfolding all_slots_def held_slots_def weight_sum[OF d(1)] ..
  finally show ?thesis using assms by (simp add: enc_ok_def)
qed

lemma enc_ok_bounds:
  assumes "enc_ok sz c"
  shows "0 \<le> num_free_slots c" "num_free_slots c \<le> num_freeable_slots c" "num_freeable_slots c \<le> cache_size c"
proof -
  have sz: "\<And>h. 0 \<le> sz h" using assms by (simp add: enc_ok_def)
  show "0 \<le> num_free_slots c" using assms by (simp add: enc_ok_def)
  have "held_slots sz c \<le> all_slots sz c" unfolding held_slots_def all_slots_def by (rule weight_mono) (auto simp: sz)
  then show "num_free_slots c \<le> num_freeable_slots c" using assms by (simp add: enc_ok_def)
  have "0 \<le> held_slots sz c" unfolding held_slots_def by (rule weight_nonneg) (auto simp: sz)
  then show "num_freeable_slots c \<le> cache_size c" using assms by (simp add: enc_ok_def)
qed

lemma evict_one_ok:
  assumes "enc_ok sz c" "ec_freeable c = (h, n) # rest"
  shows "dget (ec_cached c) h = Some [] \<and> n = sz h \<and> enc_ok sz (c\<lparr>ec_freeable := rest, ec_cached := ddel h (ec_cached c),
      ec_freed := ec_freed c @ [h], num_free_slots := num_free_slots c + n\<rparr>)"
proof -
  have d: "dict_ok (ec_cached c)" "dict_ok (ec_freeable c)"
    and f: "\<And>x. dget (ec_freeable c) x = (if dget (ec_cached c) x = Some [] then Some (sz x) else None)"
    using assms by (auto simp: enc_ok_def)
  have h: "dget (ec_cached c) h = Some []" "n = sz h" using f[of h] assms(2) by (auto split: if_splits)
  have r: "dget rest h = None" "dict_ok rest" using d(2) assms(2) by auto
  have "dget rest x = (if dget (ddel h (ec_cached c)) x = Some [] then Some (sz x) else None)" for x
    using f[of x] r(1) assms(2) by auto
  with assms d h r show ?thesis
    by (auto simp: enc_ok_def all_slots_def held_slots_def weight_ddel)
qed

lemma evict_until_ok:
  assumes "enc_ok sz c" "n \<le> num_freeable_slots c"
  shows "\<exists>c' k. evict_until n (ec_freeable c) c = Inr c' \<and> enc_ok sz c' \<and> n \<le> num_free_slots c'
    \<and> num_freeable_slots c' = num_freeable_slots c \<and> cache_size c' = cache_size c
    \<and> ec_freed c' = ec_freed c @ map fst (take k (ec_freeable c)) \<and> ec_freeable c' = drop k (ec_freeable c)
    \<and> (\<forall>h. dget (ec_cached c') h = (if h \<in> fst ` set (take k (ec_freeable c)) then None else dget (ec_cached c) h))"
  using assms
proof (induction "ec_freeable c" arbitrary: c)
  case Nil
  then have "num_free_slots c = num_freeable_slots c" using freeable_weight[OF Nil.prems(1)] by simp
  with Nil show ?case by (intro exI[of _ c] exI[of _ 0]) (simp flip: Nil.hyps)
next
  case (Cons e rest)
  obtain h m where e: "e = (h, m)" by (cases e)
  show ?case
  proof (cases "n > num_free_slots c")
    case True
    let ?c = "c\<lparr>ec_freeable := rest, ec_cached := ddel h (ec_cached c), ec_freed := ec_freed c @ [h], num_free_slots := num_free_slots c + m\<rparr>"
    have one: "dget (ec_cached c) h = Some []" "enc_ok sz ?c" using evict_one_ok[OF Cons.prems(1), of h m rest] Cons.hyps(2) e by auto
    have "rest = ec_freeable ?c" by simp
    from Cons.hyps(1)[OF this one(2)] Cons.prems(2) obtain c' k where c': "evict_until n rest ?c = Inr c'" "enc_ok sz c'" "n \<le> num_free_slots c'"
      "num_freeable_slots c' = num_freeable_slots c" "cache_size c' = cache_size c"
      "ec_freed c' = ec_freed c @ [h] @ map fst (take k rest)" "ec_freeable c' = drop k rest"
      "\<forall>x. dget (ec_cached c') x = (if x \<in> fst ` set (take k rest) then None else dget (ddel h (ec_cached c)) x)"
      by auto
    then show ?thesis
      using True one(1) by (intro exI[of _ c'] exI[of _ "Suc k"]) (auto simp: Cons.hyps(2)[symmetric] e)
  next
    case False
    with Cons.prems show ?thesis
      by (intro exI[of _ c] exI[of _ 0]) (simp add: Cons.hyps(2)[symmetric] e)
  qed
qed

section \<open>Every operation keeps the invariant\<close>

definition feats_ok :: "(string \<Rightarrow> int) \<Rightarrow> request \<Rightarrow> bool" where
  "feats_ok sz r \<longleftrightarrow> (\<forall>f \<in> set (mm_features r). get_num_embeds (mm_position f) = sz (mm_identifier f))"

lemma input_facts:
  assumes "feats_ok sz r" "0 \<le> i" "i < int (length (mm_features r))"
  obtains h where "input_hash r i = Inr h" "get_num_encoder_embeds r i = Inr (sz h)" "h = mm_identifier (mm_features r ! nat i)"
proof -
  let ?f = "mm_features r ! nat i"
  have "?f \<in> set (mm_features r)" using assms(2,3) by (simp add: nat_less_iff)
  then have "get_num_embeds (mm_position ?f) = sz (mm_identifier ?f)" using assms(1) by (auto simp: feats_ok_def)
  with assms(2,3) show thesis
    by (intro that[of "mm_identifier ?f"]) (simp_all add: input_hash_def get_num_encoder_embeds_def py_nth_def)
qed

lemma check_and_update_ok:
  assumes ok: "enc_ok sz c" and r: "feats_ok sz r" "0 \<le> i" "i < int (length (mm_features r))"
  shows "\<exists>h b c'. input_hash r i = Inr h \<and> check_and_update_cache c r i = Inr (b, c') \<and> enc_ok sz c'
    \<and> b = (dget (ec_cached c) h \<noteq> None) \<and> (\<not> b \<longrightarrow> c' = c) \<and> (b \<longrightarrow> request_id r \<in> set (dget_or [] (ec_cached c') h))"
proof -
  obtain h where h: "input_hash r i = Inr h" by (rule input_facts[OF r])
  show ?thesis
  proof (cases "dget (ec_cached c) h")
    case None
    with h ok show ?thesis by (simp add: check_and_update_cache_def)
  next
    case (Some refs)
    show ?thesis
    proof (cases "refs = []")
      case True
      have f: "dget (ec_freeable c) h = Some (sz h)" using ok Some True by (simp add: enc_ok_def)
      let ?c = "c\<lparr>ec_freeable := ddel h (ec_freeable c), num_freeable_slots := num_freeable_slots c - sz h,
          ec_cached := dset h [request_id r] (ec_cached c)\<rparr>"
      have "enc_ok sz ?c"
        using ok Some True by (auto simp: enc_ok_def all_slots_def held_slots_def weight_dset weight_ddel)
      with h Some True f show ?thesis
        by (simp add: check_and_update_cache_def List.insert_def dget_or_def)
    next
      case False
      let ?c = "c\<lparr>ec_cached := dset h (List.insert (request_id r) refs) (ec_cached c)\<rparr>"
      have ne: "List.insert (request_id r) refs \<noteq> []" by (auto simp: List.insert_def)
      have "enc_ok sz ?c"
        using ok Some False ne by (auto simp: enc_ok_def all_slots_def held_slots_def weight_dset)
      with h Some False show ?thesis by (simp add: check_and_update_cache_def dget_or_def)
    qed
  qed
qed

lemma allocate_enc_ok:
  assumes ok: "enc_ok sz c" and r: "feats_ok sz r" "0 \<le> i" "i < int (length (mm_features r))"
    and new: "input_hash r i = Inr h" "dget (ec_cached c) h = None" "sz h \<le> num_free_slots c"
  shows "\<exists>c'. enc_allocate c r i = Inr c' \<and> enc_ok sz c' \<and> dget (ec_cached c') h = Some [request_id r]
    \<and> num_free_slots c' = num_free_slots c - sz h"
proof -
  have e: "get_num_encoder_embeds r i = Inr (sz h)" by (rule input_facts[OF r]) (use new(1) in simp)
  have f: "dget (ec_freeable c) h = None" using ok new(2) by (simp add: enc_ok_def)
  let ?c = "c\<lparr>ec_cached := dset h [request_id r] (ec_cached c), num_free_slots := num_free_slots c - sz h,
      num_freeable_slots := num_freeable_slots c - sz h\<rparr>"
  have "enc_ok sz ?c"
    using ok new(2,3) f by (auto simp: enc_ok_def all_slots_def held_slots_def weight_dset)
  with new e enc_ok_bounds[OF ok] show ?thesis by (simp add: enc_allocate_def dget_or_def List.insert_def)
qed

lemma free_input_ok:
  assumes ok: "enc_ok sz c" and r: "feats_ok sz r" "0 \<le> i" "i < int (length (mm_features r))"
  shows "\<exists>c'. free_encoder_input r i c = Inr c' \<and> enc_ok sz c' \<and> cache_size c' = cache_size c \<and> num_free_slots c' = num_free_slots c
    \<and> (\<forall>h. dget (ec_cached c') h = (if h = mm_identifier (mm_features r ! nat i)
          then map_option (removeAll (request_id r)) (dget (ec_cached c) h) else dget (ec_cached c) h))"
proof -
  obtain h where h: "input_hash r i = Inr h" "get_num_encoder_embeds r i = Inr (sz h)" "h = mm_identifier (mm_features r ! nat i)"
    by (rule input_facts[OF r])
  let ?refs = "dget_or [] (ec_cached c) h"
  consider (none) "dget (ec_cached c) h = None" | (unused) "dget (ec_cached c) h = Some []"
    | (kept) refs where "dget (ec_cached c) h = Some refs" "refs \<noteq> []" "removeAll (request_id r) refs \<noteq> []"
    | (last) refs where "dget (ec_cached c) h = Some refs" "refs \<noteq> []" "removeAll (request_id r) refs = []"
    by (cases "dget (ec_cached c) h") auto
  then show ?thesis
  proof cases
    case none
    with ok h show ?thesis by (auto simp: free_encoder_input_def dget_or_def)
  next
    case unused
    with ok h show ?thesis by (auto simp: free_encoder_input_def dget_or_def)
  next
    case (kept refs)
    let ?c = "c\<lparr>ec_cached := dset h (removeAll (request_id r) refs) (ec_cached c)\<rparr>"
    have "enc_ok sz ?c" using ok kept by (auto simp: enc_ok_def all_slots_def held_slots_def weight_dset)
    with kept h show ?thesis by (simp add: free_encoder_input_def dget_or_def Let_def)
  next
    case (last refs)
    let ?c = "c\<lparr>ec_cached := dset h [] (ec_cached c), ec_freeable := dset h (sz h) (ec_freeable c),
        num_freeable_slots := num_freeable_slots c + sz h\<rparr>"
    have "enc_ok sz ?c" using ok last by (auto simp: enc_ok_def all_slots_def held_slots_def weight_dset)
    with last h show ?thesis by (simp add: free_encoder_input_def dget_or_def Let_def)
  qed
qed

lemma enc_free_ok:
  assumes "enc_ok sz c" "feats_ok sz r"
  shows "\<exists>c'. enc_free c r = Inr c' \<and> enc_ok sz c' \<and> cache_size c' = cache_size c \<and> num_free_slots c' = num_free_slots c
    \<and> (\<forall>h refs. dget (ec_cached c') h = Some refs \<longrightarrow> h \<in> mm_identifier ` set (mm_features r) \<longrightarrow> request_id r \<notin> set refs)"
proof -
  let ?n = "int (length (mm_features r))"
  have fold: "\<exists>c'. efold (free_encoder_input r) is c = Inr c' \<and> enc_ok sz c' \<and> cache_size c' = cache_size c \<and> num_free_slots c' = num_free_slots c
      \<and> (\<forall>h. dget (ec_cached c') h = (if \<exists>i \<in> set is. h = mm_identifier (mm_features r ! nat i)
            then map_option (removeAll (request_id r)) (dget (ec_cached c) h) else dget (ec_cached c) h))"
    if "\<forall>i \<in> set is. 0 \<le> i \<and> i < ?n" "enc_ok sz c" for "is" c
    using that
  proof (induction "is" arbitrary: c)
    case (Cons i "is")
    obtain c1 where c1: "free_encoder_input r i c = Inr c1" "enc_ok sz c1" "cache_size c1 = cache_size c" "num_free_slots c1 = num_free_slots c"
      "\<forall>h. dget (ec_cached c1) h = (if h = mm_identifier (mm_features r ! nat i)
          then map_option (removeAll (request_id r)) (dget (ec_cached c) h) else dget (ec_cached c) h)"
      using free_input_ok[OF Cons.prems(2) assms(2), of i] Cons.prems(1) by auto
    obtain c2 where c2: "efold (free_encoder_input r) is c1 = Inr c2" "enc_ok sz c2" "cache_size c2 = cache_size c1" "num_free_slots c2 = num_free_slots c1"
      "\<forall>h. dget (ec_cached c2) h = (if \<exists>i \<in> set is. h = mm_identifier (mm_features r ! nat i)
            then map_option (removeAll (request_id r)) (dget (ec_cached c1) h) else dget (ec_cached c1) h)"
      using Cons.IH[of c1] Cons.prems(1) c1(2) by auto
    have "dget (ec_cached c2) h = (if \<exists>j \<in> set (i # is). h = mm_identifier (mm_features r ! nat j)
            then map_option (removeAll (request_id r)) (dget (ec_cached c) h) else dget (ec_cached c) h)" for h
      using c1(5) c2(5) by (auto simp: option.map_comp comp_def removeAll_filter_not_eq)
    with c1 c2 show ?case by auto
  qed simp
  obtain c' where c': "enc_free c r = Inr c'" "enc_ok sz c'" "cache_size c' = cache_size c" "num_free_slots c' = num_free_slots c"
    "\<forall>h. dget (ec_cached c') h = (if \<exists>i \<in> set (get_cached_input_ids c r). h = mm_identifier (mm_features r ! nat i)
            then map_option (removeAll (request_id r)) (dget (ec_cached c) h) else dget (ec_cached c) h)"
    using fold[of "get_cached_input_ids c r" c] assms(1) by (auto simp: enc_free_def get_cached_input_ids_def)
  have "request_id r \<notin> set refs" if refs: "dget (ec_cached c') h = Some refs" and h: "h \<in> mm_identifier ` set (mm_features r)" for h refs
  proof -
    obtain j where j: "j < length (mm_features r)" "h = mm_identifier (mm_features r ! j)" using h by (auto simp: in_set_conv_nth)
    have "dget (ec_cached c) h \<noteq> None" using refs c'(5) by (auto split: if_splits)
    then have "int j \<in> set (get_cached_input_ids c r)" using j by (simp add: get_cached_input_ids_def)
    then have "\<exists>i \<in> set (get_cached_input_ids c r). h = mm_identifier (mm_features r ! nat i)" using j(2) by force
    with refs c'(5) show ?thesis by auto
  qed
  with c' show ?thesis by blast
qed

lemma can_allocate_ok:
  assumes ok: "enc_ok sz c" and r: "feats_ok sz r" "0 \<le> i" "i < int (length (mm_features r))" and h: "input_hash r i = Inr h"
  shows "\<exists>c' k. can_allocate c r i budget sched = Inr (sz h \<le> budget \<and> sz h + sched \<le> num_freeable_slots c, c') \<and> enc_ok sz c'
    \<and> (sz h \<le> budget \<and> sz h + sched \<le> num_freeable_slots c \<longrightarrow> sz h + sched \<le> num_free_slots c')
    \<and> (\<not> (sz h \<le> budget \<and> sz h + sched \<le> num_freeable_slots c) \<longrightarrow> c' = c)
    \<and> num_freeable_slots c' = num_freeable_slots c
    \<and> ec_freed c' = ec_freed c @ map fst (take k (ec_freeable c)) \<and> ec_freeable c' = drop k (ec_freeable c)
    \<and> (\<forall>x. dget (ec_cached c') x = (if x \<in> fst ` set (take k (ec_freeable c)) then None else dget (ec_cached c) x))"
proof -
  have e: "get_num_encoder_embeds r i = Inr (sz h)" by (rule input_facts[OF r]) (use h in simp)
  consider (evict) "sz h \<le> budget" "sz h + sched \<le> num_freeable_slots c" "num_free_slots c < sz h + sched"
    | (other) "\<not> (sz h \<le> budget \<and> sz h + sched \<le> num_freeable_slots c \<and> num_free_slots c < sz h + sched)" by linarith
  then show ?thesis
  proof cases
    case evict
    obtain c' k where c': "evict_until (sz h + sched) (ec_freeable c) c = Inr c'" "enc_ok sz c'" "sz h + sched \<le> num_free_slots c'"
      "num_freeable_slots c' = num_freeable_slots c"
      "ec_freed c' = ec_freed c @ map fst (take k (ec_freeable c))" "ec_freeable c' = drop k (ec_freeable c)"
      "\<forall>x. dget (ec_cached c') x = (if x \<in> fst ` set (take k (ec_freeable c)) then None else dget (ec_cached c) x)"
      using evict_until_ok[OF ok evict(2)] by blast
    have "can_allocate c r i budget sched = Inr (True, c')"
      using evict c'(1) by (simp add: can_allocate_def e)
    with c' evict show ?thesis by (intro exI[of _ c'] exI[of _ k]) simp
  next
    case other
    then have "can_allocate c r i budget sched = Inr (sz h \<le> budget \<and> sz h + sched \<le> num_freeable_slots c, c)"
      using enc_ok_bounds[OF ok] by (auto simp: can_allocate_def e)
    with ok other show ?thesis by (intro exI[of _ c] exI[of _ 0]) auto
  qed
qed

section \<open>Reachable caches\<close>

inductive enc_reachable :: "(string \<Rightarrow> int) \<Rightarrow> encoder_cache \<Rightarrow> bool" for sz where
  enc_start: "0 \<le> n \<Longrightarrow> (\<And>h. 0 \<le> sz h) \<Longrightarrow> enc_reachable sz (encoder_cache_init n)"
| enc_check: "enc_reachable sz c \<Longrightarrow> feats_ok sz r \<Longrightarrow> 0 \<le> i \<Longrightarrow> i < int (length (mm_features r)) \<Longrightarrow>
     check_and_update_cache c r i = Inr (b, c') \<Longrightarrow> enc_reachable sz c'"
| enc_can: "enc_reachable sz c \<Longrightarrow> feats_ok sz r \<Longrightarrow> 0 \<le> i \<Longrightarrow> i < int (length (mm_features r)) \<Longrightarrow>
     can_allocate c r i budget sched = Inr (b, c') \<Longrightarrow> enc_reachable sz c'"
| enc_alloc: "enc_reachable sz c \<Longrightarrow> feats_ok sz r \<Longrightarrow> 0 \<le> i \<Longrightarrow> i < int (length (mm_features r)) \<Longrightarrow>
     input_hash r i = Inr h \<Longrightarrow> dget (ec_cached c) h = None \<Longrightarrow> enc_allocate c r i = Inr c' \<Longrightarrow> enc_reachable sz c'"
| enc_free_input: "enc_reachable sz c \<Longrightarrow> feats_ok sz r \<Longrightarrow> 0 \<le> i \<Longrightarrow> i < int (length (mm_features r)) \<Longrightarrow>
     free_encoder_input r i c = Inr c' \<Longrightarrow> enc_reachable sz c'"
| enc_freed: "enc_reachable sz c \<Longrightarrow> feats_ok sz r \<Longrightarrow> enc_free c r = Inr c' \<Longrightarrow> enc_reachable sz c'"
| enc_taken: "enc_reachable sz c \<Longrightarrow> get_freed_mm_hashes c = (hs, c') \<Longrightarrow> enc_reachable sz c'"
| enc_reset: "enc_reachable sz c \<Longrightarrow> enc_reachable sz (encoder_cache_reset c)"

lemma enc_reachable_ok: "enc_reachable sz c \<Longrightarrow> enc_ok sz c"
proof (induction rule: enc_reachable.induct)
  case (enc_start n)
  then show ?case by (simp add: enc_ok_def encoder_cache_init_def all_slots_def held_slots_def)
next
  case (enc_check c r i b c')
  from check_and_update_ok[OF enc_check.IH enc_check.hyps(2-4)] enc_check.hyps(5) show ?case by auto
next
  case (enc_can c r i budget sched b c')
  obtain h where "input_hash r i = Inr h" by (rule input_facts[OF enc_can.hyps(2-4)])
  from can_allocate_ok[OF enc_can.IH enc_can.hyps(2-4) this, of budget sched] enc_can.hyps(5) show ?case by auto
next
  case (enc_alloc c r i h c')
  have "get_num_encoder_embeds r i = Inr (sz h)" by (rule input_facts[OF enc_alloc.hyps(2-4)]) (use enc_alloc.hyps(5) in simp)
  then have "sz h \<le> num_free_slots c" using enc_alloc.hyps(5,7) by (auto simp: enc_allocate_def split: if_splits)
  from allocate_enc_ok[OF enc_alloc.IH enc_alloc.hyps(2-6) this] enc_alloc.hyps(7) show ?case by auto
next
  case (enc_free_input c r i c')
  from free_input_ok[OF enc_free_input.IH enc_free_input.hyps(2-4)] enc_free_input.hyps(5) show ?case by auto
next
  case (enc_freed c r c')
  from enc_free_ok[OF enc_freed.IH enc_freed.hyps(2)] enc_freed.hyps(3) show ?case by auto
next
  case (enc_taken c hs c')
  then show ?case by (auto simp: get_freed_mm_hashes_def enc_ok_def all_slots_def held_slots_def)
next
  case (enc_reset c)
  from enc_ok_bounds[OF enc_reset.IH] enc_reset.IH show ?case
    by (auto simp: encoder_cache_reset_def enc_ok_def all_slots_def held_slots_def)
qed

section \<open>Properties\<close>

text \<open>
  C22. The encoder cache counts exactly: in every reachable state the free slots are the capacity less
  the embeddings of all entries, the freeable slots are the capacity less the embeddings of the
  entries some request refers to, the freeable entries are the unreferenced ones with their sizes,
  and both counters stay between zero and the capacity.
\<close>

theorem encoder_cache_accounting:
  assumes "enc_reachable sz c"
  shows "num_free_slots c = cache_size c - (\<Sum>(h, refs)\<leftarrow>ec_cached c. sz h)
    \<and> num_freeable_slots c = cache_size c - (\<Sum>(h, refs)\<leftarrow>ec_cached c. if refs = [] then 0 else sz h)
    \<and> 0 \<le> num_free_slots c \<and> num_free_slots c \<le> num_freeable_slots c \<and> num_freeable_slots c \<le> cache_size c
    \<and> dget (ec_freeable c) = (\<lambda>h. if dget (ec_cached c) h = Some [] then Some (sz h) else None)"
  using enc_reachable_ok[OF assms] enc_ok_bounds[OF enc_reachable_ok[OF assms]]
  by (auto simp: enc_ok_def all_slots_def held_slots_def weight_def fun_eq_iff)

definition demo_image :: "string \<Rightarrow> int \<Rightarrow> mm_feature" where
  "demo_image h n = \<lparr>mm_identifier = h, mm_position = \<lparr>offset = 0, mm_length = n, is_embed = None\<rparr>\<rparr>"

definition demo_images :: "string \<Rightarrow> mm_feature list \<Rightarrow> request" where
  "demo_images rid fs =
     \<lparr>request_id = rid, priority = 0, arrival_time = 0, lora_request = None, sampling_params = None,
      pooling_params = None, structured_output_request = False, status = WAITING, stop_reason = None,
      max_tokens = 16, prompt_token_ids = Some [], prompt_embeds = None, prompt_embeds_per_block_hashes = [],
      num_prompt_tokens = 0, output_token_ids = [], all_token_ids = [],
      num_output_placeholders = 0, spec_token_ids = [], num_computed_tokens = 0, cache_salt = None,
      mm_features = fs, is_prefill_chunk = False, num_preemptions = 0, block_hashes = [],
      skip_reading_prefix_cache = False, resumable = False\<rparr>"

definition demo_sizes :: "string \<Rightarrow> int" where
  "demo_sizes h = (if h = ''x'' then 4 else 3)"

definition demo_one :: request where
  "demo_one = demo_images ''r1'' [demo_image ''x'' 4]"

definition demo_two :: request where
  "demo_two = demo_images ''r2'' [demo_image ''y'' 3]"

definition unwrap :: "'a res \<Rightarrow> 'a" where
  "unwrap x = (case x of Inr v \<Rightarrow> v)"

text \<open>One entry of four embeddings in a cache of six, first held and then released.\<close>

definition demo_held :: encoder_cache where
  "demo_held = unwrap (enc_allocate (encoder_cache_init 6) demo_one 0)"

definition demo_released :: encoder_cache where
  "demo_released = unwrap (enc_free demo_held demo_one)"

lemma demo_feats: "feats_ok demo_sizes demo_one" "feats_ok demo_sizes demo_two"
    "length (mm_features demo_one) = 1" "length (mm_features demo_two) = 1"
    "input_hash demo_one 0 = Inr ''x''" "input_hash demo_two 0 = Inr ''y''"
  by code_simp+

lemma demo_released_reachable: "enc_reachable demo_sizes demo_released"
proof -
  have i: "enc_reachable demo_sizes (encoder_cache_init 6)" by (rule enc_start) (simp_all add: demo_sizes_def)
  have a: "enc_allocate (encoder_cache_init 6) demo_one 0 = Inr demo_held" by code_simp
  have "enc_reachable demo_sizes demo_held"
    by (rule enc_alloc[OF i demo_feats(1) _ _ demo_feats(5) _ a]) (simp_all add: demo_feats encoder_cache_init_def)
  moreover have "enc_free demo_held demo_one = Inr demo_released" by code_simp
  ultimately show ?thesis by (rule enc_freed[OF _ demo_feats(1)])
qed

theorem encoder_cache_accounting_witness:
  "num_free_slots demo_released = 2 \<and> num_freeable_slots demo_released = 6 \<and> cache_size demo_released = 6
   \<and> num_free_slots demo_released = cache_size demo_released - (\<Sum>(h, refs)\<leftarrow>ec_cached demo_released. demo_sizes h)"
proof -
  have "num_free_slots demo_released = 2 \<and> num_freeable_slots demo_released = 6 \<and> cache_size demo_released = 6" by code_simp
  with encoder_cache_accounting[OF demo_released_reachable] show ?thesis by simp
qed

text \<open>
  C23. Admission to the encoder cache is exact and safe: in every reachable state, for an input that is
  not cached, \<^verbatim>\<open>can_allocate\<close> returns without an exception, and returns \<^verbatim>\<open>True\<close> exactly when the input is
  within the compute budget and fits, with what is already planned, into the slots that are free or
  freeable. It evicts only the oldest unreferenced entries and reports them as freed; entries some
  request refers to stay. When it returns \<^verbatim>\<open>True\<close>, \<^verbatim>\<open>allocate\<close> passes its assertions and the request holds
  the entry.
\<close>

theorem encoder_admission_exact:
  assumes "enc_reachable sz c" and "feats_ok sz r" and "0 \<le> i" and "i < int (length (mm_features r))"
    and "input_hash r i = Inr h" and "dget (ec_cached c) h = None" and "0 \<le> sched"
  shows "\<exists>c' k. can_allocate c r i budget sched = Inr (sz h \<le> budget \<and> sz h + sched \<le> num_freeable_slots c, c')
    \<and> ec_freed c' = ec_freed c @ map fst (take k (ec_freeable c)) \<and> ec_freeable c' = drop k (ec_freeable c)
    \<and> (\<forall>x refs. dget (ec_cached c) x = Some refs \<longrightarrow> refs \<noteq> [] \<longrightarrow> dget (ec_cached c') x = Some refs)
    \<and> (sz h \<le> budget \<and> sz h + sched \<le> num_freeable_slots c \<longrightarrow>
         (\<exists>c''. enc_allocate c' r i = Inr c'' \<and> dget (ec_cached c'') h = Some [request_id r]))"
proof -
  note ok = enc_reachable_ok[OF assms(1)]
  obtain c' k where c': "can_allocate c r i budget sched = Inr (sz h \<le> budget \<and> sz h + sched \<le> num_freeable_slots c, c')" "enc_ok sz c'"
    "sz h \<le> budget \<and> sz h + sched \<le> num_freeable_slots c \<longrightarrow> sz h + sched \<le> num_free_slots c'"
    "ec_freed c' = ec_freed c @ map fst (take k (ec_freeable c))" "ec_freeable c' = drop k (ec_freeable c)"
    "\<forall>x. dget (ec_cached c') x = (if x \<in> fst ` set (take k (ec_freeable c)) then None else dget (ec_cached c) x)"
    using can_allocate_ok[OF ok assms(2-5), of budget sched] by (elim exE conjE) (rule that)
  have "dget (ec_cached c') x = Some refs" if refs: "dget (ec_cached c) x = Some refs" "refs \<noteq> []" for x refs
  proof -
    have "dget (ec_freeable c) x = None" using ok refs by (simp add: enc_ok_def)
    then have "x \<notin> fst ` set (take k (ec_freeable c))" by (auto simp: map_of_eq_None_iff dest: in_set_takeD)
    with c'(6) refs show ?thesis by simp
  qed
  moreover have "\<exists>c''. enc_allocate c' r i = Inr c'' \<and> dget (ec_cached c'') h = Some [request_id r]"
    if fits: "sz h \<le> budget \<and> sz h + sched \<le> num_freeable_slots c"
  proof -
    have "dget (ec_cached c') h = None" "sz h \<le> num_free_slots c'" using c'(3,6) fits assms(6,7) by auto
    with allocate_enc_ok[OF c'(2) assms(2-5)] show ?thesis by blast
  qed
  ultimately show ?thesis using c'(1,4,5) by blast
qed

theorem encoder_admission_exact_witness:
  "\<exists>c' c''. can_allocate demo_released demo_two 0 8 0 = Inr (True, c') \<and> ec_freed c' = [''x'']
    \<and> enc_allocate c' demo_two 0 = Inr c'' \<and> dget (ec_cached c'') ''y'' = Some [''r2'']"
proof -
  have ev: "dget (ec_cached demo_released) ''y'' = None" "num_freeable_slots demo_released = 6" "demo_sizes ''y'' = 3" "request_id demo_two = ''r2''"
    "case can_allocate demo_released demo_two 0 8 0 of Inr (b, c') \<Rightarrow> ec_freed c' = [''x''] | _ \<Rightarrow> False" by code_simp+
  obtain c' where "can_allocate demo_released demo_two 0 8 0 = Inr (True, c')"
    "\<exists>c''. enc_allocate c' demo_two 0 = Inr c'' \<and> dget (ec_cached c'') ''y'' = Some [request_id demo_two]"
    using encoder_admission_exact[OF demo_released_reachable demo_feats(2) _ _ demo_feats(6) ev(1), of 0 8] ev demo_feats(4) by auto
  with ev show ?thesis by auto
qed

text \<open>
  C24. Every input can eventually be encoded: with the budgets \<^verbatim>\<open>compute_mm_encoder_budget\<close> computes, an
  input no larger than the largest item of its modality is admitted whenever no request refers to a
  cached entry and nothing else is planned in the step, whatever unreferenced entries fill the cache.
\<close>

theorem encoder_input_admitted:
  assumes "compute_mm_encoder_budget cfg items = Inr (budget, n)" and "(modality, k) \<in> set items"
    and "enc_reachable sz c" and "cache_size c = n" and "\<forall>refs \<in> set (map snd (ec_cached c)). refs = []"
    and "feats_ok sz r" and "0 \<le> i" and "i < int (length (mm_features r))" and "input_hash r i = Inr h" and "sz h \<le> k"
  shows "\<exists>c'. can_allocate c r i budget 0 = Inr (True, c')"
proof -
  have "items \<noteq> []" using assms(2) by auto
  then have b: "budget = max (max_num_encoder_input_tokens cfg) (Max (set (map snd items)))"
    "n = max (encoder_cache_limit cfg) (Max (set (map snd items)))"
    using assms(1) by (auto simp: compute_mm_encoder_budget_def Let_def split: if_splits)
  have "k \<in> set (map snd items)" using assms(2) by force
  then have "k \<le> Max (set (map snd items))" by (intro Max_ge) auto
  then have k: "k \<le> budget" "k \<le> n" using b by auto
  note ok = enc_reachable_ok[OF assms(3)]
  have "weight (\<lambda>h refs. if refs = [] then 0 else sz h) d = 0" if "\<forall>refs \<in> set (map snd d). refs = []" for d
    using that by (induction d) auto
  then have "num_freeable_slots c = n" using ok assms(4,5) by (simp add: enc_ok_def held_slots_def)
  then have "sz h \<le> budget \<and> sz h + 0 \<le> num_freeable_slots c" using k assms(10) by simp
  then show ?thesis using can_allocate_ok[OF ok assms(6-9), of budget 0] by auto
qed

definition demo_limits :: scheduler_limits where
  "demo_limits = \<lparr>disable_chunked_mm_input = False, max_num_batched_tokens = 8, max_num_encoder_input_tokens = 2, encoder_cache_limit = 2\<rparr>"

theorem encoder_input_admitted_witness:
  "\<exists>c'. compute_mm_encoder_budget demo_limits [(''image'', 6), (''audio'', 1)] = Inr (6, 6)
    \<and> can_allocate demo_released demo_two 0 6 0 = Inr (True, c')"
proof -
  have b: "compute_mm_encoder_budget demo_limits [(''image'', 6), (''audio'', 1)] = Inr (6, 6)" by code_simp
  have ev: "cache_size demo_released = 6" "list_all (\<lambda>refs. refs = []) (map snd (ec_cached demo_released))" "demo_sizes ''y'' \<le> 6" by code_simp+
  show ?thesis
    using b encoder_input_admitted[OF b, of "''image''" 6 demo_sizes demo_released demo_two 0 "''y''"] demo_released_reachable ev demo_feats
    by (auto simp: list_all_iff)
qed

end
