(* ===== verification/Spec2Isabelle.thy ===== *)
theory Spec2Isabelle
  imports Hybrid_Hits Request_Queue Stop_Check Encoder_Cache
begin

text \<open>
  \<^bold>\<open>Verification of the paged KV cache of vLLM (the V1 core).\<close>

  The program serves language models. Keys and values of past tokens are kept in fixed-size blocks of
  GPU memory; the code under \<^verbatim>\<open>src/vllm/v1/core\<close> decides which request holds which block, shares blocks
  between requests with a common prefix, and gives blocks back. This development models that
  bookkeeping, from the linked list of free blocks up to the interface the scheduler calls, and
  proves it consistent in every reachable state.

  \<^bold>\<open>Parts and how they interact.\<close>

  \<^item> \<^verbatim>\<open>FreeKVCacheBlockQueue\<close> (\<^verbatim>\<open>kv_cache_utils.py\<close>): a doubly linked list threaded through the blocks, with
    two sentinels, in order of eviction. Theory \<open>Free_Queue\<close>. The blocks live in an explicit heap
    (\<open>addr \<Rightarrow> kv_cache_block\<close>), because the queue, the pool, the hash map and the block tables all alias
    them. \<open>queue_rep h q fs\<close> says that the links of \<open>h\<close> spell the list \<open>fs\<close>; locale \<open>free_list\<close> is the
    contract of the queue and is interpreted on the linked list as \<open>fq\<close>.
  \<^item> \<^verbatim>\<open>Request\<close> (\<^verbatim>\<open>request.py\<close>) with its status enumeration and token lists: theory \<open>Request\<close>.
  \<^item> Block hashes (\<^verbatim>\<open>kv_cache_utils.py\<close>): extra keys, the hash chain, the incremental hasher, the list that
    rescales hashes to a larger block size, and the packing of a hash with a group number. Theory
    \<open>Block_Hash\<close>. The hash function, the root hash and the bytes of embedding tensors are fields of
    \<open>hash_env\<close>; a theorem that needs collision freedom says so.
  \<^item> \<^verbatim>\<open>BlockHashToBlockMap\<close> and \<^verbatim>\<open>BlockPool\<close> (\<^verbatim>\<open>block_pool.py\<close>): theory \<open>Block_Pool\<close>. Locale \<open>block_index\<close> is the
    contract of the map, interpreted as \<open>bm\<close>; \<open>pool_rep p fs\<close> is the invariant of the pool, with \<open>fs\<close> the
    free queue as a list. \<open>Pool_Machine\<close> closes it under all operations (\<open>pool_reachable\<close>).
  \<^item> The KV cache specs (\<^verbatim>\<open>kv_cache_interface.py\<close>): one datatype with a constructor per spec class. Theory
    \<open>KV_Spec\<close>.
  \<^item> \<^verbatim>\<open>SingleTypeKVCacheManager\<close> and its subclasses (\<^verbatim>\<open>single_type_kv_cache_manager.py\<close>): one block table per
    request, for full, sliding window, chunked local, Mamba, cross and sink attention. Theory
    \<open>KV_Managers\<close>; dispatch on the class is a case distinction on \<open>m_class\<close>. The shared pool is passed
    along and returned.
  \<^item> \<^verbatim>\<open>KVCacheCoordinator\<close> and its three subclasses (\<^verbatim>\<open>kv_cache_coordinator.py\<close>): a list of managers over one
    pool, and the search for the longest prefix that is cached for all of them. Theory \<open>Coordinator\<close>.
  \<^item> \<^verbatim>\<open>KVCacheManager\<close> (\<^verbatim>\<open>kv_cache_manager.py\<close>): the interface of the scheduler. Theory \<open>KV_Cache_Manager\<close>.

  \<^bold>\<open>How code becomes definitions.\<close> Python integers are \<open>int\<close>. An exception is the left value of
  \<open>'a res = py_error + 'a\<close>, and every \<^verbatim>\<open>assert\<close>, \<^verbatim>\<open>raise\<close>, failing index and failing lookup of the source is such
  a branch; \<open>ebind\<close> and \<open>efold\<close> sequence fallible code. A dict is an association list, so its order is kept.
  Methods take the state and return the new one. Loops are structural recursion, except the walk over
  the linked list and the fixed point search of the hybrid coordinator: these are
  \<open>partial_function (option)\<close>, so that not ending is the value \<open>None\<close>, and both are proved to end. No
  fuel is used.

  \<^bold>\<open>What the lemmas show.\<close>

  \<^item> \<open>KV_Prelude\<close>: the result type, dicts, Python indexing and slicing, and the generic lemmas.
  \<^item> \<open>Free_Queue\<close>, \<open>Pool_Machine\<close>: the linked list refines a list; \<^verbatim>\<open>popleft_n\<close> is \<^verbatim>\<open>popleft\<close> repeated; blocks are
    handed out least recently freed first; in every reachable pool the queue holds exactly the
    unreferenced blocks and the hash map agrees with the hashes in the blocks.
  \<^item> \<open>Block_Hash\<close>: hashing incrementally gives the hashes of hashing at once; equal hashes mean equal
    prefixes when the hash function has no collision; two places where different inputs get the
    same hash.
  \<^item> \<open>KV_Spec\<close>: merging specs and the uniform type check.
  \<^item> \<open>Manager_Refs\<close>, \<open>Manager_Inv\<close>, \<open>Coordinator_Inv\<close>: every operation of a manager keeps the invariant that
    reference counts are the numbers of occurrences in the tables, and leaves the other managers'
    references alone (locales \<open>manager_op\<close> and \<open>total_manager_op\<close>, interpreted on the operations).
  \<^item> \<open>Allocation\<close>: the number of blocks a call will take is exactly what the capacity check predicts.
  \<^item> \<open>KV_Machine\<close>, \<open>KV_System\<close>, \<open>KV_Properties\<close>: the state machine \<open>kv_step\<close> of all calls the scheduler can
    make and its invariant \<open>kv_ok\<close>; allocation never raises after the check, blocks that are still
    written are held once, freeing and resetting do what they say. \<open>kv_reachable\<close> starts from any valid
    configuration.
  \<^item> \<open>Cache_Hits\<close>, \<open>Prefix_Hits\<close>: what the search of each attention type returns, that the search ends, and
    that a new request can adopt its hit.
  \<^item> \<open>KV_Samples\<close>: the concrete states on which the witnesses evaluate the model.

  \<^bold>\<open>Not modelled.\<close> The scheduler's own loop, the grouping of layers into KV cache groups, and
  everything that runs on the GPU or talks to other processes. Metrics collectors and log messages
  only observe and are left out. The invariant \<open>kv_ok\<close> leaves out attention sinks (their blocks are taken
  for good outside of all tables) and the align mode of Mamba; the operations themselves are modelled.
\<close>

end
